(* ===== verification/Pintos_Prelude.thy ===== *)
theory Pintos_Prelude
  imports Main "HOL-Library.Monad_Syntax" "HOL-Library.Word" "HOL-Library.Multiset"
begin

text \<open>
  Shared vocabulary of the development.

  A kernel function that may panic is a function into \<open>option\<close>: a failed \<open>ASSERT\<close>
  (\<open>src/pintos/src/lib/debug.h\<close>) and a call of \<open>PANIC\<close> never return to the caller, and so does a
  loop that runs forever; all three are the value \<^term>\<open>None\<close>. A theorem that an operation returns is
  therefore always an equation with \<^term>\<open>Some\<close> on its right-hand side.

  The theory also fixes the names of the machine types of the 32-bit x86 target, C's truncating
  division, and the lemmas on lists that several components share.
\<close>

unbundle bit_operations_syntax

named_theorems panic_simps \<open>rewriting of assertions and of the option monad\<close>

section \<open>Panics\<close>

definition ASSERT :: "bool \<Rightarrow> unit option" where
  "ASSERT condition = (if condition then Some () else None)"

lemma ASSERT_True [simp, panic_simps]: "ASSERT True = Some ()"
  by (simp add: ASSERT_def)

lemma ASSERT_False [simp, panic_simps]: "ASSERT False = None"
  by (simp add: ASSERT_def)

lemma ASSERT_Some [simp]: "ASSERT b = Some u \<longleftrightarrow> b"
  by (simp add: ASSERT_def)

lemma ASSERT_None [simp]: "ASSERT b = None \<longleftrightarrow> \<not> b"
  by (simp add: ASSERT_def)

lemma ASSERT_bind [simp, panic_simps]: "b \<Longrightarrow> Option.bind (ASSERT b) f = f ()"
  by (simp add: ASSERT_def)

lemma ASSERT_bind_Some [panic_simps]: "Option.bind (ASSERT b) f = Some x \<longleftrightarrow> b \<and> f () = Some x"
  by (simp add: ASSERT_def)

section \<open>Machine types\<close>

type_synonym u8 = "8 word"
type_synonym u16 = "16 word"
type_synonym u32 = "32 word"
type_synonym u64 = "64 word"

text \<open>
  A \<open>size_t\<close> has 32 bits.  It is a natural number below \<open>2 ^ 32\<close>, with the wrap-around written out where
  the code adds two of them.
\<close>

abbreviation (input) SIZE_MAX :: nat where
  "SIZE_MAX \<equiv> 2 ^ 32 - 1"

definition size_add :: "nat \<Rightarrow> nat \<Rightarrow> nat" where
  "size_add a b = (a + b) mod 2 ^ 32"

lemma size_add_eq [simp]: "a + b < 2 ^ 32 \<Longrightarrow> size_add a b = a + b"
  by (simp add: size_add_def)

lemma size_add_less [simp]: "size_add a b < 2 ^ 32"
  by (simp add: size_add_def)

text \<open>A signed 32-bit value computed modulo \<open>2 ^ 32\<close>.\<close>

definition wrap_int :: "int \<Rightarrow> int" where
  "wrap_int i = (i + 2 ^ 31) mod 2 ^ 32 - 2 ^ 31"

lemma wrap_int_id [simp]: "- (2 ^ 31) \<le> i \<Longrightarrow> i < 2 ^ 31 \<Longrightarrow> wrap_int i = i"
  by (simp add: wrap_int_def)

lemma wrap_int_range: "- (2 ^ 31) \<le> wrap_int i \<and> wrap_int i < 2 ^ 31"
  by (simp add: wrap_int_def)

text \<open>Division and remainder of C on signed integers: the quotient is truncated towards zero.\<close>

definition cdiv :: "int \<Rightarrow> int \<Rightarrow> int" where
  "cdiv a b = sgn a * sgn b * (\<bar>a\<bar> div \<bar>b\<bar>)"

definition cmod :: "int \<Rightarrow> int \<Rightarrow> int" where
  "cmod a b = a - cdiv a b * b"

lemma cdiv_nonneg: "0 \<le> a \<Longrightarrow> 0 < b \<Longrightarrow> cdiv a b = a div b"
  by (cases "a = 0") (auto simp: cdiv_def)

lemma cmod_nonneg: "0 \<le> a \<Longrightarrow> 0 < b \<Longrightarrow> cmod a b = a mod b"
  by (simp add: cmod_def cdiv_nonneg minus_div_mult_eq_mod)

lemma cdiv_neg: "a < 0 \<Longrightarrow> 0 < b \<Longrightarrow> cdiv a b = - ((- a) div b)"
  by (simp add: cdiv_def)

section \<open>Words as bytes\<close>

text \<open>The bytes of a 32-bit word in memory, least significant first.\<close>

definition bytes_of_word :: "u32 \<Rightarrow> u8 list" where
  "bytes_of_word w = [ucast w, ucast (drop_bit 8 w), ucast (drop_bit 16 w), ucast (drop_bit 24 w)]"

fun words_of_bytes :: "u8 list \<Rightarrow> u32 list" where
  "words_of_bytes (a # b # c # d # bs) =
     (ucast a OR push_bit 8 (ucast b) OR push_bit 16 (ucast c) OR push_bit 24 (ucast d)) # words_of_bytes bs"
| "words_of_bytes _ = []"

definition bytes_of_words :: "u32 list \<Rightarrow> u8 list" where
  "bytes_of_words ws = concat (map bytes_of_word ws)"

lemma length_bytes_of_word [simp]: "length (bytes_of_word w) = 4"
  by (simp add: bytes_of_word_def)

lemma bytes_of_words_simps [simp]:
  "bytes_of_words [] = []" "bytes_of_words (w # ws) = bytes_of_word w @ bytes_of_words ws"
  by (simp_all add: bytes_of_words_def)

lemma bytes_of_words_append [simp]: "bytes_of_words (vs @ ws) = bytes_of_words vs @ bytes_of_words ws"
  by (simp add: bytes_of_words_def)

lemma length_bytes_of_words [simp]: "length (bytes_of_words ws) = 4 * length ws"
  by (induction ws) simp_all

lemma word_of_bytes:
  "(ucast (ucast w :: u8) OR push_bit 8 (ucast (ucast (drop_bit 8 w) :: u8)) OR
    push_bit 16 (ucast (ucast (drop_bit 16 w) :: u8)) OR push_bit 24 (ucast (ucast (drop_bit 24 w) :: u8))) = (w :: u32)"
proof (rule bit_word_eqI)
  fix n :: nat
  assume n: "n < LENGTH(32)"
  consider "n < 8" | "8 \<le> n \<and> n < 16" | "16 \<le> n \<and> n < 24" | "24 \<le> n" by linarith
  then show "bit (ucast (ucast w :: u8) OR push_bit 8 (ucast (ucast (drop_bit 8 w) :: u8)) OR
      push_bit 16 (ucast (ucast (drop_bit 16 w) :: u8)) OR push_bit 24 (ucast (ucast (drop_bit 24 w) :: u8)) :: u32) n
      = bit w n"
    using n by cases (auto simp: bit_or_iff bit_push_bit_iff bit_ucast_iff bit_drop_bit_eq)
qed

lemma words_of_bytes_of_words [simp]: "words_of_bytes (bytes_of_words ws) = ws"
  by (induction ws) (simp_all add: bytes_of_word_def word_of_bytes)

lemma take_bytes_of_words: "take (4 * n) (bytes_of_words ws) = bytes_of_words (take n ws)"
proof (induction ws arbitrary: n)
  case (Cons w ws)
  then show ?case by (cases n) simp_all
qed simp

lemma drop_bytes_of_words: "drop (4 * n) (bytes_of_words ws) = bytes_of_words (drop n ws)"
proof (induction ws arbitrary: n)
  case (Cons w ws)
  then show ?case by (cases n) simp_all
qed simp

section \<open>Rounding macros of \<open>lib/round.h\<close>\<close>

definition ROUND_UP :: "nat \<Rightarrow> nat \<Rightarrow> nat" where
  "ROUND_UP x step = (x + step - 1) div step * step"

definition DIV_ROUND_UP :: "nat \<Rightarrow> nat \<Rightarrow> nat" where
  "DIV_ROUND_UP x step = (x + step - 1) div step"

definition ROUND_DOWN :: "nat \<Rightarrow> nat \<Rightarrow> nat" where
  "ROUND_DOWN x step = x div step * step"

lemma DIV_ROUND_UP_ge: "0 < step \<Longrightarrow> x \<le> DIV_ROUND_UP x step * step"
proof -
  assume "0 < step"
  then have "x + step - 1 < (x + step - 1) div step * step + step"
    by (metis add.commute mod_less_divisor mult.commute mult_div_mod_eq nat_add_left_cancel_less)
  with \<open>0 < step\<close> show ?thesis by (simp add: DIV_ROUND_UP_def)
qed

lemma DIV_ROUND_UP_less: "0 < step \<Longrightarrow> DIV_ROUND_UP x step * step < x + step"
proof -
  assume "0 < step"
  then have "(x + step - 1) div step * step \<le> x + step - 1" and "x + step - 1 < x + step"
    by simp_all
  then show ?thesis by (simp only: DIV_ROUND_UP_def le_less_trans)
qed

lemma DIV_ROUND_UP_0 [simp]: "DIV_ROUND_UP 0 step = 0"
  by (cases step) (simp_all add: DIV_ROUND_UP_def)

end
