(* ===== verification/Kernel_List.thy ===== *)
theory Kernel_List
  imports Pintos_Prelude
begin

text \<open>
  The doubly linked lists of \<open>src/pintos/src/lib/kernel/list.c\<close>.

  The list operations only read and write the two link fields of \<open>struct list_elem\<close>, so the memory
  they work on is a store of such elements, indexed by address; address 0 is the null pointer. A
  \<open>struct list\<close> at address \<open>l\<close> holds its two header elements at \<open>l\<close> and \<open>l + 8\<close>. The operations are
  translated assignment by assignment, in the order of the source, and the loops that follow links are
  \<open>partial_function\<close>s: on a store that is not a list they may run forever.

  The predicate \<open>is_list\<close> says which stores represent which sequence of element addresses. The lemmas
  show that every operation returns on such a store and performs the corresponding operation on
  sequences, so that the other components can be stated over HOL lists.
\<close>

section \<open>Elements and headers\<close>

type_synonym ptr = nat

abbreviation (input) NULL :: ptr where
  "NULL \<equiv> 0"

record list_elem =
  prev :: ptr
  "next" :: ptr

type_synonym store = "ptr \<Rightarrow> list_elem"

text \<open>The addresses \<open>&list->head\<close> and \<open>&list->tail\<close> of a \<open>struct list\<close> at address \<open>list\<close>.\<close>

definition head_of :: "ptr \<Rightarrow> ptr" where
  "head_of list = list"

definition tail_of :: "ptr \<Rightarrow> ptr" where
  "tail_of list = list + 8"

definition set_prev :: "ptr \<Rightarrow> ptr \<Rightarrow> store \<Rightarrow> store" where
  "set_prev p v h = h(p := (h p)\<lparr>prev := v\<rparr>)"

definition set_next :: "ptr \<Rightarrow> ptr \<Rightarrow> store \<Rightarrow> store" where
  "set_next p v h = h(p := (h p)\<lparr>next := v\<rparr>)"

definition is_head :: "store \<Rightarrow> ptr \<Rightarrow> bool" where
  "is_head h elem \<longleftrightarrow> elem \<noteq> NULL \<and> prev (h elem) = NULL \<and> next (h elem) \<noteq> NULL"

definition is_interior :: "store \<Rightarrow> ptr \<Rightarrow> bool" where
  "is_interior h elem \<longleftrightarrow> elem \<noteq> NULL \<and> prev (h elem) \<noteq> NULL \<and> next (h elem) \<noteq> NULL"

definition is_tail :: "store \<Rightarrow> ptr \<Rightarrow> bool" where
  "is_tail h elem \<longleftrightarrow> elem \<noteq> NULL \<and> prev (h elem) \<noteq> NULL \<and> next (h elem) = NULL"

section \<open>Operations\<close>

subsection \<open>Initialisation and traversal\<close>

definition list_init :: "store \<Rightarrow> ptr \<Rightarrow> store option" where
  "list_init h list = do {
     ASSERT (list \<noteq> NULL);
     let h = set_prev (head_of list) NULL h;
     let h = set_next (head_of list) (tail_of list) h;
     let h = set_prev (tail_of list) (head_of list) h;
     let h = set_next (tail_of list) NULL h;
     Some h
   }"

definition list_begin :: "store \<Rightarrow> ptr \<Rightarrow> ptr option" where
  "list_begin h list = do { ASSERT (list \<noteq> NULL); Some (next (h (head_of list))) }"

definition list_next :: "store \<Rightarrow> ptr \<Rightarrow> ptr option" where
  "list_next h elem = do { ASSERT (is_head h elem \<or> is_interior h elem); Some (next (h elem)) }"

definition list_end :: "ptr \<Rightarrow> ptr option" where
  "list_end list = do { ASSERT (list \<noteq> NULL); Some (tail_of list) }"

definition list_rbegin :: "store \<Rightarrow> ptr \<Rightarrow> ptr option" where
  "list_rbegin h list = do { ASSERT (list \<noteq> NULL); Some (prev (h (tail_of list))) }"

definition list_prev :: "store \<Rightarrow> ptr \<Rightarrow> ptr option" where
  "list_prev h elem = do { ASSERT (is_interior h elem \<or> is_tail h elem); Some (prev (h elem)) }"

definition list_rend :: "ptr \<Rightarrow> ptr option" where
  "list_rend list = do { ASSERT (list \<noteq> NULL); Some (head_of list) }"

definition list_head :: "ptr \<Rightarrow> ptr option" where
  "list_head list = do { ASSERT (list \<noteq> NULL); Some (head_of list) }"

definition list_tail :: "ptr \<Rightarrow> ptr option" where
  "list_tail list = do { ASSERT (list \<noteq> NULL); Some (tail_of list) }"

subsection \<open>Insertion and removal\<close>

definition list_insert :: "store \<Rightarrow> ptr \<Rightarrow> ptr \<Rightarrow> store option" where
  "list_insert h before elem = do {
     ASSERT (is_interior h before \<or> is_tail h before);
     ASSERT (elem \<noteq> NULL);
     let h = set_prev elem (prev (h before)) h;
     let h = set_next elem before h;
     let h = set_next (prev (h before)) elem h;
     let h = set_prev before elem h;
     Some h
   }"

definition list_splice :: "store \<Rightarrow> ptr \<Rightarrow> ptr \<Rightarrow> ptr \<Rightarrow> store option" where
  "list_splice h before first lst = do {
     ASSERT (is_interior h before \<or> is_tail h before);
     if first = lst then Some h
     else do {
       lst \<leftarrow> list_prev h lst;
       ASSERT (is_interior h first);
       ASSERT (is_interior h lst);
       let h = set_next (prev (h first)) (next (h lst)) h;
       let h = set_prev (next (h lst)) (prev (h first)) h;
       let h = set_prev first (prev (h before)) h;
       let h = set_next lst before h;
       let h = set_next (prev (h before)) first h;
       let h = set_prev before lst h;
       Some h
     }
   }"

definition list_push_front :: "store \<Rightarrow> ptr \<Rightarrow> ptr \<Rightarrow> store option" where
  "list_push_front h list elem = do { b \<leftarrow> list_begin h list; list_insert h b elem }"

definition list_push_back :: "store \<Rightarrow> ptr \<Rightarrow> ptr \<Rightarrow> store option" where
  "list_push_back h list elem = do { b \<leftarrow> list_end list; list_insert h b elem }"

definition list_remove :: "store \<Rightarrow> ptr \<Rightarrow> (ptr \<times> store) option" where
  "list_remove h elem = do {
     ASSERT (is_interior h elem);
     let h = set_next (prev (h elem)) (next (h elem)) h;
     let h = set_prev (next (h elem)) (prev (h elem)) h;
     Some (next (h elem), h)
   }"

definition list_empty :: "store \<Rightarrow> ptr \<Rightarrow> bool option" where
  "list_empty h list = do { b \<leftarrow> list_begin h list; e \<leftarrow> list_end list; Some (b = e) }"

definition list_front :: "store \<Rightarrow> ptr \<Rightarrow> ptr option" where
  "list_front h list = do {
     e \<leftarrow> list_empty h list;
     ASSERT (\<not> e);
     Some (next (h (head_of list)))
   }"

definition list_back :: "store \<Rightarrow> ptr \<Rightarrow> ptr option" where
  "list_back h list = do {
     e \<leftarrow> list_empty h list;
     ASSERT (\<not> e);
     Some (prev (h (tail_of list)))
   }"

definition list_pop_front :: "store \<Rightarrow> ptr \<Rightarrow> (ptr \<times> store) option" where
  "list_pop_front h list = do {
     front \<leftarrow> list_front h list;
     (_, h) \<leftarrow> list_remove h front;
     Some (front, h)
   }"

definition list_pop_back :: "store \<Rightarrow> ptr \<Rightarrow> (ptr \<times> store) option" where
  "list_pop_back h list = do {
     back \<leftarrow> list_back h list;
     (_, h) \<leftarrow> list_remove h back;
     Some (back, h)
   }"

subsection \<open>Size and reversal\<close>

partial_function (option) list_size_loop :: "store \<Rightarrow> ptr \<Rightarrow> ptr \<Rightarrow> nat \<Rightarrow> nat option" where
  "list_size_loop h e stop cnt =
     (if e = stop then Some cnt
      else do { e' \<leftarrow> list_next h e; list_size_loop h e' stop (cnt + 1) })"

definition list_size :: "store \<Rightarrow> ptr \<Rightarrow> nat option" where
  "list_size h list = do {
     b \<leftarrow> list_begin h list; e \<leftarrow> list_end list;
     list_size_loop h b e 0
   }"

text \<open>\<open>swap (&e->prev, &e->next)\<close> exchanges the two links of one element.\<close>

definition swap_links :: "ptr \<Rightarrow> store \<Rightarrow> store" where
  "swap_links e h = (let t = prev (h e) in set_next e t (set_prev e (next (h e)) h))"

partial_function (option) list_reverse_loop :: "store \<Rightarrow> ptr \<Rightarrow> ptr \<Rightarrow> store option" where
  "list_reverse_loop h e stop =
     (if e = stop then Some h
      else list_reverse_loop (swap_links e h) (prev (swap_links e h e)) stop)"

definition list_reverse :: "store \<Rightarrow> ptr \<Rightarrow> store option" where
  "list_reverse h list = do {
     emp \<leftarrow> list_empty h list;
     if emp then Some h
     else do {
       b \<leftarrow> list_begin h list; e \<leftarrow> list_end list;
       h \<leftarrow> list_reverse_loop h b e;
       let hn = next (h (head_of list));
       let h = set_next (head_of list) (prev (h (tail_of list))) h;
       let h = set_prev (tail_of list) hn h;
       let first = next (h (head_of list));
       let lst = prev (h (tail_of list));
       let fp = prev (h first);
       let h = set_prev first (next (h lst)) h;
       let h = set_next lst fp h;
       Some h
     }
   }"

subsection \<open>Ordered lists\<close>

text \<open>
  A \<open>list_less_func\<close> reads the structures around the two elements, never their links; while a list
  operation runs it is a fixed relation on addresses.
\<close>

type_synonym list_less_func = "ptr \<Rightarrow> ptr \<Rightarrow> bool"

partial_function (option) is_sorted_loop ::
    "list_less_func \<Rightarrow> store \<Rightarrow> ptr \<Rightarrow> ptr \<Rightarrow> bool option" where
  "is_sorted_loop lt h a b = do {
     a \<leftarrow> list_next h a;
     if a \<noteq> b then do {
       p \<leftarrow> list_prev h a;
       if lt a p then Some False else is_sorted_loop lt h a b
     }
     else Some True
   }"

definition is_sorted :: "list_less_func \<Rightarrow> store \<Rightarrow> ptr \<Rightarrow> ptr \<Rightarrow> bool option" where
  "is_sorted lt h a b = (if a \<noteq> b then is_sorted_loop lt h a b else Some True)"

partial_function (option) find_end_of_run_loop ::
    "list_less_func \<Rightarrow> store \<Rightarrow> ptr \<Rightarrow> ptr \<Rightarrow> ptr option" where
  "find_end_of_run_loop lt h a b = do {
     a \<leftarrow> list_next h a;
     if a \<noteq> b then do {
       p \<leftarrow> list_prev h a;
       if \<not> lt a p then find_end_of_run_loop lt h a b else Some a
     }
     else Some a
   }"

definition find_end_of_run :: "list_less_func \<Rightarrow> store \<Rightarrow> ptr \<Rightarrow> ptr \<Rightarrow> ptr option" where
  "find_end_of_run lt h a b = do {
     ASSERT (a \<noteq> NULL);
     ASSERT (b \<noteq> NULL);
     ASSERT (a \<noteq> b);
     find_end_of_run_loop lt h a b
   }"

partial_function (option) inplace_merge_loop ::
    "list_less_func \<Rightarrow> store \<Rightarrow> ptr \<Rightarrow> ptr \<Rightarrow> ptr \<Rightarrow> store option" where
  "inplace_merge_loop lt h a0 a1b0 b1 =
     (if a0 \<noteq> a1b0 \<and> a1b0 \<noteq> b1 then
        if \<not> lt a1b0 a0 then do {
          a0 \<leftarrow> list_next h a0;
          inplace_merge_loop lt h a0 a1b0 b1
        }
        else do {
          a1b0 \<leftarrow> list_next h a1b0;
          p \<leftarrow> list_prev h a1b0;
          h \<leftarrow> list_splice h a0 p a1b0;
          inplace_merge_loop lt h a0 a1b0 b1
        }
      else Some h)"

definition inplace_merge ::
    "list_less_func \<Rightarrow> store \<Rightarrow> ptr \<Rightarrow> ptr \<Rightarrow> ptr \<Rightarrow> store option" where
  "inplace_merge lt h a0 a1b0 b1 = do {
     ASSERT (a0 \<noteq> NULL);
     ASSERT (a1b0 \<noteq> NULL);
     ASSERT (b1 \<noteq> NULL);
     s \<leftarrow> is_sorted lt h a0 a1b0;
     ASSERT s;
     s \<leftarrow> is_sorted lt h a1b0 b1;
     ASSERT s;
     inplace_merge_loop lt h a0 a1b0 b1
   }"

text \<open>One pass of the \<open>for\<close> loop of \<open>list_sort\<close>: the number of runs it outputs and the new store.\<close>

partial_function (option) list_sort_pass ::
    "list_less_func \<Rightarrow> store \<Rightarrow> ptr \<Rightarrow> ptr \<Rightarrow> nat \<Rightarrow> (nat \<times> store) option" where
  "list_sort_pass lt h list a0 output_run_cnt = do {
     e \<leftarrow> list_end list;
     if a0 = e then Some (output_run_cnt, h)
     else do {
       a1b0 \<leftarrow> find_end_of_run lt h a0 e;
       if a1b0 = e then Some (output_run_cnt + 1, h)
       else do {
         b1 \<leftarrow> find_end_of_run lt h a1b0 e;
         h \<leftarrow> inplace_merge lt h a0 a1b0 b1;
         list_sort_pass lt h list b1 (output_run_cnt + 1)
       }
     }
   }"

partial_function (option) list_sort_loop ::
    "list_less_func \<Rightarrow> store \<Rightarrow> ptr \<Rightarrow> store option" where
  "list_sort_loop lt h list = do {
     b \<leftarrow> list_begin h list;
     (output_run_cnt, h) \<leftarrow> list_sort_pass lt h list b 0;
     if output_run_cnt > 1 then list_sort_loop lt h list else Some h
   }"

definition list_sort :: "list_less_func \<Rightarrow> store \<Rightarrow> ptr \<Rightarrow> store option" where
  "list_sort lt h list = do {
     ASSERT (list \<noteq> NULL);
     h \<leftarrow> list_sort_loop lt h list;
     b \<leftarrow> list_begin h list; e \<leftarrow> list_end list;
     s \<leftarrow> is_sorted lt h b e;
     ASSERT s;
     Some h
   }"

partial_function (option) list_insert_ordered_loop ::
    "list_less_func \<Rightarrow> store \<Rightarrow> ptr \<Rightarrow> ptr \<Rightarrow> ptr \<Rightarrow> ptr option" where
  "list_insert_ordered_loop lt h elem e stop =
     (if e = stop then Some e
      else if lt elem e then Some e
      else do { e \<leftarrow> list_next h e; list_insert_ordered_loop lt h elem e stop })"

definition list_insert_ordered :: "list_less_func \<Rightarrow> store \<Rightarrow> ptr \<Rightarrow> ptr \<Rightarrow> store option" where
  "list_insert_ordered lt h list elem = do {
     ASSERT (list \<noteq> NULL);
     ASSERT (elem \<noteq> NULL);
     b \<leftarrow> list_begin h list; t \<leftarrow> list_end list;
     e \<leftarrow> list_insert_ordered_loop lt h elem b t;
     list_insert h e elem
   }"

partial_function (option) list_unique_loop ::
    "list_less_func \<Rightarrow> store \<Rightarrow> ptr \<Rightarrow> ptr \<Rightarrow> ptr \<Rightarrow> store option" where
  "list_unique_loop lt h list duplicates elem = do {
     nxt \<leftarrow> list_next h elem;
     e \<leftarrow> list_end list;
     if nxt \<noteq> e then
       if \<not> lt elem nxt \<and> \<not> lt nxt elem then do {
         (_, h) \<leftarrow> list_remove h nxt;
         h \<leftarrow> (if duplicates \<noteq> NULL then list_push_back h duplicates nxt else Some h);
         list_unique_loop lt h list duplicates elem
       }
       else list_unique_loop lt h list duplicates nxt
     else Some h
   }"

definition list_unique :: "list_less_func \<Rightarrow> store \<Rightarrow> ptr \<Rightarrow> ptr \<Rightarrow> store option" where
  "list_unique lt h list duplicates = do {
     ASSERT (list \<noteq> NULL);
     emp \<leftarrow> list_empty h list;
     if emp then Some h
     else do { b \<leftarrow> list_begin h list; list_unique_loop lt h list duplicates b }
   }"

partial_function (option) list_max_loop ::
    "list_less_func \<Rightarrow> store \<Rightarrow> ptr \<Rightarrow> ptr \<Rightarrow> ptr \<Rightarrow> ptr option" where
  "list_max_loop lt h stop mx e =
     (if e = stop then Some mx
      else do { e' \<leftarrow> list_next h e; list_max_loop lt h stop (if lt mx e then e else mx) e' })"

definition list_max :: "list_less_func \<Rightarrow> store \<Rightarrow> ptr \<Rightarrow> ptr option" where
  "list_max lt h list = do {
     mx \<leftarrow> list_begin h list;
     stop \<leftarrow> list_end list;
     if mx \<noteq> stop then do { e \<leftarrow> list_next h mx; list_max_loop lt h stop mx e } else Some mx
   }"

partial_function (option) list_min_loop ::
    "list_less_func \<Rightarrow> store \<Rightarrow> ptr \<Rightarrow> ptr \<Rightarrow> ptr \<Rightarrow> ptr option" where
  "list_min_loop lt h stop mn e =
     (if e = stop then Some mn
      else do { e' \<leftarrow> list_next h e; list_min_loop lt h stop (if lt e mn then e else mn) e' })"

definition list_min :: "list_less_func \<Rightarrow> store \<Rightarrow> ptr \<Rightarrow> ptr option" where
  "list_min lt h list = do {
     mn \<leftarrow> list_begin h list;
     stop \<leftarrow> list_end list;
     if mn \<noteq> stop then do { e \<leftarrow> list_next h mn; list_min_loop lt h stop mn e } else Some mn
   }"


section \<open>Sequences represented by a store\<close>

fun linked :: "store \<Rightarrow> ptr list \<Rightarrow> bool" where
  "linked h (p # q # ps) \<longleftrightarrow> next (h p) = q \<and> prev (h q) = p \<and> linked h (q # ps)"
| "linked h _ \<longleftrightarrow> True"

definition nodes :: "ptr \<Rightarrow> ptr list \<Rightarrow> ptr list" where
  "nodes l xs = head_of l # xs @ [tail_of l]"

definition is_list :: "store \<Rightarrow> ptr \<Rightarrow> ptr list \<Rightarrow> bool" where
  "is_list h l xs \<longleftrightarrow> l \<noteq> NULL \<and> NULL \<notin> set xs \<and> distinct (nodes l xs) \<and> linked h (nodes l xs)
     \<and> prev (h (head_of l)) = NULL \<and> next (h (tail_of l)) = NULL"

text \<open>The two stores agree outside a set of addresses.\<close>

definition same_outside :: "ptr set \<Rightarrow> store \<Rightarrow> store \<Rightarrow> bool" where
  "same_outside S h h' \<longleftrightarrow> (\<forall>p. p \<notin> S \<longrightarrow> h' p = h p)"

lemma same_outside_refl [simp]: "same_outside S h h"
  by (simp add: same_outside_def)

lemma same_outside_trans:
  "same_outside S h h' \<Longrightarrow> same_outside S h' h'' \<Longrightarrow> same_outside S h h''"
  by (simp add: same_outside_def)

lemma same_outside_mono: "same_outside S h h' \<Longrightarrow> S \<subseteq> T \<Longrightarrow> same_outside T h h'"
  by (auto simp: same_outside_def)

lemma same_outside_upd [simp]:
  "p \<in> S \<Longrightarrow> same_outside S h (set_prev p v h') \<longleftrightarrow> same_outside S h h'"
  "p \<in> S \<Longrightarrow> same_outside S h (set_next p v h') \<longleftrightarrow> same_outside S h h'"
  by (auto simp: same_outside_def set_prev_def set_next_def)

lemma prev_set_prev [simp]: "prev (set_prev p v h q) = (if q = p then v else prev (h q))"
  and next_set_prev [simp]: "next (set_prev p v h q) = next (h q)"
  and prev_set_next [simp]: "prev (set_next p v h q) = prev (h q)"
  and next_set_next [simp]: "next (set_next p v h q) = (if q = p then v else next (h q))"
  by (auto simp: set_prev_def set_next_def)

lemma linked_Cons [simp]:
  "linked h (p # ps) \<longleftrightarrow> (ps \<noteq> [] \<longrightarrow> next (h p) = hd ps \<and> prev (h (hd ps)) = p) \<and> linked h ps"
  by (cases ps) auto

declare linked.simps [simp del]
declare linked.simps(2) [simp]

lemma linked_append:
  "linked h (as @ bs) \<longleftrightarrow> linked h as \<and> linked h bs \<and>
     (as \<noteq> [] \<longrightarrow> bs \<noteq> [] \<longrightarrow> next (h (last as)) = hd bs \<and> prev (h (hd bs)) = last as)"
  by (induction as) (auto split: if_splits)

lemma linked_cong:
  assumes "\<And>p. p \<in> set (butlast ps) \<Longrightarrow> next (h' p) = next (h p)"
    and "\<And>p. p \<in> set (tl ps) \<Longrightarrow> prev (h' p) = prev (h p)"
  shows "linked h' ps \<longleftrightarrow> linked h ps"
  using assms
proof (induction ps)
  case (Cons p ps)
  show ?case
  proof (cases ps)
    case (Cons q qs)
    have "linked h' ps \<longleftrightarrow> linked h ps"
      by (rule Cons.IH) (use Cons.prems Cons in \<open>auto\<close>)
    with Cons.prems Cons show ?thesis by auto
  qed simp
qed simp

lemma last_notin_butlast [simp]: "distinct xs \<Longrightarrow> xs \<noteq> [] \<Longrightarrow> last xs \<notin> set (butlast xs)"
  by (metis append_butlast_last_id distinct_append distinct.simps(2) disjoint_iff list.set_intros(1))

lemma hd_notin_tl [simp]: "distinct xs \<Longrightarrow> xs \<noteq> [] \<Longrightarrow> hd xs \<notin> set (tl xs)"
  by (cases xs) auto

lemma linked_set_next [simp]: "p \<notin> set (butlast ps) \<Longrightarrow> linked (set_next p v h) ps \<longleftrightarrow> linked h ps"
  by (rule linked_cong) auto

lemma linked_set_prev [simp]: "p \<notin> set (tl ps) \<Longrightarrow> linked (set_prev p v h) ps \<longleftrightarrow> linked h ps"
  by (rule linked_cong) auto

lemma notin_butlast [simp]: "p \<notin> set ps \<Longrightarrow> p \<notin> set (butlast ps)"
  by (auto dest: in_set_butlastD)

lemma notin_tl [simp]: "p \<notin> set ps \<Longrightarrow> p \<notin> set (tl ps)"
  by (cases ps) auto

subsection \<open>Link surgery on segments\<close>

text \<open>
  The three pointer manipulations of the file, on a chain of elements cut into non-empty segments.
\<close>

lemma segment_disjoint:
  "distinct (as @ bs) \<Longrightarrow> as \<noteq> [] \<Longrightarrow> bs \<noteq> [] \<Longrightarrow>
     last as \<noteq> hd bs \<and> last as \<notin> set bs \<and> hd bs \<notin> set as \<and> hd as \<notin> set bs \<and> last bs \<notin> set as"
  by (metis IntI distinct_append empty_iff hd_in_set last_in_set)

lemma segment_insert:
  assumes lk: "linked h (as @ bs)" and di: "distinct (as @ bs)" and ne: "as \<noteq> []" "bs \<noteq> []"
    and e: "e \<notin> set (as @ bs)"
    and h': "h' = set_prev (hd bs) e (set_next (last as) e
                    (set_next e (hd bs) (set_prev e (last as) h)))"
  shows "linked h' (as @ e # bs)"
proof -
  have "linked h' as"
    using lk di ne e segment_disjoint [OF di ne] by (auto simp: h' linked_append)
  moreover have "linked h' bs"
    using lk di ne e segment_disjoint [OF di ne] by (auto simp: h' linked_append)
  moreover have "e \<noteq> last as" "e \<noteq> hd bs"
    using e ne by auto
  ultimately show ?thesis
    using segment_disjoint [OF di ne] ne by (auto simp: h' linked_append)
qed

lemma segment_remove:
  assumes lk: "linked h (as @ e # bs)" and di: "distinct (as @ e # bs)" and ne: "as \<noteq> []" "bs \<noteq> []"
    and h': "h' = set_prev (hd bs) (last as) (set_next (last as) (hd bs) h)"
  shows "linked h' (as @ bs)"
proof -
  have di': "distinct (as @ bs)" using di by simp
  show ?thesis
    using lk di ne segment_disjoint [OF di' ne] by (auto simp: h' linked_append)
qed

lemma segment_move:
  assumes lk: "linked h (as @ bs @ ms @ cs)" and di: "distinct (as @ bs @ ms @ cs)"
    and ne: "as \<noteq> []" "bs \<noteq> []" "ms \<noteq> []" "cs \<noteq> []"
    and h': "h' = set_prev (hd bs) (last ms) (set_next (last as) (hd ms)
                   (set_next (last ms) (hd bs) (set_prev (hd ms) (last as)
                   (set_prev (hd cs) (last bs) (set_next (last bs) (hd cs) h)))))"
  shows "linked h' (as @ ms @ bs @ cs)"
proof -
  have d: "last as \<in> set as" "hd bs \<in> set bs" "last bs \<in> set bs" "hd ms \<in> set ms" "last ms \<in> set ms"
    "hd cs \<in> set cs"
    using ne by auto
  have x: "set as \<inter> set bs = {}" "set as \<inter> set ms = {}" "set as \<inter> set cs = {}"
    "set bs \<inter> set ms = {}" "set bs \<inter> set cs = {}" "set ms \<inter> set cs = {}"
    "distinct as" "distinct bs" "distinct ms" "distinct cs"
    using di by auto
  have n: "last as \<notin> set bs" "last as \<notin> set ms" "last as \<notin> set cs"
    "hd bs \<notin> set as" "hd bs \<notin> set ms" "hd bs \<notin> set cs"
    "last bs \<notin> set as" "last bs \<notin> set ms" "last bs \<notin> set cs"
    "hd ms \<notin> set as" "hd ms \<notin> set bs" "hd ms \<notin> set cs"
    "last ms \<notin> set as" "last ms \<notin> set bs" "last ms \<notin> set cs"
    "hd cs \<notin> set as" "hd cs \<notin> set bs" "hd cs \<notin> set ms"
    using d x by blast+
  have "linked h' as" "linked h' bs" "linked h' ms" "linked h' cs"
    using lk ne x n by (auto simp: h' linked_append)
  moreover have "last as \<noteq> last bs" "last as \<noteq> last ms" "last ms \<noteq> last bs"
    "hd bs \<noteq> hd ms" "hd bs \<noteq> hd cs" "hd ms \<noteq> hd cs"
    using d n by metis+
  ultimately show ?thesis
    using ne lk by (auto simp: h' linked_append)
qed

subsection \<open>Iterators\<close>

text \<open>
  In a list with the elements \<open>xs @ ys\<close> the iterator in front of \<open>ys\<close> is the first element of \<open>ys\<close>,
  or the tail when \<open>ys\<close> is empty; the element before it is the last of \<open>xs\<close>, or the head.
\<close>

definition pos :: "ptr \<Rightarrow> ptr list \<Rightarrow> ptr" where
  "pos l ys = hd (ys @ [tail_of l])"

definition before_pos :: "ptr \<Rightarrow> ptr list \<Rightarrow> ptr" where
  "before_pos l xs = last (head_of l # xs)"

lemma pos_simps [simp]: "pos l [] = tail_of l" "pos l (y # ys) = y"
  by (simp_all add: pos_def)

lemma before_pos_simps [simp]: "before_pos l [] = head_of l" "before_pos l (xs @ [x]) = x"
  by (simp_all add: before_pos_def)

lemma nodes_append: "nodes l (xs @ ys) = (head_of l # xs) @ (ys @ [tail_of l])"
  by (simp add: nodes_def)

lemma set_nodes: "set (nodes l xs) = {head_of l, tail_of l} \<union> set xs"
  by (auto simp: nodes_def)

lemma is_list_distinct: "is_list h l xs \<Longrightarrow> distinct xs"
  by (simp add: is_list_def nodes_def)

lemma is_list_ptr: "is_list h l xs \<Longrightarrow> 0 < l"
  by (simp add: is_list_def)

lemma is_list_links:
  assumes "is_list h l (xs @ ys)"
  shows "next (h (before_pos l xs)) = pos l ys" and "prev (h (pos l ys)) = before_pos l xs"
proof -
  have "linked h ((head_of l # xs) @ (ys @ [tail_of l]))"
    using assms by (simp only: is_list_def nodes_append)
  then have "next (h (last (head_of l # xs))) = hd (ys @ [tail_of l]) \<and>
      prev (h (hd (ys @ [tail_of l]))) = last (head_of l # xs)"
    by (subst (asm) linked_append) blast
  then show "next (h (before_pos l xs)) = pos l ys" "prev (h (pos l ys)) = before_pos l xs"
    by (simp_all add: pos_def before_pos_def)
qed

lemma is_list_non_null:
  assumes "is_list h l (xs @ ys)"
  shows "pos l ys \<noteq> NULL" and "before_pos l xs \<noteq> NULL"
  using assms by (cases ys; auto simp: is_list_def tail_of_def)
    (cases xs rule: rev_cases; use assms in \<open>auto simp: is_list_def head_of_def\<close>)

lemma is_list_interior:
  assumes "is_list h l (xs @ y # ys)"
  shows "is_interior h y" and "next (h y) = pos l ys" and "prev (h y) = before_pos l xs"
proof -
  have a: "is_list h l ((xs @ [y]) @ ys)" using assms by simp
  show n: "next (h y) = pos l ys" using is_list_links(1) [OF a] by simp
  show p: "prev (h y) = before_pos l xs" using is_list_links(2) [OF assms] by simp
  show "is_interior h y"
    using is_list_non_null [OF assms] is_list_non_null [OF a] n p by (simp add: is_interior_def)
qed

lemma is_list_head: "is_list h l xs \<Longrightarrow> is_head h (head_of l)"
  using is_list_links(1) [of h l "[]" xs] is_list_non_null [of h l "[]" xs]
  by (simp add: is_head_def is_list_def)

lemma is_list_tail: "is_list h l xs \<Longrightarrow> is_tail h (tail_of l)"
  using is_list_links(2) [of h l xs "[]"] is_list_non_null [of h l xs "[]"]
  by (simp add: is_tail_def is_list_def)

lemma is_list_pos: "is_list h l (xs @ ys) \<Longrightarrow> is_interior h (pos l ys) \<or> is_tail h (pos l ys)"
  by (cases ys) (auto simp: is_list_tail is_list_interior)

lemma is_list_not_tail: "is_list h l (xs @ y # ys) \<Longrightarrow> y \<noteq> tail_of l"
  by (auto simp: is_list_def nodes_def)

lemma is_list_pos_tail [simp]: "is_list h l (xs @ ys) \<Longrightarrow> pos l ys = tail_of l \<longleftrightarrow> ys = []"
  by (cases ys) (auto dest: is_list_not_tail)

lemma is_list_pos_eq: "is_list h l (xs @ ys @ zs) \<Longrightarrow> pos l (ys @ zs) = pos l zs \<longleftrightarrow> ys = []"
  by (cases ys; cases zs) (auto simp: is_list_def nodes_def)

lemma list_begin_eq [simp]: "is_list h l xs \<Longrightarrow> list_begin h l = Some (pos l xs)"
  using is_list_links(1) [of h l "[]" xs] by (simp add: list_begin_def is_list_def)

lemma list_end_eq [simp]: "is_list h l xs \<Longrightarrow> list_end l = Some (tail_of l)"
  by (simp add: list_end_def is_list_def)

lemma list_rbegin_eq: "is_list h l xs \<Longrightarrow> list_rbegin h l = Some (before_pos l xs)"
  using is_list_links(2) [of h l xs "[]"] by (simp add: list_rbegin_def is_list_def)

lemma list_next_eq: "is_list h l (xs @ y # ys) \<Longrightarrow> list_next h y = Some (pos l ys)"
  by (simp add: list_next_def is_list_interior)

lemma list_next_head: "is_list h l xs \<Longrightarrow> list_next h (head_of l) = Some (pos l xs)"
  using is_list_links(1) [of h l "[]" xs] by (simp add: list_next_def is_list_head)

lemma list_prev_eq: "is_list h l (xs @ ys) \<Longrightarrow> list_prev h (pos l ys) = Some (before_pos l xs)"
  using is_list_pos is_list_links(2) by (simp add: list_prev_def)

lemma list_empty_eq [simp]: "is_list h l xs \<Longrightarrow> list_empty h l = Some (xs = [])"
  using is_list_pos_tail [of h l "[]" xs] by (auto simp: list_empty_def)

lemma list_front_eq: "is_list h l (x # xs) \<Longrightarrow> list_front h l = Some x"
  using is_list_links(1) [of h l "[]" "x # xs"] by (simp add: list_front_def)

lemma list_back_eq: "is_list h l (xs @ [x]) \<Longrightarrow> list_back h l = Some x"
  using is_list_links(2) [of h l "xs @ [x]" "[]"] by (simp add: list_back_def)

lemma is_list_frame:
  "is_list h l xs \<Longrightarrow> same_outside S h h' \<Longrightarrow> S \<inter> set (nodes l xs) = {} \<Longrightarrow> is_list h' l xs"
proof -
  assume a: "is_list h l xs" "same_outside S h h'" "S \<inter> set (nodes l xs) = {}"
  then have eq: "\<And>p. p \<in> set (nodes l xs) \<Longrightarrow> h' p = h p"
    by (auto simp: same_outside_def)
  have "linked h' (nodes l xs) \<longleftrightarrow> linked h (nodes l xs)"
    by (rule linked_cong) (metis eq in_set_butlastD, metis eq list.set_sel(2) nodes_def list.distinct(1))
  then show ?thesis
    using a(1) eq by (auto simp: is_list_def set_nodes)
qed

section \<open>What the operations do to sequences\<close>

lemma list_init_correct:
  assumes "l \<noteq> NULL"
  shows "\<exists>h'. list_init h l = Some h' \<and> is_list h' l [] \<and> same_outside (set (nodes l [])) h h'"
  using assms by (auto simp: list_init_def is_list_def nodes_def head_of_def tail_of_def)

lemma list_insert_correct:
  assumes l: "is_list h l (xs @ ys)" and e: "e \<notin> set (nodes l (xs @ ys))" "e \<noteq> NULL"
  shows "\<exists>h'. list_insert h (pos l ys) e = Some h' \<and> is_list h' l (xs @ e # ys) \<and>
    same_outside (insert e (set (nodes l (xs @ ys)))) h h'"
proof -
  let ?as = "head_of l # xs" and ?bs = "ys @ [tail_of l]"
  define h' where "h' = set_prev (hd ?bs) e (set_next (last ?as) e
                    (set_next e (hd ?bs) (set_prev e (last ?as) h)))"
  have lk: "linked h (?as @ ?bs)" and di: "distinct (?as @ ?bs)"
    using l by (simp_all only: is_list_def nodes_append)
  have e': "e \<notin> set (?as @ ?bs)" using e(1) by (simp only: nodes_append not_False_eq_True)
  have "hd ?bs \<in> set ?bs" "last ?as \<in> set ?as"
    by (rule hd_in_set, simp) (rule last_in_set, simp)
  with e' have eb: "e \<noteq> pos l ys" "e \<noteq> before_pos l xs"
    by (auto simp: pos_def before_pos_def)
  have ins: "list_insert h (pos l ys) e = Some h'"
    using is_list_pos [OF l] e(2) is_list_links(2) [OF l] eb
    by (simp add: list_insert_def h'_def pos_def before_pos_def Let_def)
  have "linked h' (?as @ e # ?bs)"
    by (rule segment_insert [OF lk di _ _ e' h'_def]) simp_all
  then have "linked h' (nodes l (xs @ e # ys))"
    by (simp add: nodes_def)
  moreover have "prev (h' (head_of l)) = NULL" "next (h' (tail_of l)) = NULL"
    using l di e' by (auto simp: h'_def is_list_def hd_append split: if_splits)
  ultimately have "is_list h' l (xs @ e # ys)"
    using l e di by (auto simp: is_list_def nodes_def)
  moreover have "same_outside (insert e (set (nodes l (xs @ ys)))) h h'"
    by (auto simp: h'_def set_nodes hd_append last_append)
  ultimately show ?thesis using ins by blast
qed

lemma list_push_front_correct:
  assumes "is_list h l xs" "e \<notin> set (nodes l xs)" "e \<noteq> NULL"
  shows "\<exists>h'. list_push_front h l e = Some h' \<and> is_list h' l (e # xs) \<and>
    same_outside (insert e (set (nodes l xs))) h h'"
  using list_insert_correct [of h l "[]" xs e] assms by (simp add: list_push_front_def)

lemma list_push_back_correct:
  assumes "is_list h l xs" "e \<notin> set (nodes l xs)" "e \<noteq> NULL"
  shows "\<exists>h'. list_push_back h l e = Some h' \<and> is_list h' l (xs @ [e]) \<and>
    same_outside (insert e (set (nodes l xs))) h h'"
  using list_insert_correct [of h l xs "[]" e] assms by (simp add: list_push_back_def)

lemma pos_in_nodes: "pos l ys \<in> set (nodes l (xs @ ys))"
  by (cases ys) (auto simp: set_nodes)

lemma before_pos_in_nodes: "before_pos l xs \<in> set (nodes l (xs @ ys))"
  by (cases xs rule: rev_cases) (auto simp: set_nodes)

lemma list_remove_correct:
  assumes l: "is_list h l (xs @ e # ys)"
  shows "\<exists>h'. list_remove h e = Some (pos l ys, h') \<and> is_list h' l (xs @ ys) \<and>
    same_outside (set (nodes l (xs @ ys))) h h'"
proof -
  let ?as = "head_of l # xs" and ?bs = "ys @ [tail_of l]"
  define h' where "h' = set_prev (hd ?bs) (last ?as) (set_next (last ?as) (hd ?bs) h)"
  have nd: "nodes l (xs @ e # ys) = ?as @ e # ?bs" by (simp add: nodes_def)
  have lk: "linked h (?as @ e # ?bs)" and di: "distinct (?as @ e # ?bs)"
    using l by (simp_all only: is_list_def nd)
  have ne: "e \<noteq> before_pos l xs" "e \<noteq> pos l ys"
    using di by (cases xs rule: rev_cases; auto) (use di in \<open>cases ys; auto\<close>)
  have rem: "list_remove h e = Some (pos l ys, h')"
    using is_list_interior [OF l] ne
    by (simp add: list_remove_def h'_def pos_def before_pos_def Let_def)
  have "linked h' (?as @ ?bs)"
    by (rule segment_remove [OF lk di _ _ h'_def]) simp_all
  moreover have "prev (h' (head_of l)) = NULL" "next (h' (tail_of l)) = NULL"
    using l di by (auto simp: h'_def is_list_def hd_append split: if_splits)
  ultimately have "is_list h' l (xs @ ys)"
    using l di by (auto simp: is_list_def nodes_def)
  moreover have "same_outside (set (nodes l (xs @ ys))) h h'"
    unfolding h'_def pos_def [symmetric] before_pos_def [symmetric]
    by (simp add: pos_in_nodes before_pos_in_nodes)
  ultimately show ?thesis using rem by blast
qed

lemma list_pop_front_correct:
  assumes "is_list h l (x # xs)"
  shows "\<exists>h'. list_pop_front h l = Some (x, h') \<and> is_list h' l xs \<and>
    same_outside (set (nodes l xs)) h h'"
  using list_remove_correct [of h l "[]" x xs] list_front_eq [OF assms] assms
  by (auto simp: list_pop_front_def)

lemma list_pop_back_correct:
  assumes "is_list h l (xs @ [x])"
  shows "\<exists>h'. list_pop_back h l = Some (x, h') \<and> is_list h' l xs \<and>
    same_outside (set (nodes l xs)) h h'"
  using list_remove_correct [of h l xs x "[]"] list_back_eq [OF assms] assms
  by (auto simp: list_pop_back_def)

text \<open>Moving the elements \<open>ms\<close> of a list in front of the elements \<open>bs\<close> that precede them.\<close>

lemma list_splice_correct:
  assumes l: "is_list h l (xs @ bs @ ms @ ys)" and ne: "bs \<noteq> []" "ms \<noteq> []"
  shows "\<exists>h'. list_splice h (pos l (bs @ ms @ ys)) (pos l (ms @ ys)) (pos l ys) = Some h' \<and>
    is_list h' l (xs @ ms @ bs @ ys) \<and> same_outside (set (nodes l (xs @ bs @ ms @ ys))) h h'"
proof -
  let ?as = "head_of l # xs" and ?cs = "ys @ [tail_of l]"
  define h' where "h' = set_prev (hd bs) (last ms) (set_next (last ?as) (hd ms)
                   (set_next (last ms) (hd bs) (set_prev (hd ms) (last ?as)
                   (set_prev (hd ?cs) (last bs) (set_next (last bs) (hd ?cs) h)))))"
  have nd: "nodes l (xs @ bs @ ms @ ys) = ?as @ bs @ ms @ ?cs" by (simp add: nodes_def)
  have lk: "linked h (?as @ bs @ ms @ ?cs)" and di: "distinct (?as @ bs @ ms @ ?cs)"
    using l by (simp_all only: is_list_def nd)
  have l2: "is_list h l ((xs @ bs) @ (ms @ ys))" and l3: "is_list h l ((xs @ bs @ ms) @ ys)"
    using l by simp_all
  have hb: "pos l (bs @ ms @ ys) = hd bs" and hm: "pos l (ms @ ys) = hd ms" and hc: "pos l ys = hd ?cs"
    and la: "before_pos l xs = last ?as"
    and lb: "before_pos l (xs @ bs) = last bs" and lm: "before_pos l (xs @ bs @ ms) = last ms"
    using ne by (auto simp: pos_def before_pos_def last_append)
  have links: "next (h (last bs)) = hd ms" "prev (h (hd ms)) = last bs"
    "next (h (last ms)) = hd ?cs" "prev (h (hd ?cs)) = last ms" "prev (h (hd bs)) = last ?as"
    using is_list_links [OF l] is_list_links [OF l2] is_list_links [OF l3]
    by (simp_all only: hb hm hc la lb lm)
  have d: "last ?as \<in> set ?as" "hd bs \<in> set bs" "last bs \<in> set bs" "hd ms \<in> set ms"
    "last ms \<in> set ms" "hd ?cs \<in> set ?cs"
    by (rule last_in_set hd_in_set, use ne in simp)+
  have x: "set ?as \<inter> set bs = {}" "set ?as \<inter> set ms = {}" "set ?as \<inter> set ?cs = {}"
    "set bs \<inter> set ms = {}" "set bs \<inter> set ?cs = {}" "set ms \<inter> set ?cs = {}"
    using di by (simp_all only: distinct_append set_append) blast+
  have ht: "head_of l \<in> set ?as" "tail_of l \<in> set ?cs" by simp_all
  have dis: "hd ms \<noteq> hd ?cs" "hd bs \<noteq> hd ms" "hd bs \<noteq> hd ?cs" "last bs \<noteq> last ms"
    "last ?as \<noteq> last ms" "last ?as \<noteq> last bs" "head_of l \<noteq> hd bs" "head_of l \<noteq> hd ms"
    "head_of l \<noteq> hd ?cs" "tail_of l \<noteq> last ?as" "tail_of l \<noteq> last ms" "tail_of l \<noteq> last bs"
    using d x ht by (metis disjoint_iff)+
  have "xs @ bs @ ms @ ys = (xs @ bs) @ hd ms # (tl ms @ ys)"
    "xs @ bs @ ms @ ys = (xs @ bs @ butlast ms) @ last ms # ys"
    using ne by (simp, subst append_butlast_last_id [OF ne(2), symmetric], simp)
  then have im: "is_interior h (hd ms)" "is_interior h (last ms)"
    using is_list_interior(1) l by metis+
  have sp: "list_splice h (hd bs) (hd ms) (hd ?cs) = Some h'"
    using is_list_pos [OF l] list_prev_eq [OF l3] links dis im
    by (simp add: list_splice_def h'_def hb hm hc lm Let_def)
  have "linked h' (?as @ ms @ bs @ ?cs)"
    by (rule segment_move [OF lk di _ _ _ _ h'_def]) (use ne in simp_all)
  moreover have "prev (h' (head_of l)) = NULL" "next (h' (tail_of l)) = NULL"
    using l dis by (simp_all add: h'_def is_list_def del: last.simps)
  moreover have "distinct (nodes l (xs @ ms @ bs @ ys))"
    using di x by (simp add: nodes_def) blast
  ultimately have "is_list h' l (xs @ ms @ bs @ ys)"
    using l by (simp add: is_list_def nodes_def)
  moreover have "same_outside (set (nodes l (xs @ bs @ ms @ ys))) h h'"
    using d by (simp only: h'_def nd same_outside_upd same_outside_refl set_append Un_iff simp_thms)
  ultimately show ?thesis using sp by (simp add: hb hm hc)
qed

subsection \<open>Size and ordered insertion\<close>

lemma list_size_loop_eq:
  "is_list h l (xs @ ys) \<Longrightarrow> list_size_loop h (pos l ys) (tail_of l) n = Some (n + length ys)"
proof (induction ys arbitrary: xs n)
  case Nil
  then show ?case by (simp add: list_size_loop.simps)
next
  case (Cons y ys)
  have "list_size_loop h (pos l ys) (tail_of l) (n + 1) = Some (n + 1 + length ys)"
    by (rule Cons.IH [of "xs @ [y]"]) (use Cons.prems in simp)
  then show ?case
    using Cons.prems
    by (subst list_size_loop.simps) (simp add: is_list_not_tail list_next_eq)
qed

lemma list_size_correct: "is_list h l xs \<Longrightarrow> list_size h l = Some (length xs)"
  using list_size_loop_eq [of h l "[]" xs 0] by (simp add: list_size_def)

definition insert_ordered :: "('a \<Rightarrow> 'a \<Rightarrow> bool) \<Rightarrow> 'a \<Rightarrow> 'a list \<Rightarrow> 'a list" where
  "insert_ordered lt e xs = takeWhile (\<lambda>x. \<not> lt e x) xs @ e # dropWhile (\<lambda>x. \<not> lt e x) xs"

lemma mset_insert_ordered [simp]: "mset (insert_ordered lt e xs) = add_mset e (mset xs)"
  by (simp add: insert_ordered_def) (metis mset_append takeWhile_dropWhile_id)

lemma set_insert_ordered [simp]: "set (insert_ordered lt e xs) = insert e (set xs)"
  by (metis mset_insert_ordered set_mset_add_mset_insert set_mset_mset)

lemma length_insert_ordered [simp]: "length (insert_ordered lt e xs) = Suc (length xs)"
  by (metis mset_insert_ordered size_add_mset size_mset)

lemma distinct_insert_ordered [simp]:
  "distinct (insert_ordered lt e xs) \<longleftrightarrow> e \<notin> set xs \<and> distinct xs"
  using mset_eq_imp_distinct_iff [of "insert_ordered lt e xs" "e # xs"] by simp

lemma list_insert_ordered_loop_eq:
  "is_list h l (xs @ ys) \<Longrightarrow>
     list_insert_ordered_loop lt h e (pos l ys) (tail_of l) = Some (pos l (dropWhile (\<lambda>x. \<not> lt e x) ys))"
proof (induction ys arbitrary: xs)
  case Nil
  then show ?case by (simp add: list_insert_ordered_loop.simps)
next
  case (Cons y ys)
  have "list_insert_ordered_loop lt h e (pos l ys) (tail_of l) =
      Some (pos l (dropWhile (\<lambda>x. \<not> lt e x) ys))"
    by (rule Cons.IH [of "xs @ [y]"]) (use Cons.prems in simp)
  then show ?case
    using Cons.prems
    by (subst list_insert_ordered_loop.simps) (simp add: is_list_not_tail list_next_eq)
qed

lemma list_insert_ordered_correct:
  assumes l: "is_list h l xs" and e: "e \<notin> set (nodes l xs)" "e \<noteq> NULL"
  shows "\<exists>h'. list_insert_ordered lt h l e = Some h' \<and> is_list h' l (insert_ordered lt e xs) \<and>
    same_outside (insert e (set (nodes l xs))) h h'"
proof -
  let ?P = "\<lambda>x. \<not> lt e x"
  have "list_insert_ordered_loop lt h e (pos l xs) (tail_of l) = Some (pos l (dropWhile ?P xs))"
    by (rule list_insert_ordered_loop_eq [of h l "[]"]) (use l in simp)
  then show ?thesis
    using list_insert_correct [of h l "takeWhile ?P xs" "dropWhile ?P xs" e] assms
    by (simp add: list_insert_ordered_def insert_ordered_def is_list_ptr)
qed

subsection \<open>Sorting\<close>

text \<open>
  The sort is an in-place natural merge sort. Its passes are first described on sequences: a run is a
  maximal stretch without a descent, a pass merges the runs in pairs.
\<close>

fun run_prefix :: "('a \<Rightarrow> 'a \<Rightarrow> bool) \<Rightarrow> 'a \<Rightarrow> 'a list \<Rightarrow> 'a list" where
  "run_prefix lt a [] = [a]"
| "run_prefix lt a (b # xs) = (if lt b a then [a] else a # run_prefix lt b xs)"

fun run_rest :: "('a \<Rightarrow> 'a \<Rightarrow> bool) \<Rightarrow> 'a \<Rightarrow> 'a list \<Rightarrow> 'a list" where
  "run_rest lt a [] = []"
| "run_rest lt a (b # xs) = (if lt b a then b # xs else run_rest lt b xs)"

fun merge_runs :: "('a \<Rightarrow> 'a \<Rightarrow> bool) \<Rightarrow> 'a list \<Rightarrow> 'a list \<Rightarrow> 'a list" where
  "merge_runs lt [] bs = bs"
| "merge_runs lt as [] = as"
| "merge_runs lt (a # as) (b # bs) =
     (if lt b a then b # merge_runs lt (a # as) bs else a # merge_runs lt as (b # bs))"

fun runs :: "('a \<Rightarrow> 'a \<Rightarrow> bool) \<Rightarrow> 'a list \<Rightarrow> nat" where
  "runs lt [] = 0"
| "runs lt [a] = 1"
| "runs lt (a # b # xs) = (if lt b a then Suc (runs lt (b # xs)) else runs lt (b # xs))"

lemma run_split: "run_prefix lt a xs @ run_rest lt a xs = a # xs"
  by (induction lt a xs rule: run_prefix.induct) auto

lemma run_prefix_ne [simp]: "run_prefix lt a xs \<noteq> []"
  by (cases xs) auto

lemma length_run_rest: "length (run_rest lt a xs) \<le> length xs"
  by (induction lt a xs rule: run_rest.induct) auto

function merge_pass :: "('a \<Rightarrow> 'a \<Rightarrow> bool) \<Rightarrow> 'a list \<Rightarrow> nat \<times> 'a list" where
  "merge_pass lt [] = (0, [])"
| "merge_pass lt (a # xs) =
     (case run_rest lt a xs of
        [] \<Rightarrow> (1, a # xs)
      | b # ys \<Rightarrow>
          (let (n, zs) = merge_pass lt (run_rest lt b ys)
           in (n + 1, merge_runs lt (run_prefix lt a xs) (run_prefix lt b ys) @ zs)))"
  by pat_completeness auto
termination
proof (relation "measure (\<lambda>(lt, xs). length xs)", goal_cases)
  case (2 lt a xs b ys)
  then have "length (b # ys) \<le> length xs" using length_run_rest [of lt a xs] by simp
  moreover have "length (run_rest lt b ys) \<le> length ys" by (rule length_run_rest)
  ultimately show ?case by simp
qed simp

lemma mset_merge_runs: "mset (merge_runs lt as bs) = mset as + mset bs"
  by (induction lt as bs rule: merge_runs.induct) auto

subsubsection \<open>Passes on the store\<close>

lemma find_end_of_run_loop_eq:
  "is_list h l (xs @ a # ys) \<Longrightarrow>
     find_end_of_run_loop lt h a (tail_of l) = Some (pos l (run_rest lt a ys))"
proof (induction ys arbitrary: xs a)
  case Nil
  then show ?case
    by (subst find_end_of_run_loop.simps) (simp add: list_next_eq)
next
  case (Cons b ys)
  have l': "is_list h l ((xs @ [a]) @ b # ys)" using Cons.prems by simp
  have "list_prev h b = Some a"
    using list_prev_eq [OF l'] by simp
  then show ?case
    using Cons.prems Cons.IH [OF l'] is_list_not_tail [OF l']
    by (subst find_end_of_run_loop.simps) (simp add: list_next_eq)
qed

lemma find_end_of_run_eq:
  assumes "is_list h l (xs @ a # ys)"
  shows "find_end_of_run lt h a (tail_of l) = Some (pos l (run_rest lt a ys))"
  using assms is_list_non_null(1) [of h l xs "a # ys"] is_list_non_null(1) [of h l "xs @ a # ys" "[]"]
  by (simp add: find_end_of_run_def find_end_of_run_loop_eq is_list_not_tail)

abbreviation (input) ascending :: "('a \<Rightarrow> 'a \<Rightarrow> bool) \<Rightarrow> 'a list \<Rightarrow> bool" where
  "ascending lt \<equiv> successively (\<lambda>a b. \<not> lt b a)"

lemma is_sorted_loop_eq:
  "is_list h l (xs @ (a # as) @ bs) \<Longrightarrow> is_sorted_loop lt h a (pos l bs) = Some (ascending lt (a # as))"
proof (induction as arbitrary: xs a)
  case Nil
  then show ?case
    by (subst is_sorted_loop.simps) (simp add: list_next_eq)
next
  case (Cons b as)
  have l': "is_list h l ((xs @ [a]) @ (b # as) @ bs)" using Cons.prems by simp
  have "list_prev h b = Some a"
    using list_prev_eq [of h l "xs @ [a]" "b # as @ bs"] l' by simp
  moreover have "b \<noteq> pos l bs"
    using is_list_pos_eq [of h l "xs @ [a]" "b # as" bs] l' by simp
  ultimately show ?case
    using Cons.prems Cons.IH [OF l']
    by (subst is_sorted_loop.simps) (simp add: list_next_eq)
qed

lemma is_sorted_eq:
  assumes "is_list h l (xs @ as @ bs)"
  shows "is_sorted lt h (pos l (as @ bs)) (pos l bs) = Some (ascending lt as)"
proof (cases as)
  case Nil
  then show ?thesis by (simp add: is_sorted_def)
next
  case (Cons a as')
  then show ?thesis
    using assms is_list_pos_eq [OF assms] is_sorted_loop_eq [of h l xs a as' bs lt]
    by (simp add: is_sorted_def)
qed

lemma inplace_merge_loop_correct:
  "is_list h l (xs @ as @ bs @ ys) \<Longrightarrow>
   \<exists>h'. inplace_merge_loop lt h (pos l (as @ bs @ ys)) (pos l (bs @ ys)) (pos l ys) = Some h' \<and>
     is_list h' l (xs @ merge_runs lt as bs @ ys) \<and>
     same_outside (set (nodes l (xs @ as @ bs @ ys))) h h'"
proof (induction lt as bs arbitrary: h xs rule: merge_runs.induct)
  case (1 lt bs)
  then show ?case by (subst inplace_merge_loop.simps) simp
next
  case (2 lt a as)
  then show ?case by (subst inplace_merge_loop.simps) simp
next
  case (3 lt a as b bs)
  have ne: "a \<noteq> b" "b \<noteq> pos l ys"
    using is_list_pos_eq [of h l xs "a # as" "(b # bs) @ ys"]
      is_list_pos_eq [of h l "xs @ a # as" "b # bs" ys] "3.prems" by simp_all
  show ?case
  proof (cases "lt b a")
    case False
    have "is_list h l ((xs @ [a]) @ as @ (b # bs) @ ys)" using "3.prems" by simp
    from "3.IH"(2) [OF False this] show ?thesis
      using ne False "3.prems"
      by (subst inplace_merge_loop.simps) (simp add: list_next_eq)
  next
    case True
    have sp: "\<exists>h'. list_splice h a b (pos l (bs @ ys)) = Some h' \<and>
        is_list h' l (xs @ [b] @ (a # as) @ bs @ ys) \<and>
        same_outside (set (nodes l (xs @ (a # as) @ (b # bs) @ ys))) h h'"
      using list_splice_correct [of h l xs "a # as" "[b]" "bs @ ys"] "3.prems" by simp
    then obtain h1 where h1: "list_splice h a b (pos l (bs @ ys)) = Some h1"
      "is_list h1 l ((xs @ [b]) @ (a # as) @ bs @ ys)"
      "same_outside (set (nodes l (xs @ (a # as) @ (b # bs) @ ys))) h h1"
      by auto
    from "3.IH"(1) [OF True h1(2)] obtain h2 where
      h2: "inplace_merge_loop lt h1 a (pos l (bs @ ys)) (pos l ys) = Some h2"
      "is_list h2 l ((xs @ [b]) @ merge_runs lt (a # as) bs @ ys)"
      "same_outside (set (nodes l ((xs @ [b]) @ (a # as) @ bs @ ys))) h1 h2"
      by auto
    have "list_next h b = Some (pos l (bs @ ys))" "list_prev h (pos l (bs @ ys)) = Some b"
      using list_next_eq [of h l "xs @ a # as" b "bs @ ys"]
        list_prev_eq [of h l "xs @ a # as @ [b]" "bs @ ys"] "3.prems"
      by (simp_all add: before_pos_def)
    then have "inplace_merge_loop lt h a b (pos l ys) = Some h2"
      using ne True h1(1) h2(1) by (subst inplace_merge_loop.simps) simp
    moreover have "same_outside (set (nodes l (xs @ (a # as) @ (b # bs) @ ys))) h1 h2"
      by (rule same_outside_mono [OF h2(3)]) (auto simp: set_nodes)
    ultimately show ?thesis
      using h1(3) h2(2) True by (auto intro: same_outside_trans)
  qed
qed

lemma inplace_merge_correct:
  assumes "is_list h l (xs @ as @ bs @ ys)" "ascending lt as" "ascending lt bs"
  shows "\<exists>h'. inplace_merge lt h (pos l (as @ bs @ ys)) (pos l (bs @ ys)) (pos l ys) = Some h' \<and>
     is_list h' l (xs @ merge_runs lt as bs @ ys) \<and>
     same_outside (set (nodes l (xs @ as @ bs @ ys))) h h'"
  using inplace_merge_loop_correct [OF assms(1), of lt] assms(2,3)
    is_sorted_eq [of h l xs as "bs @ ys" lt] is_sorted_eq [of h l "xs @ as" bs ys lt]
    is_list_non_null(1) [of h l xs "as @ bs @ ys"] is_list_non_null(1) [of h l "xs @ as" "bs @ ys"]
    is_list_non_null(1) [of h l "xs @ as @ bs" ys] assms(1)
  by (simp add: inplace_merge_def)

lemma ascending_run_prefix: "ascending lt (run_prefix lt a xs)"
proof -
  have "ascending lt (run_prefix lt a xs) \<and> hd (run_prefix lt a xs) = a"
    by (induction lt a xs rule: run_prefix.induct) (auto simp: successively_Cons)
  then show ?thesis ..
qed

lemma set_nodes_cong: "set xs = set ys \<Longrightarrow> set (nodes l xs) = set (nodes l ys)"
  by (simp add: set_nodes)

lemma list_sort_pass_correct:
  "is_list h l (xs @ ys) \<Longrightarrow>
   \<exists>h'. list_sort_pass lt h l (pos l ys) n = Some (n + fst (merge_pass lt ys), h') \<and>
     is_list h' l (xs @ snd (merge_pass lt ys)) \<and> same_outside (set (nodes l (xs @ ys))) h h'"
proof (induction lt ys arbitrary: h xs n rule: merge_pass.induct)
  case (1 lt)
  then show ?case by (subst list_sort_pass.simps) simp
next
  case (2 lt a as)
  note l = "2.prems"
  have a_ne: "a \<noteq> tail_of l" using l by (rule is_list_not_tail)
  show ?case
  proof (cases "run_rest lt a as")
    case Nil
    then show ?thesis
      using l a_ne by (subst list_sort_pass.simps) (simp add: find_end_of_run_eq)
  next
    case (Cons b bs)
    let ?r1 = "run_prefix lt a as" and ?r2 = "run_prefix lt b bs" and ?zs = "run_rest lt b bs"
    have split: "a # as = ?r1 @ ?r2 @ ?zs"
      using run_split [of lt a as] run_split [of lt b bs] Cons by simp
    have l': "is_list h l (xs @ ?r1 @ ?r2 @ ?zs)" using l split by simp
    have b1: "pos l (?r1 @ ?r2 @ ?zs) = a" "pos l (?r2 @ ?zs) = b"
      using split run_split [of lt b bs] by (metis pos_simps(2))+
    from inplace_merge_correct [OF l' ascending_run_prefix ascending_run_prefix] obtain h1 where
      h1: "inplace_merge lt h a b (pos l ?zs) = Some h1"
      "is_list h1 l (xs @ merge_runs lt ?r1 ?r2 @ ?zs)"
      "same_outside (set (nodes l (xs @ a # as))) h h1"
      by (auto simp: b1 simp flip: split)
    have "is_list h1 l ((xs @ merge_runs lt ?r1 ?r2) @ ?zs)" using h1(2) by simp
    from "2.IH" [OF Cons this, of "n + 1"] obtain h2 where
      h2: "list_sort_pass lt h1 l (pos l ?zs) (n + 1) = Some (n + 1 + fst (merge_pass lt ?zs), h2)"
      "is_list h2 l ((xs @ merge_runs lt ?r1 ?r2) @ snd (merge_pass lt ?zs))"
      "same_outside (set (nodes l ((xs @ merge_runs lt ?r1 ?r2) @ ?zs))) h1 h2"
      by auto
    have "set (merge_runs lt ?r1 ?r2) = set ?r1 \<union> set ?r2"
      by (metis mset_merge_runs set_mset_mset set_mset_union)
    then have "set (nodes l ((xs @ merge_runs lt ?r1 ?r2) @ ?zs)) = set (nodes l (xs @ a # as))"
      by (intro set_nodes_cong) (simp add: split Un_assoc)
    then have fr: "same_outside (set (nodes l (xs @ a # as))) h h2"
      using h1(3) h2(3) by (metis same_outside_trans)
    have lb: "is_list h l ((xs @ ?r1) @ b # bs)"
      using l' run_split [of lt b bs] by simp
    have "list_sort_pass lt h l a n = Some (n + 1 + fst (merge_pass lt ?zs), h2)"
      using l a_ne Cons h1(1) h2(1) is_list_not_tail [OF lb] find_end_of_run_eq [OF lb]
      by (subst list_sort_pass.simps) (simp add: find_end_of_run_eq)
    then show ?thesis
      using h2(2) fr Cons by (simp add: case_prod_unfold Let_def)
  qed
qed

subsubsection \<open>The contract of a comparison function\<close>

text \<open>
  A \<open>list_less_func\<close> is asymmetric, which is all that termination of the sort needs, and it is a strict
  weak order, which makes the result sorted and the sort stable.
\<close>

lemma runs_append: "runs lt (as @ bs) \<le> runs lt as + runs lt bs"
  by (induction lt as rule: runs.induct) (cases bs; auto)+

lemma runs_run_rest: "runs lt (a # xs) = Suc (runs lt (run_rest lt a xs))"
  by (induction lt a xs rule: run_rest.induct) auto

lemma ascending_iff_runs: "ascending lt xs \<longleftrightarrow> runs lt xs \<le> 1"
proof (induction lt xs rule: runs.induct)
  case (3 lt a b xs)
  then show ?case using runs_run_rest [of lt b xs] by auto
qed auto

lemma mset_merge_pass: "mset (snd (merge_pass lt xs)) = mset xs"
proof (induction lt xs rule: merge_pass.induct)
  case (2 lt a xs)
  show ?case
  proof (cases "run_rest lt a xs")
    case (Cons b ys)
    have "mset (a # xs) = mset (run_prefix lt a xs @ run_prefix lt b ys @ run_rest lt b ys)"
      using run_split [of lt a xs] run_split [of lt b ys] Cons by simp
    with Cons "2.IH" [OF Cons] show ?thesis
      by (simp add: case_prod_unfold Let_def mset_merge_runs)
  qed simp
qed simp

lemma merge_pass_count: "fst (merge_pass lt xs) = (runs lt xs + 1) div 2"
proof (induction lt xs rule: merge_pass.induct)
  case (2 lt a xs)
  show ?case
  proof (cases "run_rest lt a xs")
    case Nil
    then show ?thesis using runs_run_rest [of lt a xs] by simp
  next
    case (Cons b ys)
    with "2.IH" [OF Cons] show ?thesis
      using runs_run_rest [of lt a xs] runs_run_rest [of lt b ys]
      by (simp add: case_prod_unfold Let_def del: runs.simps)
  qed
qed simp

locale list_less =
  fixes lt :: "'a \<Rightarrow> 'a \<Rightarrow> bool"
  assumes asym: "lt a b \<Longrightarrow> \<not> lt b a"
begin

lemma ascending_merge_runs:
  "ascending lt as \<Longrightarrow> ascending lt bs \<Longrightarrow> ascending lt (merge_runs lt as bs)"
proof -
  have "ascending lt as \<Longrightarrow> ascending lt bs \<Longrightarrow> ascending lt (merge_runs lt as bs) \<and>
      (merge_runs lt as bs \<noteq> [] \<longrightarrow> hd (merge_runs lt as bs) =
        (if as = [] then hd bs else if bs = [] then hd as else if lt (hd bs) (hd as) then hd bs else hd as))"
    by (induction L \<equiv> lt as bs rule: merge_runs.induct)
       (auto simp: successively_Cons dest: asym split: if_splits)
  then show "ascending lt as \<Longrightarrow> ascending lt bs \<Longrightarrow> ascending lt (merge_runs lt as bs)"
    by blast
qed

lemma merge_pass_runs: "runs lt (snd (merge_pass lt xs)) \<le> fst (merge_pass lt xs)"
proof (induction L \<equiv> lt xs rule: merge_pass.induct)
  case (2 a xs)
  show ?case
  proof (cases "run_rest lt a xs")
    case Nil
    then show ?thesis using runs_run_rest [of lt a xs] by simp
  next
    case (Cons b ys)
    let ?m = "merge_runs lt (run_prefix lt a xs) (run_prefix lt b ys)"
    have "runs lt ?m \<le> 1"
      unfolding ascending_iff_runs [symmetric] by (intro ascending_merge_runs ascending_run_prefix)
    moreover have "runs lt (snd (merge_pass lt (run_rest lt b ys))) \<le> fst (merge_pass lt (run_rest lt b ys))"
      by (rule "2.hyps") (simp_all add: Cons)
    ultimately show ?thesis
      using runs_append [of lt ?m "snd (merge_pass lt (run_rest lt b ys))"]
      by (simp add: Cons case_prod_unfold Let_def)
  qed
qed simp

end

locale list_order = list_less +
  assumes neg_trans: "\<not> lt b a \<Longrightarrow> \<not> lt c b \<Longrightarrow> \<not> lt c a"
begin

lemma ascending_sorted: "ascending lt xs \<longleftrightarrow> sorted_wrt (\<lambda>a b. \<not> lt b a) xs"
  by (intro successively_conv_sorted_wrt transpI) (rule neg_trans)

lemma less_all: "lt b a \<Longrightarrow> ascending lt (a # as) \<Longrightarrow> x \<in> set (a # as) \<Longrightarrow> lt b x"
  using neg_trans [of x a b] by (auto simp: ascending_sorted)

end

text \<open>Elements that a comparison function does not tell apart.\<close>

definition same_rank :: "('a \<Rightarrow> 'a \<Rightarrow> bool) \<Rightarrow> 'a \<Rightarrow> 'a \<Rightarrow> bool" where
  "same_rank lt a b \<longleftrightarrow> \<not> lt a b \<and> \<not> lt b a"

context list_order
begin

lemma same_rank_less: "same_rank lt x b \<Longrightarrow> lt b a \<Longrightarrow> \<not> same_rank lt x a"
  using neg_trans [of x a b] by (auto simp: same_rank_def)

lemma merge_runs_stable:
  "ascending lt as \<Longrightarrow> filter (same_rank lt x) (merge_runs lt as bs) =
     filter (same_rank lt x) as @ filter (same_rank lt x) bs"
proof (induction L \<equiv> lt as bs rule: merge_runs.induct)
  case (3 a as b bs)
  show ?case
  proof (cases "lt b a")
    case True
    have "\<forall>y\<in>set (a # as). lt b y" using less_all [OF True "3.prems"] by blast
    then have "same_rank lt x b \<Longrightarrow> filter (same_rank lt x) (a # as) = []"
      unfolding filter_empty_conv using same_rank_less by blast
    with "3.hyps"(1) [OF True "3.prems"] True show ?thesis
      by (cases "same_rank lt x b") (simp_all del: filter.simps add: filter.simps(2) [of _ b])
  next
    case False
    moreover have "ascending lt as" using "3.prems" by (auto simp: successively_Cons)
    ultimately show ?thesis using "3.hyps"(2) by simp
  qed
qed auto

lemma merge_pass_stable: "filter (same_rank lt x) (snd (merge_pass lt xs)) = filter (same_rank lt x) xs"
proof (induction L \<equiv> lt xs rule: merge_pass.induct)
  case (2 a xs)
  show ?case
  proof (cases "run_rest lt a xs")
    case (Cons b ys)
    have "filter (same_rank lt x) (a # xs) = filter (same_rank lt x) (run_prefix lt a xs) @
        filter (same_rank lt x) (run_prefix lt b ys) @ filter (same_rank lt x) (run_rest lt b ys)"
      unfolding run_split [of lt a xs, symmetric] Cons run_split [of lt b ys, symmetric] filter_append ..
    moreover have "ascending lt (run_prefix lt a xs)" by (rule ascending_run_prefix)
    ultimately show ?thesis
      using "2.hyps" [OF Cons] by (simp add: Cons case_prod_unfold Let_def merge_runs_stable del: filter.simps)
  qed simp
qed simp

lemma ascending_insert_ordered:
  assumes "ascending lt xs"
  shows "ascending lt (insert_ordered lt e xs)"
proof -
  let ?S = "sorted_wrt (\<lambda>a b. \<not> lt b a)" and ?P = "\<lambda>x. \<not> lt e x"
  define ts ds where "ts = takeWhile ?P xs" and "ds = dropWhile ?P xs"
  have "xs = ts @ ds" by (simp add: ts_def ds_def)
  with assms have s: "?S ts" "?S ds" "\<forall>x\<in>set ts. \<forall>y\<in>set ds. \<not> lt y x"
    by (simp_all add: ascending_sorted sorted_wrt_append)
  have "\<forall>y \<in> set ds. \<not> lt y e"
  proof (cases ds)
    case (Cons y ys)
    then have "lt e y" using hd_dropWhile [of ?P xs] by (simp add: ds_def)
    then show ?thesis using s(2) unfolding Cons ascending_sorted [symmetric]
      by (intro ballI asym) (rule less_all)
  qed simp
  moreover have "\<forall>y \<in> set ts. \<not> lt e y" unfolding ts_def by (auto dest: set_takeWhileD)
  ultimately show ?thesis
    unfolding insert_ordered_def ts_def [symmetric] ds_def [symmetric] ascending_sorted sorted_wrt_append
    using s by simp
qed

end

definition stable_sort_of :: "('a \<Rightarrow> 'a \<Rightarrow> bool) \<Rightarrow> 'a list \<Rightarrow> 'a list \<Rightarrow> bool" where
  "stable_sort_of lt xs ys \<longleftrightarrow> mset ys = mset xs \<and> sorted_wrt (\<lambda>a b. \<not> lt b a) ys \<and>
     (\<forall>x. filter (same_rank lt x) ys = filter (same_rank lt x) xs)"

lemma list_sort_loop_correct:
  assumes lo: "list_order lt" and l: "is_list h l xs"
  shows "\<exists>h' ys. list_sort_loop lt h l = Some h' \<and> is_list h' l ys \<and> stable_sort_of lt xs ys \<and>
    same_outside (set (nodes l xs)) h h'"
  using l
proof (induction "runs lt xs" arbitrary: xs h rule: less_induct)
  case less
  note asc = list_order.ascending_sorted [OF lo]
  note stable = list_order.merge_pass_stable [OF lo]
  define ys where "ys = snd (merge_pass lt xs)"
  have cnt: "runs lt ys \<le> (runs lt xs + 1) div 2"
    unfolding ys_def merge_pass_count [symmetric]
    by (rule list_less.merge_pass_runs [OF list_order.axioms(1) [OF lo]])
  have set: "set ys = set xs" unfolding ys_def by (metis mset_merge_pass set_mset_mset)
  obtain h1 where
    h1: "list_sort_pass lt h l (pos l xs) 0 = Some ((runs lt xs + 1) div 2, h1)" and
    l1: "is_list h1 l ys" and s1: "same_outside (set (nodes l xs)) h h1"
    using list_sort_pass_correct [of h l "[]" xs lt 0] less.prems
    by (auto simp: ys_def merge_pass_count)
  show ?case
  proof (cases "(runs lt xs + 1) div 2 > 1")
    case True
    with cnt have "runs lt ys < runs lt xs" by linarith
    from less.hyps [OF this l1] obtain h2 zs where
      h2: "list_sort_loop lt h1 l = Some h2" "is_list h2 l zs" "stable_sort_of lt ys zs"
        "same_outside (set (nodes l xs)) h1 h2"
      using set_nodes_cong [OF set] by metis
    moreover have "list_sort_loop lt h l = Some h2"
      using h1 h2(1) True less.prems by (subst list_sort_loop.simps) simp
    moreover have "stable_sort_of lt xs zs"
      using h2(3) unfolding stable_sort_of_def ys_def by (simp add: mset_merge_pass stable)
    ultimately show ?thesis using s1 same_outside_trans by blast
  next
    case False
    then have "list_sort_loop lt h l = Some h1"
      using h1 less.prems by (subst list_sort_loop.simps) simp
    moreover have "ascending lt ys" using cnt False by (simp add: ascending_iff_runs)
    then have "stable_sort_of lt xs ys"
      by (simp add: stable_sort_of_def asc) (simp add: ys_def mset_merge_pass stable)
    ultimately show ?thesis using l1 s1 by blast
  qed
qed

lemma list_sort_correct:
  assumes lo: "list_order lt" and l: "is_list h l xs"
  shows "\<exists>h' ys. list_sort lt h l = Some h' \<and> is_list h' l ys \<and> stable_sort_of lt xs ys \<and>
    same_outside (set (nodes l xs)) h h'"
proof -
  obtain h' ys where h': "list_sort_loop lt h l = Some h'" "is_list h' l ys" "stable_sort_of lt xs ys"
    "same_outside (set (nodes l xs)) h h'"
    using list_sort_loop_correct [OF assms] by blast
  have "ascending lt ys"
    using h'(3) by (simp add: stable_sort_of_def list_order.ascending_sorted [OF lo])
  with h'(2) have "is_sorted lt h' (pos l ys) (tail_of l) = Some True"
    using is_sorted_eq [of h' l "[]" ys "[]" lt] by simp
  with h' show ?thesis using is_list_ptr [OF l] by (auto simp: list_sort_def)
qed

text \<open>
  Every comparison function of the kernel orders by a key: the priority of a thread, the priority of
  the first waiter of a semaphore, the wake-up tick of a sleeper.  For those the sort is
  \<^const>\<open>sort_key\<close>.
\<close>

interpretation key_order: list_order "\<lambda>a b. key a < (key b :: 'b :: linorder)" for key
  by unfold_locales auto

interpretation key_order_desc: list_order "\<lambda>a b. key a > (key b :: 'b :: linorder)" for key
  by unfold_locales auto

lemma stable_sort_of_key:
  fixes key :: "'a \<Rightarrow> 'b :: linorder"
  assumes "stable_sort_of (\<lambda>a b. key a < key b) xs ys"
  shows "ys = sort_key key xs"
proof -
  have "filter (\<lambda>y. key x = key y) ys = filter (\<lambda>y. key x = key y) xs" for x
  proof -
    have "same_rank (\<lambda>a b. key a < key b) x = (\<lambda>y. key x = key y)"
      by (auto simp: same_rank_def fun_eq_iff)
    then show ?thesis using assms unfolding stable_sort_of_def by metis
  qed
  moreover have "sorted (map key ys)"
    using assms by (simp add: stable_sort_of_def sorted_map not_less)
  ultimately show ?thesis
    using assms by (intro properties_for_sort_key [symmetric]) (auto simp: stable_sort_of_def)
qed

lemma insert_ordered_sort_key:
  fixes key :: "'a \<Rightarrow> 'b :: linorder"
  shows "sorted (map key xs) \<Longrightarrow> sorted (map key (insert_ordered (\<lambda>a b. key a < key b) e xs))"
  using key_order.ascending_insert_ordered [of key xs e, unfolded key_order.ascending_sorted]
  by (simp add: sorted_map not_less)

subsection \<open>Extreme elements and duplicates\<close>

fun max_of :: "('a \<Rightarrow> 'a \<Rightarrow> bool) \<Rightarrow> 'a \<Rightarrow> 'a list \<Rightarrow> 'a" where
  "max_of lt m [] = m"
| "max_of lt m (e # es) = max_of lt (if lt m e then e else m) es"

text \<open>The first of the elements that no other element exceeds.\<close>

definition first_max :: "('a \<Rightarrow> 'a \<Rightarrow> bool) \<Rightarrow> 'a list \<Rightarrow> 'a \<Rightarrow> bool" where
  "first_max lt xs m \<longleftrightarrow> (\<exists>ys zs. xs = ys @ m # zs \<and> (\<forall>y \<in> set ys. lt y m) \<and> (\<forall>z \<in> set zs. \<not> lt m z))"

context list_order
begin

lemma max_of_first_max: "first_max lt (xs @ [m]) m' \<Longrightarrow> first_max lt ((xs @ [m]) @ es) (max_of lt m' es)"
proof (induction es arbitrary: xs m m')
  case (Cons e es)
  from Cons.prems obtain ys zs where
    d: "xs @ [m] = ys @ m' # zs" "\<forall>y \<in> set ys. lt y m'" "\<forall>z \<in> set zs. \<not> lt m' z"
    by (auto simp: first_max_def)
  have "first_max lt ((xs @ [m]) @ [e]) (if lt m' e then e else m')"
  proof (cases "lt m' e")
    case True
    have "lt y e" if "y \<in> set (ys @ m' # zs)" for y
    proof -
      have "\<not> lt m' y" using that d(2,3) asym [of m' m'] by (auto dest: asym)
      with neg_trans [of y e m'] True show ?thesis by blast
    qed
    then have "first_max lt ((ys @ m' # zs) @ [e]) e"
      unfolding first_max_def by (intro exI [of _ "ys @ m' # zs"] exI [of _ "[]"]) auto
    then show ?thesis using True d(1) by simp
  next
    case False
    then show ?thesis
      using d unfolding first_max_def by (intro exI [of _ ys] exI [of _ "zs @ [e]"]) auto
  qed
  from Cons.IH [OF this] show ?case by simp
qed simp

end

lemma list_max_loop_eq:
  "is_list h l (xs @ ys) \<Longrightarrow> list_max_loop lt h (tail_of l) m (pos l ys) = Some (max_of lt m ys)"
proof (induction ys arbitrary: xs m)
  case Nil
  then show ?case by (subst list_max_loop.simps) simp
next
  case (Cons y ys)
  then show ?case
    using Cons.IH [of "xs @ [y]"] is_list_not_tail [OF Cons.prems]
    by (subst list_max_loop.simps) (simp add: list_next_eq)
qed

lemma list_min_loop_eq:
  "is_list h l (xs @ ys) \<Longrightarrow>
   list_min_loop lt h (tail_of l) m (pos l ys) = Some (max_of (\<lambda>a b. lt b a) m ys)"
proof (induction ys arbitrary: xs m)
  case Nil
  then show ?case by (subst list_min_loop.simps) simp
next
  case (Cons y ys)
  then show ?case
    using Cons.IH [of "xs @ [y]"] is_list_not_tail [OF Cons.prems]
    by (subst list_min_loop.simps) (simp add: list_next_eq)
qed

lemma list_max_eq:
  assumes "is_list h l xs"
  shows "list_max lt h l = Some (case xs of [] \<Rightarrow> tail_of l | y # ys \<Rightarrow> max_of lt y ys)"
proof (cases xs)
  case (Cons y ys)
  then show ?thesis
    using assms list_max_loop_eq [of h l "[y]" ys] is_list_not_tail [of h l "[]" y ys]
      list_next_eq [of h l "[]" y ys]
    by (simp add: list_max_def)
qed (use assms in \<open>simp add: list_max_def\<close>)

lemma list_min_eq:
  assumes "is_list h l xs"
  shows "list_min lt h l = Some (case xs of [] \<Rightarrow> tail_of l | y # ys \<Rightarrow> max_of (\<lambda>a b. lt b a) y ys)"
proof (cases xs)
  case (Cons y ys)
  then show ?thesis
    using assms list_min_loop_eq [of h l "[y]" ys] is_list_not_tail [of h l "[]" y ys]
      list_next_eq [of h l "[]" y ys]
    by (simp add: list_min_def)
qed (use assms in \<open>simp add: list_min_def\<close>)

lemma list_max_first:
  assumes "list_order lt" "is_list h l xs" "xs \<noteq> []"
  shows "\<exists>m. list_max lt h l = Some m \<and> first_max lt xs m"
proof (cases xs)
  case (Cons y ys)
  have "first_max lt [y] y" unfolding first_max_def by (intro exI [of _ "[]"]) simp
  then show ?thesis
    using list_order.max_of_first_max [OF assms(1), of "[]" y y ys] list_max_eq [OF assms(2)] Cons by simp
qed (use assms in simp)

lemma list_order_converse: "list_order lt \<Longrightarrow> list_order (\<lambda>a b. lt b a)"
  unfolding list_order_def list_less_def list_order_axioms_def by blast

lemma list_min_first:
  assumes "list_order lt" "is_list h l xs" "xs \<noteq> []"
  shows "\<exists>m. list_min lt h l = Some m \<and> first_max (\<lambda>a b. lt b a) xs m"
proof (cases xs)
  case (Cons y ys)
  have "first_max (\<lambda>a b. lt b a) [y] y" unfolding first_max_def by (intro exI [of _ "[]"]) simp
  then show ?thesis
    using list_order.max_of_first_max [OF list_order_converse [OF assms(1)], of "[]" y y ys]
      list_min_eq [OF assms(2)] Cons by simp
qed (use assms in simp)

text \<open>\<open>list_unique\<close>: the elements kept and the elements moved away.\<close>

fun unique_of :: "('a \<Rightarrow> 'a \<Rightarrow> bool) \<Rightarrow> 'a \<Rightarrow> 'a list \<Rightarrow> 'a list \<times> 'a list" where
  "unique_of lt x [] = ([x], [])"
| "unique_of lt x (y # ys) =
     (if same_rank lt x y then let (ks, ds) = unique_of lt x ys in (ks, y # ds)
      else let (ks, ds) = unique_of lt y ys in (x # ks, ds))"

lemma mset_unique_of: "mset (fst (unique_of lt x ys)) + mset (snd (unique_of lt x ys)) = add_mset x (mset ys)"
  by (induction lt x ys rule: unique_of.induct) (auto simp: case_prod_unfold Let_def)

lemma hd_unique_of: "hd (fst (unique_of lt x ys)) = x \<and> fst (unique_of lt x ys) \<noteq> []"
  by (induction lt x ys rule: unique_of.induct) (auto simp: case_prod_unfold Let_def)

lemma unique_of_unique: "successively (\<lambda>a b. \<not> same_rank lt a b) (fst (unique_of lt x ys))"
  by (induction lt x ys rule: unique_of.induct)
     (auto simp: case_prod_unfold Let_def successively_Cons hd_unique_of)

definition dup_list :: "store \<Rightarrow> ptr \<Rightarrow> ptr list \<Rightarrow> bool" where
  "dup_list h d ds \<longleftrightarrow> (if d = NULL then ds = [] else is_list h d ds)"

lemma list_unique_loop_correct:
  "is_list h l (xs @ a # as) \<Longrightarrow> dup_list h d ds \<Longrightarrow>
   (d \<noteq> NULL \<Longrightarrow> set (nodes d ds) \<inter> set (nodes l (xs @ a # as)) = {}) \<Longrightarrow>
   \<exists>h'. list_unique_loop lt h l d a = Some h' \<and> is_list h' l (xs @ fst (unique_of lt a as)) \<and>
     dup_list h' d (if d = NULL then [] else ds @ snd (unique_of lt a as))"
proof (induction lt a as arbitrary: h xs ds rule: unique_of.induct)
  case (1 lt a)
  then show ?case by (subst list_unique_loop.simps) (auto simp: list_next_eq dup_list_def)
next
  case (2 lt a b as)
  note l = "2.prems"(1)
  have l': "is_list h l ((xs @ [a]) @ b # as)" using l by simp
  have nb: "list_next h a = Some b" "b \<noteq> tail_of l"
    using list_next_eq [OF l] is_list_not_tail [OF l'] by simp_all
  show ?case
  proof (cases "same_rank lt a b")
    case False
    from "2.IH"(2) [OF False l' "2.prems"(2)] "2.prems"(3) obtain h' where
      "list_unique_loop lt h l d b = Some h'" "is_list h' l (xs @ a # fst (unique_of lt b as))"
      "dup_list h' d (if d = NULL then [] else ds @ snd (unique_of lt b as))"
      by auto
    moreover have "list_unique_loop lt h l d a = list_unique_loop lt h l d b"
      using False nb l by (subst list_unique_loop.simps) (auto simp: same_rank_def)
    ultimately show ?thesis using False by (cases "d = NULL") (simp_all add: case_prod_unfold Let_def)
  next
    case True
    obtain h1 where h1: "list_remove h b = Some (pos l as, h1)" "is_list h1 l (xs @ a # as)"
      "same_outside (set (nodes l (xs @ a # as))) h h1"
      using list_remove_correct [OF l'] by auto
    have b: "b \<notin> set (nodes l (xs @ a # as))" "b \<noteq> NULL"
      using l' by (auto simp: is_list_def nodes_def)
    have "\<exists>h2. (if d \<noteq> NULL then list_push_back h1 d b else Some h1) = Some h2 \<and>
        is_list h2 l (xs @ a # as) \<and> dup_list h2 d (if d = NULL then [] else ds @ [b])"
    proof (cases "d = NULL")
      case False
      have dis: "set (nodes l (xs @ a # as)) \<inter> set (nodes d ds) = {}" "b \<notin> set (nodes d ds)"
        using "2.prems"(3) False by (auto simp: set_nodes)
      have "is_list h1 d ds"
        using is_list_frame [OF _ h1(3) dis(1)] "2.prems"(2) False by (simp add: dup_list_def)
      from list_push_back_correct [OF this dis(2) b(2)] obtain h2 where
        h2: "list_push_back h1 d b = Some h2" "is_list h2 d (ds @ [b])"
          "same_outside (insert b (set (nodes d ds))) h1 h2"
        by auto
      have "is_list h2 l (xs @ a # as)"
        by (rule is_list_frame [OF h1(2) h2(3)]) (use dis b in auto)
      with h2 False show ?thesis by (simp add: dup_list_def)
    qed (use h1 in \<open>simp add: dup_list_def\<close>)
    then obtain h2 where h2: "(if d \<noteq> NULL then list_push_back h1 d b else Some h1) = Some h2"
      "is_list h2 l (xs @ a # as)" "dup_list h2 d (if d = NULL then [] else ds @ [b])" by blast
    have "d \<noteq> NULL \<Longrightarrow>
        set (nodes d (if d = NULL then [] else ds @ [b])) \<inter> set (nodes l (xs @ a # as)) = {}"
      using "2.prems"(3) b(1) by (auto simp: set_nodes)
    from "2.IH"(1) [OF True h2(2,3) this] obtain h' where
      h': "list_unique_loop lt h2 l d a = Some h'" "is_list h' l (xs @ fst (unique_of lt a as))"
      "dup_list h' d (if d = NULL then [] else (if d = NULL then [] else ds @ [b]) @ snd (unique_of lt a as))"
      by blast
    have "list_unique_loop lt h l d a = list_unique_loop lt h2 l d a"
      using True nb l h1(1) h2(1) by (subst list_unique_loop.simps) (simp add: same_rank_def)
    then show ?thesis using True h' by (cases "d = NULL") (simp_all add: case_prod_unfold Let_def)
  qed
qed

lemma list_unique_correct:
  assumes "is_list h l xs" "dup_list h d ds" "d \<noteq> NULL \<Longrightarrow> set (nodes d ds) \<inter> set (nodes l xs) = {}"
  shows "\<exists>h'. list_unique lt h l d = Some h' \<and>
    is_list h' l (case xs of [] \<Rightarrow> [] | y # ys \<Rightarrow> fst (unique_of lt y ys)) \<and>
    dup_list h' d (case xs of [] \<Rightarrow> ds | y # ys \<Rightarrow> if d = NULL then [] else ds @ snd (unique_of lt y ys))"
proof (cases xs)
  case Nil
  then show ?thesis using assms is_list_ptr [OF assms(1)] by (simp add: list_unique_def)
next
  case (Cons y ys)
  then show ?thesis
    using list_unique_loop_correct [of h l "[]" y ys d ds lt] assms is_list_ptr [OF assms(1)]
    by (simp add: list_unique_def)
qed

subsection \<open>Reversal\<close>

definition swapped :: "list_elem \<Rightarrow> list_elem" where
  "swapped e = \<lparr>prev = next e, next = prev e\<rparr>"

lemma swap_links_eq: "swap_links e h = h(e := swapped (h e))"
  by (cases "h e") (simp add: swap_links_def set_prev_def set_next_def swapped_def Let_def)

lemma list_reverse_loop_eq:
  "is_list h0 l (xs @ ys) \<Longrightarrow> (\<And>p. p \<in> set ys \<Longrightarrow> h p = h0 p) \<Longrightarrow>
   list_reverse_loop h (pos l ys) (tail_of l) =
     Some (\<lambda>p. if p \<in> set ys then swapped (h0 p) else h p)"
proof (induction ys arbitrary: xs h)
  case Nil
  then show ?case by (subst list_reverse_loop.simps) simp
next
  case (Cons y ys)
  have l': "is_list h0 l ((xs @ [y]) @ ys)" using Cons.prems(1) by simp
  have y: "y \<notin> set ys" "y \<noteq> tail_of l"
    using Cons.prems(1) by (auto simp: is_list_def nodes_def)
  have nx: "next (h0 y) = pos l ys"
    by (rule is_list_interior(2) [OF Cons.prems(1)])
  have "list_reverse_loop (swap_links y h) (pos l ys) (tail_of l) =
      Some (\<lambda>p. if p \<in> set ys then swapped (h0 p) else swap_links y h p)"
    by (rule Cons.IH [OF l']) (use Cons.prems(2) y in \<open>auto simp: swap_links_eq\<close>)
  moreover have "prev (swap_links y h y) = pos l ys"
    using Cons.prems(2) nx by (simp add: swap_links_eq swapped_def)
  ultimately show ?case
    using y Cons.prems(2)
    by (subst list_reverse_loop.simps) (auto simp: swap_links_eq fun_eq_iff)
qed

lemma linked_swapped:
  "linked h ps \<Longrightarrow> (\<And>p. p \<in> set ps \<Longrightarrow> h' p = swapped (h p)) \<Longrightarrow> linked h' (rev ps)"
  by (induction h ps rule: linked.induct) (auto simp: linked_append swapped_def)

lemma list_reverse_correct:
  assumes l: "is_list h l xs"
  shows "\<exists>h'. list_reverse h l = Some h' \<and> is_list h' l (rev xs) \<and> same_outside (set (nodes l xs)) h h'"
proof (cases "xs = []")
  case False
  define f e where "f = hd xs" and "e = last xs"
  define h1 where "h1 = (\<lambda>p. if p \<in> set xs then swapped (h p) else h p)"
  define h' where "h' = set_next f (tail_of l) (set_prev e (head_of l)
    (set_prev (tail_of l) f (set_next (head_of l) e h1)))"
  have in_xs: "f \<in> set xs" "e \<in> set xs" using False by (simp_all add: f_def e_def)
  have out: "head_of l \<notin> set xs" "tail_of l \<notin> set xs" "head_of l \<noteq> tail_of l" and d: "distinct xs"
    using l by (auto simp: is_list_def nodes_def)
  have loop: "list_reverse_loop h (pos l xs) (tail_of l) = Some h1"
    unfolding h1_def by (rule list_reverse_loop_eq [of h l "[]"]) (use l in auto)
  have f: "next (h (head_of l)) = f" "prev (h f) = head_of l"
    using is_list_links [of h l "[]" xs] l False by (cases xs; simp add: f_def)+
  have e: "prev (h (tail_of l)) = e" "next (h e) = tail_of l"
    using is_list_links [of h l xs "[]"] l False by (cases xs rule: rev_cases; simp add: e_def)+
  have ne: "f \<noteq> head_of l" "f \<noteq> tail_of l" "e \<noteq> head_of l" "e \<noteq> tail_of l"
    using in_xs out by metis+
  have h1: "next (h1 (head_of l)) = f" "prev (h1 (tail_of l)) = e" "prev (h1 e) = tail_of l"
    "next (h1 f) = head_of l" "prev (h1 (head_of l)) = NULL" "next (h1 (tail_of l)) = NULL"
    using f e in_xs out l by (simp_all add: h1_def swapped_def is_list_def)
  have run: "list_reverse h l = Some h'"
    using l False loop h1 ne out(3) by (simp add: list_reverse_def h'_def Let_def)
  have "linked h xs"
    using l by (simp add: is_list_def nodes_def linked_append)
  then have "linked h1 (rev xs)"
    by (rule linked_swapped) (simp add: h1_def)
  moreover have hl: "hd (rev xs) = e" "last (rev xs) = f"
    using False by (simp_all add: f_def e_def hd_rev last_rev)
  moreover have "e \<notin> set (tl (rev xs))" "f \<notin> set (butlast (rev xs))"
    using d False hl hd_notin_tl [of "rev xs"] last_notin_butlast [of "rev xs"] by simp_all
  ultimately have "linked h' (rev xs)"
    using out by (simp add: h'_def)
  then have "linked h' (nodes l (rev xs))"
    using False hl out(3) ne by (simp add: nodes_def linked_append h'_def)
  moreover have "prev (h' (head_of l)) = NULL" "next (h' (tail_of l)) = NULL"
    using h1 ne out(3) by (simp_all add: h'_def)
  ultimately have "is_list h' l (rev xs)"
    using l by (simp add: is_list_def nodes_def)
  moreover have "same_outside (set (nodes l xs)) h h'"
  proof -
    have "h' p = h p" if "p \<notin> set (nodes l xs)" for p
    proof -
      have "p \<noteq> f" "p \<noteq> e" "p \<noteq> head_of l" "p \<noteq> tail_of l" "p \<notin> set xs"
        using that in_xs by (auto simp: set_nodes)
      then show ?thesis by (simp add: h'_def h1_def set_prev_def set_next_def)
    qed
    then show ?thesis by (simp add: same_outside_def)
  qed
  ultimately show ?thesis using run by blast
qed (use l in \<open>simp add: list_reverse_def\<close>)

section \<open>Properties\<close>

text \<open>
  (C13) \<open>list_sort\<close> with a comparison of keys returns (it does not loop forever and none of its
  assertions fails), the list then is the stable sort of what it held before, and no address outside the
  list has changed.
\<close>

theorem list_sort_stable:
  fixes key :: "ptr \<Rightarrow> int"
  assumes "is_list h l xs"
  shows "\<exists>h'. list_sort (\<lambda>a b. key a < key b) h l = Some h' \<and> is_list h' l (sort_key key xs) \<and>
    same_outside (set (nodes l xs)) h h'"
  using list_sort_correct [OF key_order.list_order_axioms assms, of key] stable_sort_of_key by blast

theorem list_sort_stable_witness:
  "let h = (\<lambda>_. \<lparr>prev = 0, next = 0\<rparr>) (100 := \<lparr>prev = 0, next = 20\<rparr>, 20 := \<lparr>prev = 100, next = 40\<rparr>,
       40 := \<lparr>prev = 20, next = 60\<rparr>, 60 := \<lparr>prev = 40, next = 108\<rparr>, 108 := \<lparr>prev = 60, next = 0\<rparr>)
   in \<exists>h'. list_sort (\<lambda>a b. int (a mod 40) < int (b mod 40)) h 100 = Some h' \<and> is_list h' 100 [40, 20, 60]"
proof -
  let ?h = "(\<lambda>_. \<lparr>prev = 0, next = 0\<rparr>) (100 := \<lparr>prev = 0, next = 20\<rparr>, 20 := \<lparr>prev = 100, next = 40\<rparr>,
       40 := \<lparr>prev = 20, next = 60\<rparr>, 60 := \<lparr>prev = 40, next = 108\<rparr>, 108 := \<lparr>prev = 60, next = 0\<rparr>)"
  have "is_list ?h 100 [20, 40, 60]" by (simp add: is_list_def nodes_def head_of_def tail_of_def)
  from list_sort_stable [OF this, of "\<lambda>a. int (a mod 40)"] show ?thesis by (auto simp: Let_def)
qed

text \<open>
  (C14) \<open>list_insert_ordered\<close> into a list sorted by a key returns, and the list then is sorted, holds
  exactly one element more, and the new element comes after every element with an equal key.
\<close>

theorem list_insert_ordered_sorted:
  fixes key :: "ptr \<Rightarrow> int"
  assumes "is_list h l xs" "e \<notin> set (nodes l xs)" "e \<noteq> NULL" "sorted (map key xs)"
  shows "\<exists>h' as bs. list_insert_ordered (\<lambda>a b. key a < key b) h l e = Some h' \<and>
    is_list h' l (as @ e # bs) \<and> xs = as @ bs \<and> sorted (map key (as @ e # bs)) \<and>
    (\<forall>b \<in> set bs. key e < key b)"
proof -
  let ?P = "\<lambda>x. \<not> key e < key x"
  have s: "sorted (map key (takeWhile ?P xs @ e # dropWhile ?P xs))"
    using insert_ordered_sort_key [OF assms(4)] by (simp add: insert_ordered_def)
  have "\<forall>b \<in> set (dropWhile ?P xs). key e < key b"
  proof (cases "dropWhile ?P xs")
    case (Cons b bs)
    then have "key e < key b" using hd_dropWhile [of ?P xs] by simp
    with s show ?thesis unfolding Cons by (auto simp: sorted_append)
  next
    case Nil
    show ?thesis unfolding Nil by simp
  qed
  with s list_insert_ordered_correct [OF assms(1-3), of "\<lambda>a b. key a < key b"] show ?thesis
    unfolding insert_ordered_def by (metis takeWhile_dropWhile_id)
qed

theorem list_insert_ordered_sorted_witness:
  "let h = (\<lambda>_. \<lparr>prev = 0, next = 0\<rparr>) (100 := \<lparr>prev = 0, next = 20\<rparr>, 20 := \<lparr>prev = 100, next = 40\<rparr>,
       40 := \<lparr>prev = 20, next = 108\<rparr>, 108 := \<lparr>prev = 40, next = 0\<rparr>)
   in \<exists>h' as bs. list_insert_ordered (\<lambda>a b. int (a mod 50) < int (b mod 50)) h 100 70 = Some h' \<and>
     is_list h' 100 (as @ 70 # bs) \<and> [20, 40] = as @ bs"
proof -
  let ?h = "(\<lambda>_. \<lparr>prev = 0, next = 0\<rparr>) (100 := \<lparr>prev = 0, next = 20\<rparr>, 20 := \<lparr>prev = 100, next = 40\<rparr>,
       40 := \<lparr>prev = 20, next = 108\<rparr>, 108 := \<lparr>prev = 40, next = 0\<rparr>)"
  have "is_list ?h 100 [20, 40]" by (simp add: is_list_def nodes_def head_of_def tail_of_def)
  from list_insert_ordered_sorted [OF this, of 70 "\<lambda>a. int (a mod 50)"] show ?thesis
    by (auto simp: Let_def nodes_def head_of_def tail_of_def)
qed

lemma unique_filter_head:
  "key x = key y \<Longrightarrow> map snd (filter (\<lambda>(a, b). P (key a) (key b)) (zip (x # zs) zs)) = map snd (filter (\<lambda>(a, b). P (key a) (key b)) (zip (y # zs) zs))"
  by (cases zs) auto

lemma unique_of_key:
  fixes key :: "'a \<Rightarrow> 'k :: linorder"
  shows "unique_of (\<lambda>a b. key a < key b) x ys =
    (x # map snd (filter (\<lambda>(a, b). key a \<noteq> key b) (zip (x # ys) ys)), map snd (filter (\<lambda>(a, b). key a = key b) (zip (x # ys) ys)))"
proof (induction ys arbitrary: x)
  case (Cons y ys)
  have r: "same_rank (\<lambda>a b. key a < key b) x y \<longleftrightarrow> key x = key y" by (auto simp: same_rank_def)
  show ?case
    using Cons.IH unique_filter_head [of key x y "(\<noteq>)" ys] unique_filter_head [of key x y "(=)" ys] by (simp add: r Let_def)
qed simp
text \<open>
  (C15) \<open>list_unique\<close> on a list and a separate list \<open>duplicates\<close> returns; adjacent elements of what remains
  are told apart by the comparison, and together the two lists hold exactly the elements they held before.  When the
  comparison is that of a key, exactly the elements with the key of their predecessor have moved to the end of
  \<open>duplicates\<close>, and both what stays and what moves are in the old order.
\<close>

theorem list_unique_partitions:
  fixes key :: "ptr \<Rightarrow> int"
  assumes "is_list h l (x # xs)" "is_list h d ds" "set (nodes d ds) \<inter> set (nodes l (x # xs)) = {}"
  shows "\<exists>h' ks ms. list_unique lt h l d = Some h' \<and> is_list h' l (x # ks) \<and> is_list h' d (ds @ ms) \<and>
    successively (\<lambda>a b. lt a b \<or> lt b a) (x # ks) \<and> mset ks + mset ms = mset xs \<and>
    (lt = (\<lambda>a b. key a < key b) \<longrightarrow>
       ks = map snd (filter (\<lambda>(a, b). key a \<noteq> key b) (zip (x # xs) xs)) \<and>
       ms = map snd (filter (\<lambda>(a, b). key a = key b) (zip (x # xs) xs)))"
proof -
  obtain ks where ks: "fst (unique_of lt x xs) = x # ks" using hd_unique_of by (metis list.collapse)
  have "d \<noteq> NULL" using is_list_ptr [OF assms(2)] by simp
  moreover have "successively (\<lambda>a b. lt a b \<or> lt b a) (x # ks)"
    using unique_of_unique [of lt x xs] unfolding ks same_rank_def by (simp add: disj_commute)
  moreover have "mset ks + mset (snd (unique_of lt x xs)) = mset xs"
    using mset_unique_of [of lt x xs] by (simp add: ks)
  moreover have "ks = map snd (filter (\<lambda>(a, b). key a \<noteq> key b) (zip (x # xs) xs)) \<and>
      snd (unique_of lt x xs) = map snd (filter (\<lambda>(a, b). key a = key b) (zip (x # xs) xs))" if "lt = (\<lambda>a b. key a < key b)"
    using ks unfolding that unique_of_key by simp
  ultimately show ?thesis
    using list_unique_correct [OF assms(1), of d ds lt] assms(2,3) ks by (fastforce simp: dup_list_def)
qed

theorem list_unique_partitions_witness:
  "let h = (\<lambda>_. \<lparr>prev = 0, next = 0\<rparr>) (100 := \<lparr>prev = 0, next = 20\<rparr>, 20 := \<lparr>prev = 100, next = 40\<rparr>,
       40 := \<lparr>prev = 20, next = 108\<rparr>, 108 := \<lparr>prev = 40, next = 0\<rparr>,
       200 := \<lparr>prev = 0, next = 208\<rparr>, 208 := \<lparr>prev = 200, next = 0\<rparr>)
   in \<exists>h'. list_unique (\<lambda>a b. int (a mod 20) < int (b mod 20)) h 100 200 = Some h' \<and> is_list h' 100 [20] \<and> is_list h' 200 [40]"
proof -
  let ?h = "(\<lambda>_. \<lparr>prev = 0, next = 0\<rparr>) (100 := \<lparr>prev = 0, next = 20\<rparr>, 20 := \<lparr>prev = 100, next = 40\<rparr>,
       40 := \<lparr>prev = 20, next = 108\<rparr>, 108 := \<lparr>prev = 40, next = 0\<rparr>,
       200 := \<lparr>prev = 0, next = 208\<rparr>, 208 := \<lparr>prev = 200, next = 0\<rparr>)"
  have "is_list ?h 100 [20, 40]" "is_list ?h 200 []"
    by (simp_all add: is_list_def nodes_def head_of_def tail_of_def)
  from list_unique_partitions [OF this, of "\<lambda>a b. int (a mod 20) < int (b mod 20)" "\<lambda>a. int (a mod 20)"] show ?thesis
    by (auto simp: Let_def nodes_def head_of_def tail_of_def)
qed
end
