(* ===== verification/Bitmap.thy ===== *)
theory Bitmap
  imports Pintos_Prelude
begin

text \<open>
  The bitmaps of \<open>src/pintos/src/lib/kernel/bitmap.c\<close>: an array of 32-bit elements (\<open>elem_type\<close> is
  \<open>unsigned long\<close>, 32 bits wide on the target) that represents \<open>bit_cnt\<close> bits.  Reading or writing an
  element outside the array is undefined in C and is \<^term>\<open>None\<close> here, as is a failed assertion.

  The abstraction of a bitmap is the list of its bits; every operation is shown to be the obvious one on
  that list, and \<open>bitmap_scan_and_flip\<close>, which the page allocator, the free map and the swap table
  use to allocate, is shown to find the first free group and to flip exactly it.
\<close>

unbundle bit_operations_syntax

section \<open>The data structure\<close>

abbreviation (input) ELEM_BITS :: nat where
  "ELEM_BITS \<equiv> 32"

abbreviation (input) BITMAP_ERROR :: nat where
  "BITMAP_ERROR \<equiv> SIZE_MAX"

record bitmap =
  bit_cnt :: nat
  bits :: "u32 list"

definition elem_idx :: "nat \<Rightarrow> nat" where
  "elem_idx bit_idx = bit_idx div ELEM_BITS"

definition bit_mask :: "nat \<Rightarrow> u32" where
  "bit_mask bit_idx = push_bit (bit_idx mod ELEM_BITS) 1"

definition elem_cnt :: "nat \<Rightarrow> nat" where
  "elem_cnt n = size_add n (ELEM_BITS - 1) div ELEM_BITS"

definition byte_cnt :: "nat \<Rightarrow> nat" where
  "byte_cnt n = 4 * elem_cnt n"

definition last_mask :: "bitmap \<Rightarrow> u32" where
  "last_mask b =
     (let last_bits = bit_cnt b mod ELEM_BITS
      in if last_bits \<noteq> 0 then push_bit last_bits 1 - 1 else - 1)"

definition bitmap_buf_size :: "nat \<Rightarrow> nat" where
  "bitmap_buf_size n = 8 + byte_cnt n"

definition bitmap_size :: "bitmap \<Rightarrow> nat" where
  "bitmap_size b = bit_cnt b"

section \<open>Operations\<close>

text \<open>An element of the array is read and written by one instruction.\<close>

definition modify_elem :: "bitmap \<Rightarrow> nat \<Rightarrow> (u32 \<Rightarrow> u32) \<Rightarrow> bitmap option" where
  "modify_elem b idx f = do {
     ASSERT (idx < length (bits b));
     Some (b\<lparr>bits := (bits b)[idx := f (bits b ! idx)]\<rparr>)
   }"

definition bitmap_mark :: "bitmap \<Rightarrow> nat \<Rightarrow> bitmap option" where
  "bitmap_mark b bit_idx = modify_elem b (elem_idx bit_idx) (\<lambda>e. e OR bit_mask bit_idx)"

definition bitmap_reset :: "bitmap \<Rightarrow> nat \<Rightarrow> bitmap option" where
  "bitmap_reset b bit_idx = modify_elem b (elem_idx bit_idx) (\<lambda>e. e AND NOT (bit_mask bit_idx))"

definition bitmap_flip :: "bitmap \<Rightarrow> nat \<Rightarrow> bitmap option" where
  "bitmap_flip b bit_idx = modify_elem b (elem_idx bit_idx) (\<lambda>e. e XOR bit_mask bit_idx)"

definition bitmap_set :: "bitmap \<Rightarrow> nat \<Rightarrow> bool \<Rightarrow> bitmap option" where
  "bitmap_set b idx val = do {
     ASSERT (idx < bit_cnt b);
     if val then bitmap_mark b idx else bitmap_reset b idx
   }"

definition bitmap_test :: "bitmap \<Rightarrow> nat \<Rightarrow> bool option" where
  "bitmap_test b idx = do {
     ASSERT (idx < bit_cnt b);
     ASSERT (elem_idx idx < length (bits b));
     Some (bits b ! elem_idx idx AND bit_mask idx \<noteq> 0)
   }"

text \<open>
  The loops over \<open>start + i\<close> for \<open>i < cnt\<close>: the second argument is the sum, which wraps, the third the
  number of iterations left.
\<close>

fun bitmap_set_multiple_loop :: "bitmap \<Rightarrow> nat \<Rightarrow> nat \<Rightarrow> bool \<Rightarrow> bitmap option" where
  "bitmap_set_multiple_loop b k 0 val = Some b"
| "bitmap_set_multiple_loop b k (Suc n) val = do {
     b \<leftarrow> bitmap_set b k val;
     bitmap_set_multiple_loop b (size_add k 1) n val
   }"

definition bitmap_set_multiple :: "bitmap \<Rightarrow> nat \<Rightarrow> nat \<Rightarrow> bool \<Rightarrow> bitmap option" where
  "bitmap_set_multiple b start cnt val = do {
     ASSERT (start \<le> bit_cnt b);
     ASSERT (size_add start cnt \<le> bit_cnt b);
     bitmap_set_multiple_loop b start cnt val
   }"

definition bitmap_set_all :: "bitmap \<Rightarrow> bool \<Rightarrow> bitmap option" where
  "bitmap_set_all b val = bitmap_set_multiple b 0 (bitmap_size b) val"

fun bitmap_count_loop :: "bitmap \<Rightarrow> nat \<Rightarrow> nat \<Rightarrow> bool \<Rightarrow> nat \<Rightarrow> nat option" where
  "bitmap_count_loop b k 0 val value_cnt = Some value_cnt"
| "bitmap_count_loop b k (Suc n) val value_cnt = do {
     t \<leftarrow> bitmap_test b k;
     bitmap_count_loop b (size_add k 1) n val (if t = val then value_cnt + 1 else value_cnt)
   }"

definition bitmap_count :: "bitmap \<Rightarrow> nat \<Rightarrow> nat \<Rightarrow> bool \<Rightarrow> nat option" where
  "bitmap_count b start cnt val = do {
     ASSERT (start \<le> bit_cnt b);
     ASSERT (size_add start cnt \<le> bit_cnt b);
     bitmap_count_loop b start cnt val 0
   }"

fun bitmap_contains_loop :: "bitmap \<Rightarrow> nat \<Rightarrow> nat \<Rightarrow> bool \<Rightarrow> bool option" where
  "bitmap_contains_loop b k 0 val = Some False"
| "bitmap_contains_loop b k (Suc n) val = do {
     t \<leftarrow> bitmap_test b k;
     if t = val then Some True else bitmap_contains_loop b (size_add k 1) n val
   }"

definition bitmap_contains :: "bitmap \<Rightarrow> nat \<Rightarrow> nat \<Rightarrow> bool \<Rightarrow> bool option" where
  "bitmap_contains b start cnt val = do {
     ASSERT (start \<le> bit_cnt b);
     ASSERT (size_add start cnt \<le> bit_cnt b);
     bitmap_contains_loop b start cnt val
   }"

definition bitmap_any :: "bitmap \<Rightarrow> nat \<Rightarrow> nat \<Rightarrow> bool option" where
  "bitmap_any b start cnt = bitmap_contains b start cnt True"

definition bitmap_none :: "bitmap \<Rightarrow> nat \<Rightarrow> nat \<Rightarrow> bool option" where
  "bitmap_none b start cnt = map_option Not (bitmap_contains b start cnt True)"

definition bitmap_all :: "bitmap \<Rightarrow> nat \<Rightarrow> nat \<Rightarrow> bool option" where
  "bitmap_all b start cnt = map_option Not (bitmap_contains b start cnt False)"

text \<open>The loop of \<open>bitmap_scan\<close>; \<open>i\<close> is an unsigned counter that goes up to \<open>stop\<close>.\<close>

function bitmap_scan_loop :: "bitmap \<Rightarrow> nat \<Rightarrow> nat \<Rightarrow> nat \<Rightarrow> bool \<Rightarrow> nat option" where
  "bitmap_scan_loop b i stop cnt val =
     (if i \<le> stop then do {
        c \<leftarrow> bitmap_contains b i cnt (\<not> val);
        if \<not> c then Some i else bitmap_scan_loop b (i + 1) stop cnt val
      }
      else Some BITMAP_ERROR)"
  by pat_completeness auto
termination
  by (relation "measure (\<lambda>(b, i, stop, cnt, val). stop + 1 - i)") auto

declare bitmap_scan_loop.simps [simp del]

definition bitmap_scan :: "bitmap \<Rightarrow> nat \<Rightarrow> nat \<Rightarrow> bool \<Rightarrow> nat option" where
  "bitmap_scan b start cnt val = do {
     ASSERT (start \<le> bit_cnt b);
     if cnt \<le> bit_cnt b then bitmap_scan_loop b start (bit_cnt b - cnt) cnt val
     else Some BITMAP_ERROR
   }"

definition bitmap_scan_and_flip :: "bitmap \<Rightarrow> nat \<Rightarrow> nat \<Rightarrow> bool \<Rightarrow> (nat \<times> bitmap) option" where
  "bitmap_scan_and_flip b start cnt val = do {
     idx \<leftarrow> bitmap_scan b start cnt val;
     if idx \<noteq> BITMAP_ERROR then do {
       b \<leftarrow> bitmap_set_multiple b idx cnt (\<not> val);
       Some (idx, b)
     }
     else Some (idx, b)
   }"

text \<open>
  \<open>bitmap_create_in_buf\<close> finds the elements behind the header in the caller's block; \<open>mem\<close> is what the
  block holds there.  \<open>bitmap_create\<close> obtains the block from \<open>malloc\<close>, whose answer for the elements is
  \<open>blk\<close>: \<^term>\<open>None\<close> for a null pointer and otherwise the uninitialised elements.
\<close>

definition bitmap_create_in_buf :: "nat \<Rightarrow> u32 list \<Rightarrow> nat \<Rightarrow> bitmap option" where
  "bitmap_create_in_buf n mem block_size = do {
     ASSERT (block_size \<ge> bitmap_buf_size n);
     bitmap_set_all \<lparr>bit_cnt = n, bits = take ((block_size - 8) div 4) mem\<rparr> False
   }"

definition bitmap_create :: "nat \<Rightarrow> bool \<Rightarrow> u32 list option \<Rightarrow> bitmap option option" where
  "bitmap_create n header_allocated blk =
     (if header_allocated then
        case blk of
          Some mem \<Rightarrow> map_option Some (bitmap_set_all \<lparr>bit_cnt = n, bits = mem\<rparr> False)
        | None \<Rightarrow> if n = 0 then map_option Some (bitmap_set_all \<lparr>bit_cnt = n, bits = []\<rparr> False) else Some None
      else Some None)"

section \<open>A bitmap as a list of bits\<close>

definition bitmap_bits :: "bitmap \<Rightarrow> bool list" where
  "bitmap_bits b = map (\<lambda>i. bit (bits b ! (i div ELEM_BITS)) (i mod ELEM_BITS)) [0..<bit_cnt b]"

definition wf_bitmap :: "bitmap \<Rightarrow> bool" where
  "wf_bitmap b \<longleftrightarrow> bit_cnt b + ELEM_BITS \<le> 2 ^ 32 \<and> elem_cnt (bit_cnt b) \<le> length (bits b)"

lemma length_bitmap_bits [simp]: "length (bitmap_bits b) = bit_cnt b"
  by (simp add: bitmap_bits_def)

lemma nth_bitmap_bits:
  "i < bit_cnt b \<Longrightarrow> bitmap_bits b ! i \<longleftrightarrow> bit (bits b ! elem_idx i) (i mod ELEM_BITS)"
  by (simp add: bitmap_bits_def elem_idx_def)

lemma elem_cnt_eq: "n + ELEM_BITS \<le> 2 ^ 32 \<Longrightarrow> elem_cnt n = (n + 31) div ELEM_BITS"
  by (simp add: elem_cnt_def size_add_def)

lemma wf_bitmap_idx: "wf_bitmap b \<Longrightarrow> i < bit_cnt b \<Longrightarrow> elem_idx i < length (bits b)"
  using elem_cnt_eq [of "bit_cnt b"] by (auto simp: wf_bitmap_def elem_idx_def)

lemma wf_bitmap_less: "wf_bitmap b \<Longrightarrow> bit_cnt b < SIZE_MAX"
  by (simp add: wf_bitmap_def)

lemma bit_bit_mask: "bit (bit_mask i) k \<longleftrightarrow> k = i mod ELEM_BITS"
  by (auto simp: bit_mask_def bit_exp_iff)

lemma and_bit_mask: "e AND bit_mask i = 0 \<longleftrightarrow> \<not> bit e (i mod ELEM_BITS)"
  by (simp add: bit_mask_def and_exp_eq_0_iff_not_bit)

lemma same_bit: "i div ELEM_BITS = k div ELEM_BITS \<Longrightarrow> i mod ELEM_BITS = k mod ELEM_BITS \<Longrightarrow> i = (k :: nat)"
  by (metis div_mod_decomp)

lemma bitmap_bits_modify:
  assumes wf: "wf_bitmap b" and i: "i < bit_cnt b"
    and f: "\<And>e k. k < ELEM_BITS \<Longrightarrow> bit (f e) k = (if k = i mod ELEM_BITS then g (bit e k) else bit e k)"
  shows "\<exists>b'. modify_elem b (elem_idx i) f = Some b' \<and> wf_bitmap b' \<and> bit_cnt b' = bit_cnt b \<and>
    bitmap_bits b' = (bitmap_bits b)[i := g (bitmap_bits b ! i)]"
proof -
  let ?b = "b\<lparr>bits := (bits b)[elem_idx i := f (bits b ! elem_idx i)]\<rparr>"
  have "bitmap_bits ?b ! k = (bitmap_bits b)[i := g (bitmap_bits b ! i)] ! k" if k: "k < bit_cnt b" for k
    using k i wf_bitmap_idx [OF wf i] wf_bitmap_idx [OF wf k] same_bit [of i k]
    by (auto simp: nth_bitmap_bits nth_list_update f elem_idx_def)
  then have "bitmap_bits ?b = (bitmap_bits b)[i := g (bitmap_bits b ! i)]"
    by (intro nth_equalityI) simp_all
  moreover have "wf_bitmap ?b" using wf by (simp add: wf_bitmap_def)
  ultimately show ?thesis using wf_bitmap_idx [OF wf i] by (simp add: modify_elem_def)
qed

lemma bitmap_mark_bits:
  assumes "wf_bitmap b" "i < bit_cnt b"
  shows "\<exists>b'. bitmap_mark b i = Some b' \<and> wf_bitmap b' \<and> bit_cnt b' = bit_cnt b \<and>
    bitmap_bits b' = (bitmap_bits b)[i := True]"
  unfolding bitmap_mark_def
  using bitmap_bits_modify [OF assms, of "\<lambda>e. e OR bit_mask i" "\<lambda>_. True"]
  by (simp add: bit_or_iff bit_bit_mask)

lemma bitmap_reset_bits:
  assumes "wf_bitmap b" "i < bit_cnt b"
  shows "\<exists>b'. bitmap_reset b i = Some b' \<and> wf_bitmap b' \<and> bit_cnt b' = bit_cnt b \<and>
    bitmap_bits b' = (bitmap_bits b)[i := False]"
  unfolding bitmap_reset_def
  using bitmap_bits_modify [OF assms, of "\<lambda>e. e AND NOT (bit_mask i)" "\<lambda>_. False"]
  by (simp add: bit_and_iff bit_not_iff bit_bit_mask)

lemma bitmap_flip_bits:
  assumes "wf_bitmap b" "i < bit_cnt b"
  shows "\<exists>b'. bitmap_flip b i = Some b' \<and> wf_bitmap b' \<and> bit_cnt b' = bit_cnt b \<and>
    bitmap_bits b' = (bitmap_bits b)[i := \<not> bitmap_bits b ! i]"
  unfolding bitmap_flip_def
  using bitmap_bits_modify [OF assms, of "\<lambda>e. e XOR bit_mask i" Not]
  by (simp add: bit_xor_iff bit_bit_mask)

lemma bitmap_set_bits:
  assumes "wf_bitmap b" "i < bit_cnt b"
  shows "\<exists>b'. bitmap_set b i v = Some b' \<and> wf_bitmap b' \<and> bit_cnt b' = bit_cnt b \<and>
    bitmap_bits b' = (bitmap_bits b)[i := v]"
  using bitmap_mark_bits [OF assms] bitmap_reset_bits [OF assms] assms(2)
  by (cases v) (simp_all add: bitmap_set_def)

lemma bitmap_test_bits: "wf_bitmap b \<Longrightarrow> i < bit_cnt b \<Longrightarrow> bitmap_test b i = Some (bitmap_bits b ! i)"
  by (simp add: bitmap_test_def wf_bitmap_idx and_bit_mask nth_bitmap_bits)

section \<open>Groups of bits\<close>

definition set_range :: "bool list \<Rightarrow> nat \<Rightarrow> nat \<Rightarrow> bool \<Rightarrow> bool list" where
  "set_range xs start cnt v = take start xs @ replicate cnt v @ drop (start + cnt) xs"

definition segment :: "'a list \<Rightarrow> nat \<Rightarrow> nat \<Rightarrow> 'a list" where
  "segment xs start cnt = take cnt (drop start xs)"

lemma length_set_range [simp]: "start + cnt \<le> length xs \<Longrightarrow> length (set_range xs start cnt v) = length xs"
  by (simp add: set_range_def)

lemma nth_set_range:
  "start + cnt \<le> length xs \<Longrightarrow> i < length xs \<Longrightarrow>
   set_range xs start cnt v ! i = (if start \<le> i \<and> i < start + cnt then v else xs ! i)"
  by (auto simp: set_range_def nth_append min_def)

lemma set_range_Suc:
  "k + Suc n \<le> length xs \<Longrightarrow> set_range (xs[k := v]) (Suc k) n v = set_range xs k (Suc n) v"
  by (intro nth_equalityI) (auto simp: nth_set_range nth_list_update)

lemma set_range_0 [simp]: "set_range xs k 0 v = xs"
  by (simp add: set_range_def)

lemma segment_Suc: "k < length xs \<Longrightarrow> segment xs k (Suc n) = xs ! k # segment xs (Suc k) n"
  by (simp add: segment_def Cons_nth_drop_Suc [symmetric])

lemma segment_0 [simp]: "segment xs k 0 = []"
  by (simp add: segment_def)

lemma bitmap_set_multiple_loop_bits:
  "wf_bitmap b \<Longrightarrow> k + n \<le> bit_cnt b \<Longrightarrow>
   \<exists>b'. bitmap_set_multiple_loop b k n v = Some b' \<and> wf_bitmap b' \<and> bit_cnt b' = bit_cnt b \<and>
     bitmap_bits b' = set_range (bitmap_bits b) k n v"
proof (induction n arbitrary: b k)
  case (Suc n)
  obtain b1 where b1: "bitmap_set b k v = Some b1" "wf_bitmap b1" "bit_cnt b1 = bit_cnt b"
    "bitmap_bits b1 = (bitmap_bits b)[k := v]"
    using bitmap_set_bits [of b k v] Suc.prems by auto
  have "size_add k 1 = Suc k" using Suc.prems wf_bitmap_less [of b] by simp
  then show ?case
    using Suc.IH [OF b1(2), of "Suc k"] Suc.prems b1 by (auto simp: set_range_Suc)
qed simp

lemma wf_size_add: "wf_bitmap b \<Longrightarrow> start + cnt \<le> bit_cnt b \<Longrightarrow> size_add start cnt = start + cnt"
  using wf_bitmap_less [of b] by simp

lemma bitmap_set_multiple_bits:
  assumes "wf_bitmap b" "start + cnt \<le> bit_cnt b"
  shows "\<exists>b'. bitmap_set_multiple b start cnt v = Some b' \<and> wf_bitmap b' \<and> bit_cnt b' = bit_cnt b \<and>
    bitmap_bits b' = set_range (bitmap_bits b) start cnt v"
  using bitmap_set_multiple_loop_bits [OF assms] assms wf_size_add [OF assms]
  by (simp add: bitmap_set_multiple_def)

lemma bitmap_set_all_bits:
  assumes "wf_bitmap b"
  shows "\<exists>b'. bitmap_set_all b v = Some b' \<and> wf_bitmap b' \<and> bit_cnt b' = bit_cnt b \<and>
    bitmap_bits b' = replicate (bit_cnt b) v"
  using bitmap_set_multiple_bits [OF assms, of 0 "bit_cnt b" v]
  by (simp add: bitmap_set_all_def bitmap_size_def set_range_def)

lemma bitmap_count_loop_bits:
  "wf_bitmap b \<Longrightarrow> k + n \<le> bit_cnt b \<Longrightarrow>
   bitmap_count_loop b k n v c = Some (c + count_list (segment (bitmap_bits b) k n) v)"
proof (induction n arbitrary: k c)
  case (Suc n)
  have "size_add k 1 = Suc k" using Suc.prems wf_bitmap_less [of b] by simp
  then show ?case using Suc by (auto simp: bitmap_test_bits segment_Suc)
qed simp

lemma bitmap_count_bits:
  assumes "wf_bitmap b" "start + cnt \<le> bit_cnt b"
  shows "bitmap_count b start cnt v = Some (count_list (segment (bitmap_bits b) start cnt) v)"
  using bitmap_count_loop_bits [OF assms] assms wf_size_add [OF assms] by (simp add: bitmap_count_def)

lemma bitmap_contains_loop_bits:
  "wf_bitmap b \<Longrightarrow> k + n \<le> bit_cnt b \<Longrightarrow>
   bitmap_contains_loop b k n v = Some (v \<in> set (segment (bitmap_bits b) k n))"
proof (induction n arbitrary: k)
  case (Suc n)
  have "size_add k 1 = Suc k" using Suc.prems wf_bitmap_less [of b] by simp
  then show ?case using Suc by (auto simp: bitmap_test_bits segment_Suc)
qed simp

lemma bitmap_contains_bits:
  assumes "wf_bitmap b" "start + cnt \<le> bit_cnt b"
  shows "bitmap_contains b start cnt v = Some (v \<in> set (segment (bitmap_bits b) start cnt))"
  using bitmap_contains_loop_bits [OF assms] assms wf_size_add [OF assms]
  by (simp add: bitmap_contains_def)

section \<open>Searching\<close>

text \<open>The first index at or after \<open>start\<close> of \<open>cnt\<close> consecutive bits with the value \<open>v\<close>.\<close>

definition is_group :: "bool list \<Rightarrow> nat \<Rightarrow> bool \<Rightarrow> nat \<Rightarrow> bool" where
  "is_group xs cnt v i \<longleftrightarrow> i + cnt \<le> length xs \<and> (\<forall>k. i \<le> k \<and> k < i + cnt \<longrightarrow> xs ! k = v)"

definition first_group :: "bool list \<Rightarrow> nat \<Rightarrow> nat \<Rightarrow> bool \<Rightarrow> nat option" where
  "first_group xs start cnt v =
     (if cnt \<le> length xs then find (\<lambda>i. (\<not> v) \<notin> set (segment xs i cnt)) [start..<length xs - cnt + 1] else None)"

lemma segment_group:
  assumes "i + cnt \<le> length xs"
  shows "(\<not> v) \<notin> set (segment xs i cnt) \<longleftrightarrow> is_group xs cnt v i"
proof -
  have "(\<not> v) \<notin> set (segment xs i cnt) \<longleftrightarrow> (\<forall>k<cnt. xs ! (i + k) = v)"
    using assms by (auto simp: segment_def in_set_conv_nth)
  also have "\<dots> \<longleftrightarrow> (\<forall>k. i \<le> k \<and> k < i + cnt \<longrightarrow> xs ! k = v)"
    by (metis le_Suc_ex le_add1 nat_add_left_cancel_less)
  finally show ?thesis using assms by (simp add: is_group_def)
qed

lemma find_upt_Some:
  "find P [m..<n] = Some i \<longleftrightarrow> m \<le> i \<and> i < n \<and> P i \<and> (\<forall>j. m \<le> j \<longrightarrow> j < i \<longrightarrow> \<not> P j)"
proof (induction "n - m" arbitrary: m)
  case (Suc k)
  then have u: "[m..<n] = m # [Suc m..<n]" "k = n - Suc m" by (simp_all add: upt_conv_Cons)
  show ?case
  proof (cases "P m")
    case True
    then have "(m \<le> i \<and> i < n \<and> P i \<and> (\<forall>j. m \<le> j \<longrightarrow> j < i \<longrightarrow> \<not> P j)) \<longleftrightarrow> i = m"
      using Suc.hyps(2) by (auto simp: le_less)
    with True show ?thesis by (auto simp: u(1))
  next
    case False
    then have "(m \<le> i \<and> i < n \<and> P i \<and> (\<forall>j. m \<le> j \<longrightarrow> j < i \<longrightarrow> \<not> P j)) \<longleftrightarrow>
        (Suc m \<le> i \<and> i < n \<and> P i \<and> (\<forall>j. Suc m \<le> j \<longrightarrow> j < i \<longrightarrow> \<not> P j))"
      unfolding Suc_le_eq by (auto simp: le_less)
    with False Suc.hyps(1) [OF u(2)] show ?thesis by (simp add: u(1))
  qed
qed auto

lemma first_group_Some:
  assumes "first_group xs start cnt v = Some i"
  shows "start \<le> i \<and> is_group xs cnt v i \<and> (\<forall>j. start \<le> j \<longrightarrow> j < i \<longrightarrow> \<not> is_group xs cnt v j)"
proof -
  from assms have le: "cnt \<le> length xs" by (auto simp: first_group_def split: if_splits)
  with assms have i: "start \<le> i" "i < length xs - cnt + 1" "(\<not> v) \<notin> set (segment xs i cnt)"
    and j: "\<And>j. start \<le> j \<Longrightarrow> j < i \<Longrightarrow> (\<not> v) \<in> set (segment xs j cnt)"
    unfolding first_group_def find_upt_Some by (simp_all add: find_upt_Some del: upt_Suc)
  have "is_group xs cnt v i" using i le segment_group [of i cnt xs v] by simp
  moreover have "\<not> is_group xs cnt v j" if "start \<le> j" "j < i" for j
    using j [OF that] that i le segment_group [of j cnt xs v] by simp
  ultimately show ?thesis using i by blast
qed

lemma first_group_None:
  assumes "first_group xs start cnt v = None"
  shows "\<not> (\<exists>i\<ge>start. is_group xs cnt v i)"
proof
  assume "\<exists>i\<ge>start. is_group xs cnt v i"
  then obtain i where i: "start \<le> i" "is_group xs cnt v i" by blast
  then have "i + cnt \<le> length xs" by (simp add: is_group_def)
  with assms i have "(\<not> v) \<in> set (segment xs i cnt)"
    by (auto simp: first_group_def find_None_iff split: if_splits)
  with segment_group [OF \<open>i + cnt \<le> length xs\<close>, of v] i show False by simp
qed

lemma bitmap_scan_loop_bits:
  assumes wf: "wf_bitmap b" and cnt: "cnt \<le> bit_cnt b"
  shows "bitmap_scan_loop b i (bit_cnt b - cnt) cnt v =
    Some (case find (\<lambda>i. (\<not> v) \<notin> set (segment (bitmap_bits b) i cnt)) [i..<bit_cnt b - cnt + 1] of
      None \<Rightarrow> BITMAP_ERROR | Some j \<Rightarrow> j)"
proof (induction "bit_cnt b - cnt + 1 - i" arbitrary: i)
  case 0
  then show ?case by (subst bitmap_scan_loop.simps) simp
next
  case (Suc n)
  then have i: "i + cnt \<le> bit_cnt b" "i \<le> bit_cnt b - cnt" using cnt by simp_all
  then have u: "[i..<bit_cnt b - cnt + 1] = i # [Suc i..<bit_cnt b - cnt + 1]" by (simp add: upt_conv_Cons)
  have "n = bit_cnt b - cnt + 1 - Suc i" using Suc.hyps(2) by simp
  from Suc.hyps(1) [OF this] show ?case
    using i cnt unfolding u
    by (subst bitmap_scan_loop.simps) (simp add: bitmap_contains_bits [OF wf i(1)] del: upt_Suc)
qed

lemma bitmap_scan_bits:
  assumes "wf_bitmap b" "start \<le> bit_cnt b"
  shows "bitmap_scan b start cnt v =
    Some (case first_group (bitmap_bits b) start cnt v of None \<Rightarrow> BITMAP_ERROR | Some j \<Rightarrow> j)"
  using assms by (simp add: bitmap_scan_def first_group_def bitmap_scan_loop_bits)

lemma bitmap_scan_and_flip_bits:
  assumes wf: "wf_bitmap b" and s: "start \<le> bit_cnt b"
  shows "\<exists>b'. bitmap_scan_and_flip b start cnt v =
      Some (case first_group (bitmap_bits b) start cnt v of None \<Rightarrow> BITMAP_ERROR | Some i \<Rightarrow> i, b') \<and>
    wf_bitmap b' \<and> bit_cnt b' = bit_cnt b \<and>
    bitmap_bits b' = (case first_group (bitmap_bits b) start cnt v of
      None \<Rightarrow> bitmap_bits b | Some i \<Rightarrow> set_range (bitmap_bits b) i cnt (\<not> v))"
proof (cases "first_group (bitmap_bits b) start cnt v")
  case None
  then show ?thesis using wf by (simp add: bitmap_scan_and_flip_def bitmap_scan_bits [OF wf s])
next
  case (Some i)
  then have i: "i + cnt \<le> bit_cnt b" using first_group_Some [OF Some] by (simp add: is_group_def)
  then have "i \<noteq> BITMAP_ERROR" using wf_bitmap_less [OF wf] by simp
  then show ?thesis
    using Some bitmap_set_multiple_bits [OF wf i, of "\<not> v"]
    by (auto simp: bitmap_scan_and_flip_def bitmap_scan_bits [OF wf s])
qed

section \<open>Allocation of slots\<close>

text \<open>
  The contract under which a bitmap serves as an allocator: a request for \<open>cnt\<close> slots either
  returns the start of a group no slot of which was in use, and marks exactly that group, or fails, and then no
  such group exists; a release frees exactly the group it names.
\<close>

datatype slot_request = Acquire nat | Release nat

fun serve :: "('s \<Rightarrow> nat \<Rightarrow> (nat option \<times> 's) option) \<Rightarrow> ('s \<Rightarrow> nat \<Rightarrow> nat \<Rightarrow> 's option) \<Rightarrow>
    slot_request list \<Rightarrow> 's \<Rightarrow> (nat \<times> nat) list \<Rightarrow> ('s \<times> (nat \<times> nat) list) option" where
  "serve alloc release [] s live = Some (s, live)"
| "serve alloc release (Acquire cnt # rs) s live = do {
     (r, s) \<leftarrow> alloc s cnt;
     serve alloc release rs s (case r of None \<Rightarrow> live | Some i \<Rightarrow> (i, cnt) # live)
   }"
| "serve alloc release (Release n # rs) s live =
     (if n < length live then do {
        s \<leftarrow> release s (fst (live ! n)) (snd (live ! n));
        serve alloc release rs s (take n live @ drop (Suc n) live)
      }
      else serve alloc release rs s live)"

definition block_set :: "nat \<times> nat \<Rightarrow> nat set" where
  "block_set blk = {fst blk..<fst blk + snd blk}"

definition owns :: "nat set \<Rightarrow> (nat \<times> nat) list \<Rightarrow> bool" where
  "owns used live \<longleftrightarrow> used = (\<Union>blk \<in> set live. block_set blk) \<and>
     sorted_wrt (\<lambda>a b. block_set a \<inter> block_set b = {}) live"

lemma owns_Nil [simp]: "owns used [] \<longleftrightarrow> used = {}"
  by (simp add: owns_def)

lemma owns_Cons: "owns used live \<Longrightarrow> block_set blk \<inter> used = {} \<Longrightarrow> owns (used \<union> block_set blk) (blk # live)"
  by (auto simp: owns_def)

lemma owns_remove: "owns used (as @ blk # bs) \<Longrightarrow> owns (used - block_set blk) (as @ bs)"
  by (auto simp: owns_def sorted_wrt_append)

locale slot_allocator =
  fixes wf :: "'s \<Rightarrow> bool"
    and limit :: "'s \<Rightarrow> nat"
    and in_use :: "'s \<Rightarrow> nat set"
    and alloc :: "'s \<Rightarrow> nat \<Rightarrow> (nat option \<times> 's) option"
    and release :: "'s \<Rightarrow> nat \<Rightarrow> nat \<Rightarrow> 's option"
  assumes alloc_ok: "wf s \<Longrightarrow> \<exists>r s'. alloc s cnt = Some (r, s') \<and> wf s' \<and> limit s' = limit s \<and>
      (case r of
         None \<Rightarrow> in_use s' = in_use s \<and> (\<forall>i. i + cnt \<le> limit s \<longrightarrow> block_set (i, cnt) \<inter> in_use s \<noteq> {})
       | Some i \<Rightarrow> i + cnt \<le> limit s \<and> block_set (i, cnt) \<inter> in_use s = {} \<and>
           in_use s' = in_use s \<union> block_set (i, cnt))"
    and release_ok: "wf s \<Longrightarrow> i + cnt \<le> limit s \<Longrightarrow> block_set (i, cnt) \<subseteq> in_use s \<Longrightarrow>
      \<exists>s'. release s i cnt = Some s' \<and> wf s' \<and> limit s' = limit s \<and> in_use s' = in_use s - block_set (i, cnt)"
begin

lemma serve_owns:
  "wf s \<Longrightarrow> owns (in_use s) live \<Longrightarrow> \<forall>(i, cnt) \<in> set live. i + cnt \<le> limit s \<Longrightarrow>
   \<exists>s' live'. serve alloc release rs s live = Some (s', live') \<and> wf s' \<and> limit s' = limit s \<and>
     owns (in_use s') live' \<and> (\<forall>(i, cnt) \<in> set live'. i + cnt \<le> limit s)"
proof (induction rs arbitrary: s live)
  case (Cons r rs)
  show ?case
  proof (cases r)
    case (Acquire cnt)
    obtain a s1 where a: "alloc s cnt = Some (a, s1)" "wf s1" "limit s1 = limit s"
      "case a of None \<Rightarrow> in_use s1 = in_use s
       | Some i \<Rightarrow> i + cnt \<le> limit s \<and> block_set (i, cnt) \<inter> in_use s = {} \<and>
           in_use s1 = in_use s \<union> block_set (i, cnt)"
      using alloc_ok [OF Cons.prems(1), of cnt] by (force split: option.splits)
    let ?live = "case a of None \<Rightarrow> live | Some i \<Rightarrow> (i, cnt) # live"
    have "owns (in_use s1) ?live" "\<forall>(i, cnt) \<in> set ?live. i + cnt \<le> limit s1"
      using a Cons.prems owns_Cons by (auto split: option.splits)
    from Cons.IH [OF a(2) this] a show ?thesis by (simp add: Acquire)
  next
    case (Release n)
    show ?thesis
    proof (cases "n < length live")
      case True
      obtain i cnt where ic: "live ! n = (i, cnt)" by fastforce
      let ?as = "take n live" and ?bs = "drop (Suc n) live"
      have split: "live = ?as @ (i, cnt) # ?bs" using True ic id_take_nth_drop by metis
      then have in_live: "(i, cnt) \<in> set live" by (metis in_set_conv_decomp)
      with Cons.prems(2,3) have b: "block_set (i, cnt) \<subseteq> in_use s" "i + cnt \<le> limit s"
        by (auto simp: owns_def)
      obtain s1 where s1: "release s i cnt = Some s1" "wf s1" "limit s1 = limit s"
        "in_use s1 = in_use s - block_set (i, cnt)"
        using release_ok [OF Cons.prems(1) b(2,1)] by blast
      have "owns (in_use s1) (?as @ ?bs)"
        unfolding s1(4) by (rule owns_remove) (use split Cons.prems(2) in simp)
      moreover have "set (?as @ ?bs) \<subseteq> set live" by (auto dest: in_set_takeD in_set_dropD)
      then have "\<forall>(i, cnt) \<in> set (?as @ ?bs). i + cnt \<le> limit s1" using Cons.prems(3) unfolding s1(3) by blast
      ultimately show ?thesis
        using Cons.IH [OF s1(2)] s1 True ic by (simp add: Release)
    next
      case False
      then show ?thesis using Cons.IH [OF Cons.prems] by (simp add: Release)
    qed
  qed
qed simp

end

definition marked :: "bitmap \<Rightarrow> nat set" where
  "marked b = {i. i < bit_cnt b \<and> bitmap_bits b ! i}"

definition bitmap_acquire :: "bitmap \<Rightarrow> nat \<Rightarrow> (nat option \<times> bitmap) option" where
  "bitmap_acquire b cnt = do {
     (idx, b) \<leftarrow> bitmap_scan_and_flip b 0 cnt False;
     Some (if idx = BITMAP_ERROR then None else Some idx, b)
   }"

definition bitmap_release :: "bitmap \<Rightarrow> nat \<Rightarrow> nat \<Rightarrow> bitmap option" where
  "bitmap_release b idx cnt = bitmap_set_multiple b idx cnt False"

lemma is_group_marked: "is_group (bitmap_bits b) cnt False i \<longleftrightarrow>
    i + cnt \<le> bit_cnt b \<and> block_set (i, cnt) \<inter> marked b = {}"
  by (auto simp: is_group_def marked_def block_set_def)

lemma marked_set_range:
  assumes "bitmap_bits b' = set_range (bitmap_bits b) i cnt v" "bit_cnt b' = bit_cnt b" "i + cnt \<le> bit_cnt b"
  shows "marked b' = (if v then marked b \<union> block_set (i, cnt) else marked b - block_set (i, cnt))"
  using assms by (auto simp: marked_def block_set_def nth_set_range split: if_splits)

interpretation bitmap_slots: slot_allocator wf_bitmap bit_cnt marked bitmap_acquire bitmap_release
proof (unfold_locales, goal_cases)
  case (1 b cnt)
  let ?g = "first_group (bitmap_bits b) 0 cnt False"
  obtain b' where b': "bitmap_scan_and_flip b 0 cnt False = Some (case ?g of None \<Rightarrow> BITMAP_ERROR | Some i \<Rightarrow> i, b')"
    "wf_bitmap b'" "bit_cnt b' = bit_cnt b"
    "bitmap_bits b' = (case ?g of None \<Rightarrow> bitmap_bits b | Some i \<Rightarrow> set_range (bitmap_bits b) i cnt True)"
    using bitmap_scan_and_flip_bits [OF 1, of 0 cnt False] unfolding not_False_eq_True by blast
  show ?case
  proof (cases ?g)
    case None
    have "marked b' = marked b" using None b' by (simp add: marked_def)
    moreover have "bitmap_acquire b cnt = Some (None, b')" using None b' by (simp add: bitmap_acquire_def)
    ultimately show ?thesis using first_group_None [OF None] b' is_group_marked by auto
  next
    case (Some i)
    from first_group_Some [OF Some] have g: "i + cnt \<le> bit_cnt b" "block_set (i, cnt) \<inter> marked b = {}"
      by (simp_all add: is_group_marked)
    then have "bitmap_acquire b cnt = Some (Some i, b')"
      using Some b' wf_bitmap_less [OF 1] by (simp add: bitmap_acquire_def)
    with g show ?thesis using b' Some marked_set_range [of b' b i cnt True] by simp
  qed
next
  case (2 b i cnt)
  then show ?case
    using bitmap_set_multiple_bits [OF 2(1,2), of False] marked_set_range [of _ b i cnt False]
    by (auto simp: bitmap_release_def)
qed

section \<open>Storage in a file\<close>

text \<open>
  The bytes of the elements as they lie in memory, which \<open>bitmap_write\<close> writes to a file, and what \<open>bitmap_read\<close> does with
  the bytes \<open>data\<close> that \<open>file_read_at\<close> delivers, which are fewer than asked for at the end of the file: they overwrite the
  elements, and the unused bits of the last element are cleared.  The two functions themselves are with the files.
\<close>

definition bitmap_file_size :: "bitmap \<Rightarrow> nat" where
  "bitmap_file_size b = byte_cnt (bit_cnt b)"

definition bitmap_load :: "bitmap \<Rightarrow> u8 list \<Rightarrow> bitmap option" where
  "bitmap_load b data = do {
     let old = bytes_of_words (bits b);
     let b = b\<lparr>bits := words_of_bytes (data @ drop (length data) old)\<rparr>;
     modify_elem b (elem_cnt (bit_cnt b) - 1) (\<lambda>e. e AND last_mask b)
   }"

lemma bit_last_mask:
  "bit (last_mask b) k \<longleftrightarrow> k < ELEM_BITS \<and> (bit_cnt b mod ELEM_BITS = 0 \<or> k < bit_cnt b mod ELEM_BITS)"
  by (auto simp: last_mask_def Let_def mask_eq_exp_minus_1 [symmetric] bit_mask_iff)

lemma wf_bitmap_div:
  assumes "(i :: nat) < n"
  shows "i div ELEM_BITS < (n + 31) div ELEM_BITS"
    and "i div ELEM_BITS = (n + 31) div ELEM_BITS - 1 \<Longrightarrow> n mod ELEM_BITS \<noteq> 0 \<Longrightarrow> i mod ELEM_BITS < n mod ELEM_BITS"
proof -
  have i: "i = 32 * (i div ELEM_BITS) + i mod ELEM_BITS" "i mod ELEM_BITS < 32" by simp_all
  have n: "n = 32 * (n div ELEM_BITS) + n mod ELEM_BITS" "n mod ELEM_BITS < 32" by simp_all
  have n31: "(n + 31) div ELEM_BITS = n div ELEM_BITS + (n mod ELEM_BITS + 31) div ELEM_BITS"
    by (metis n(1) div_mult_self4 add.assoc zero_neq_numeral)
  have c: "(n mod ELEM_BITS + 31) div ELEM_BITS = (if n mod ELEM_BITS = 0 then 0 else 1)"
    using n(2) by (auto simp: div_nat_eqI)
  show "i div ELEM_BITS < (n + 31) div ELEM_BITS" using assms i n n31 c by (auto split: if_splits)
  show "i mod ELEM_BITS < n mod ELEM_BITS" if "i div ELEM_BITS = (n + 31) div ELEM_BITS - 1" "n mod ELEM_BITS \<noteq> 0"
  proof -
    have "i div ELEM_BITS = n div ELEM_BITS" using that n31 c by simp
    with i n assms show ?thesis by linarith
  qed
qed

lemma bitmap_load_back:
  assumes wf: "wf_bitmap b" "wf_bitmap b0" and cnt: "bit_cnt b0 = bit_cnt b" and False: "bit_cnt b \<noteq> 0"
  shows "\<exists>b'. bitmap_load b0 (take (byte_cnt (bit_cnt b)) (bytes_of_words (bits b))) = Some b' \<and> wf_bitmap b' \<and>
    bit_cnt b' = bit_cnt b \<and> bitmap_bits b' = bitmap_bits b"
proof -
  define bytes where "bytes = take (byte_cnt (bit_cnt b)) (bytes_of_words (bits b))"
  let ?n = "elem_cnt (bit_cnt b)"
  have n: "?n \<le> length (bits b)" "?n \<le> length (bits b0)" using wf cnt by (auto simp: wf_bitmap_def)
  have n_eq: "?n = (bit_cnt b + 31) div ELEM_BITS"
    using wf(1) elem_cnt_eq [of "bit_cnt b"] by (simp add: wf_bitmap_def)
  then have pos: "0 < ?n" using False by simp
  have len: "length (bytes) = byte_cnt (bit_cnt b)"
    using n by (simp add: bytes_def byte_cnt_def)
  have words: "words_of_bytes (bytes @ drop (byte_cnt (bit_cnt b)) (bytes_of_words (bits b0)))
      = take ?n (bits b) @ drop ?n (bits b0)"
    using n by (simp add: bytes_def byte_cnt_def take_bytes_of_words drop_bytes_of_words
        bytes_of_words_append [symmetric] del: bytes_of_words_append)
  define b1 where "b1 = b0\<lparr>bits := take ?n (bits b) @ drop ?n (bits b0)\<rparr>"
  define b' where "b' = b1\<lparr>bits := (bits b1)[?n - 1 := bits b1 ! (?n - 1) AND last_mask b1]\<rparr>"
  have "bitmap_load b0 bytes = Some b'"
    using False n pos by (simp add: bitmap_load_def Let_def cnt len words modify_elem_def b1_def b'_def)
  moreover have "wf_bitmap b'" "bit_cnt b' = bit_cnt b"
    using wf n by (simp_all add: wf_bitmap_def b'_def b1_def cnt)
  moreover have "bitmap_bits b' ! i = bitmap_bits b ! i" if i: "i < bit_cnt b" for i
  proof -
    have idx: "i div ELEM_BITS < ?n" using wf_bitmap_div(1) [OF i] n_eq by simp
    have "i mod ELEM_BITS < bit_cnt b mod ELEM_BITS"
      if "i div ELEM_BITS = ?n - 1" "bit_cnt b mod ELEM_BITS \<noteq> 0"
      using wf_bitmap_div(2) [OF i] that n_eq by simp
    then have "bit (last_mask b1) (i mod ELEM_BITS)" if "i div ELEM_BITS = ?n - 1"
      using that by (auto simp: bit_last_mask b1_def cnt)
    then show ?thesis
      using i idx n pos by (auto simp: nth_bitmap_bits b'_def b1_def cnt elem_idx_def nth_list_update bit_and_iff nth_append)
  qed
  then have "bitmap_bits b' = bitmap_bits b"
    using \<open>bit_cnt b' = bit_cnt b\<close> by (intro nth_equalityI) simp_all
  ultimately show ?thesis unfolding bytes_def by blast
qed

section \<open>Properties\<close>

text \<open>
  (C16) \<open>bitmap_scan_and_flip\<close> never fails an assertion on a well-formed bitmap.  It returns the first
  index at or after \<open>start\<close> of \<open>cnt\<close> consecutive bits with the value sought and inverts exactly those bits; if
  there is no such group it returns \<open>BITMAP_ERROR\<close> and changes nothing.
\<close>

theorem bitmap_scan_and_flip_first:
  assumes "wf_bitmap b" "start \<le> bit_cnt b"
  shows "\<exists>idx b'. bitmap_scan_and_flip b start cnt v = Some (idx, b') \<and> wf_bitmap b' \<and> bit_cnt b' = bit_cnt b \<and>
    (if \<exists>i\<ge>start. is_group (bitmap_bits b) cnt v i
     then start \<le> idx \<and> is_group (bitmap_bits b) cnt v idx \<and>
       (\<forall>i. start \<le> i \<and> i < idx \<longrightarrow> \<not> is_group (bitmap_bits b) cnt v i) \<and>
       (\<forall>i < bit_cnt b. bitmap_bits b' ! i = (if idx \<le> i \<and> i < idx + cnt then \<not> v else bitmap_bits b ! i))
     else idx = BITMAP_ERROR \<and> bitmap_bits b' = bitmap_bits b)"
proof (cases "first_group (bitmap_bits b) start cnt v")
  case None
  then show ?thesis
    using bitmap_scan_and_flip_bits [OF assms, of cnt v] first_group_None [OF None] by auto
next
  case (Some i)
  note g = first_group_Some [OF Some]
  then have i: "i + cnt \<le> bit_cnt b" by (simp add: is_group_def)
  obtain b' where "bitmap_scan_and_flip b start cnt v = Some (i, b')" "wf_bitmap b'" "bit_cnt b' = bit_cnt b"
    "bitmap_bits b' = set_range (bitmap_bits b) i cnt (\<not> v)"
    using bitmap_scan_and_flip_bits [OF assms, of cnt v] Some by auto
  moreover have "\<exists>i\<ge>start. is_group (bitmap_bits b) cnt v i" using g by blast
  ultimately show ?thesis using g i by (simp add: nth_set_range)
qed

theorem bitmap_scan_and_flip_first_witness:
  "\<exists>idx b'. bitmap_scan_and_flip \<lparr>bit_cnt = 6, bits = [0b001011]\<rparr> 1 2 False = Some (idx, b') \<and>
     is_group [True, True, False, True, False, False] 2 False idx"
proof -
  let ?b = "\<lparr>bit_cnt = 6, bits = [0b001011 :: u32]\<rparr>"
  have bits: "bitmap_bits ?b = [True, True, False, True, False, False]"
    by (simp add: bitmap_bits_def upt_rec)
  have "wf_bitmap ?b" by (simp add: wf_bitmap_def elem_cnt_def)
  moreover have "is_group (bitmap_bits ?b) 2 False 4" unfolding bits is_group_def
    by (auto simp: less_Suc_eq numeral_eq_Suc)
  then have "\<exists>i\<ge>1. is_group (bitmap_bits ?b) 2 False i" by (intro exI [of _ 4]) simp
  ultimately show ?thesis
    using bitmap_scan_and_flip_first [of ?b 1 2 False] unfolding bits by auto
qed

text \<open>
  (C11) A bitmap as an allocator: starting from a bitmap without a marked bit, any sequence of
  \<open>bitmap_scan_and_flip\<close> requests and of releases by \<open>bitmap_set_multiple\<close> runs without a failed assertion,
  the groups that are held at the end are pairwise disjoint and lie inside the bitmap, and the marked
  bits are exactly those of the groups held.
\<close>

theorem bitmap_allocates_disjoint:
  assumes "wf_bitmap b" "\<forall>i < bit_cnt b. \<not> bitmap_bits b ! i"
  shows "\<exists>b' live. serve bitmap_acquire bitmap_release rs b [] = Some (b', live) \<and>
    {i. i < bit_cnt b \<and> bitmap_bits b' ! i} = (\<Union>(i, cnt) \<in> set live. {i..<i + cnt}) \<and>
    sorted_wrt (\<lambda>(i, m) (j, n). {i..<i + m} \<inter> {j..<j + n} = {}) live \<and>
    (\<forall>(i, cnt) \<in> set live. i + cnt \<le> bit_cnt b)"
proof -
  have "owns (marked b) []" using assms by (simp add: marked_def)
  from bitmap_slots.serve_owns [OF assms(1) this, of rs] show ?thesis
    by (auto simp: owns_def marked_def block_set_def case_prod_unfold)
qed

theorem bitmap_allocates_disjoint_witness:
  "\<exists>b' live. serve bitmap_acquire bitmap_release [Acquire 2, Acquire 1, Release 1, Acquire 3]
     \<lparr>bit_cnt = 6, bits = [0]\<rparr> [] = Some (b', live) \<and>
     sorted_wrt (\<lambda>(i, m) (j, n). {i..<i + m} \<inter> {j..<j + n} = {}) live"
proof -
  let ?b = "\<lparr>bit_cnt = 6, bits = [0]\<rparr>"
  have "wf_bitmap ?b" by (simp add: wf_bitmap_def elem_cnt_def)
  moreover have "\<forall>i < bit_cnt ?b. \<not> bitmap_bits ?b ! i" by (simp add: bitmap_bits_def)
  ultimately show ?thesis by (rule exE [OF bitmap_allocates_disjoint]) blast
qed

text \<open>
  (C18) For a group of zero bits \<open>bitmap_scan_and_flip\<close> returns \<open>start\<close>, not the 0 its comment announces.
\<close>

theorem bitmap_scan_and_flip_zero:
  assumes "wf_bitmap b" "start \<le> bit_cnt b"
  shows "\<exists>b'. bitmap_scan_and_flip b start 0 v = Some (start, b') \<and> bitmap_bits b' = bitmap_bits b"
proof -
  have "first_group (bitmap_bits b) start 0 v = Some start"
    using assms(2) unfolding first_group_def find_upt_Some [symmetric]
    by (simp add: find_upt_Some del: upt_Suc)
  then show ?thesis using bitmap_scan_and_flip_bits [OF assms, of 0 v] by auto
qed

theorem bitmap_scan_and_flip_zero_witness:
  "\<exists>b'. bitmap_scan_and_flip \<lparr>bit_cnt = 6, bits = [0]\<rparr> 5 0 False = Some (5, b')"
  using bitmap_scan_and_flip_zero [of "\<lparr>bit_cnt = 6, bits = [0]\<rparr>" 5 False]
  by (auto simp: wf_bitmap_def elem_cnt_def)

end
