(* ===== verification/C_String.thy ===== *)
theory C_String
  imports Pintos_Prelude
begin

text \<open>
  The memory and string functions of \<open>src/pintos/src/lib/string.c\<close> on a byte memory.  A pointer is
  an address and \<open>NULL\<close> is the address 0; a \<open>char\<close> is a byte, since the functions only compare
  characters for equality or as \<open>unsigned char\<close>.  The loops that look for a null terminator need not end and are
  partial functions; the loops with a counter are recursive on it.

  The lemmas relate the functions to the null-terminated byte strings a memory holds
  (\<open>str_at\<close>): overlapping copies, bounded copies and concatenation, comparison, and the tokenizer.
\<close>

section \<open>Operations\<close>

type_synonym addr = nat

type_synonym memory = "addr \<Rightarrow> u8"

subsection \<open>Blocks of memory\<close>

fun memcpy_loop :: "memory \<Rightarrow> addr \<Rightarrow> addr \<Rightarrow> nat \<Rightarrow> memory" where
  "memcpy_loop m dst src 0 = m"
| "memcpy_loop m dst src (Suc sz) = memcpy_loop (m(dst := m src)) (dst + 1) (src + 1) sz"

definition memcpy :: "memory \<Rightarrow> addr \<Rightarrow> addr \<Rightarrow> nat \<Rightarrow> (addr \<times> memory) option" where
  "memcpy m dst src sz = do {
     ASSERT (dst \<noteq> 0 \<or> sz = 0);
     ASSERT (src \<noteq> 0 \<or> sz = 0);
     Some (dst, memcpy_loop m dst src sz)
   }"

text \<open>The loops of \<open>memmove\<close> also return the value \<open>dst\<close> ends up with.\<close>

fun memmove_up :: "memory \<Rightarrow> addr \<Rightarrow> addr \<Rightarrow> nat \<Rightarrow> addr \<times> memory" where
  "memmove_up m dst src 0 = (dst, m)"
| "memmove_up m dst src (Suc sz) = memmove_up (m(dst := m src)) (dst + 1) (src + 1) sz"

fun memmove_down :: "memory \<Rightarrow> addr \<Rightarrow> addr \<Rightarrow> nat \<Rightarrow> addr \<times> memory" where
  "memmove_down m dst src 0 = (dst, m)"
| "memmove_down m dst src (Suc sz) = memmove_down (m(dst - 1 := m (src - 1))) (dst - 1) (src - 1) sz"

definition memmove :: "memory \<Rightarrow> addr \<Rightarrow> addr \<Rightarrow> nat \<Rightarrow> (addr \<times> memory) option" where
  "memmove m dst src sz = do {
     ASSERT (dst \<noteq> 0 \<or> sz = 0);
     ASSERT (src \<noteq> 0 \<or> sz = 0);
     Some (if dst < src then memmove_up m dst src sz
           else memmove_down m (dst + sz) (src + sz) sz)
   }"

fun memcmp_loop :: "memory \<Rightarrow> addr \<Rightarrow> addr \<Rightarrow> nat \<Rightarrow> int" where
  "memcmp_loop m a b 0 = 0"
| "memcmp_loop m a b (Suc sz) =
     (if m a \<noteq> m b then (if m a > m b then 1 else - 1) else memcmp_loop m (a + 1) (b + 1) sz)"

definition memcmp :: "memory \<Rightarrow> addr \<Rightarrow> addr \<Rightarrow> nat \<Rightarrow> int option" where
  "memcmp m a b sz = do {
     ASSERT (a \<noteq> 0 \<or> sz = 0);
     ASSERT (b \<noteq> 0 \<or> sz = 0);
     Some (memcmp_loop m a b sz)
   }"

fun memchr_loop :: "memory \<Rightarrow> addr \<Rightarrow> u8 \<Rightarrow> nat \<Rightarrow> addr" where
  "memchr_loop m block ch 0 = 0"
| "memchr_loop m block ch (Suc sz) = (if m block = ch then block else memchr_loop m (block + 1) ch sz)"

definition memchr :: "memory \<Rightarrow> addr \<Rightarrow> u8 \<Rightarrow> nat \<Rightarrow> addr option" where
  "memchr m block ch sz = do {
     ASSERT (block \<noteq> 0 \<or> sz = 0);
     Some (memchr_loop m block ch sz)
   }"

fun memset_loop :: "memory \<Rightarrow> addr \<Rightarrow> u8 \<Rightarrow> nat \<Rightarrow> memory" where
  "memset_loop m dst v 0 = m"
| "memset_loop m dst v (Suc sz) = memset_loop (m(dst := v)) (dst + 1) v sz"

definition memset :: "memory \<Rightarrow> addr \<Rightarrow> u8 \<Rightarrow> nat \<Rightarrow> (addr \<times> memory) option" where
  "memset m dst v sz = do {
     ASSERT (dst \<noteq> 0 \<or> sz = 0);
     Some (dst, memset_loop m dst v sz)
   }"

subsection \<open>Strings\<close>

partial_function (option) strcmp_loop :: "memory \<Rightarrow> addr \<Rightarrow> addr \<Rightarrow> int option" where
  "strcmp_loop m a b =
     (if m a \<noteq> 0 \<and> m a = m b then strcmp_loop m (a + 1) (b + 1)
      else Some (if m a < m b then - 1 else if m a > m b then 1 else 0))"

definition strcmp :: "memory \<Rightarrow> addr \<Rightarrow> addr \<Rightarrow> int option" where
  "strcmp m a b = do { ASSERT (a \<noteq> 0); ASSERT (b \<noteq> 0); strcmp_loop m a b }"

partial_function (option) strchr_loop :: "memory \<Rightarrow> addr \<Rightarrow> u8 \<Rightarrow> addr option" where
  "strchr_loop m p c =
     (if m p = c then Some p else if m p = 0 then Some 0 else strchr_loop m (p + 1) c)"

definition strchr :: "memory \<Rightarrow> addr \<Rightarrow> u8 \<Rightarrow> addr option" where
  "strchr m p c = do { ASSERT (p \<noteq> 0); strchr_loop m p c }"

partial_function (option) strcspn_loop :: "memory \<Rightarrow> addr \<Rightarrow> addr \<Rightarrow> nat \<Rightarrow> nat option" where
  "strcspn_loop m p stop len =
     (if m (p + len) \<noteq> 0 then do {
        q \<leftarrow> strchr m stop (m (p + len));
        if q \<noteq> 0 then Some len else strcspn_loop m p stop (len + 1)
      }
      else Some len)"

definition strcspn :: "memory \<Rightarrow> addr \<Rightarrow> addr \<Rightarrow> nat option" where
  "strcspn m p stop = strcspn_loop m p stop 0"

partial_function (option) strpbrk :: "memory \<Rightarrow> addr \<Rightarrow> addr \<Rightarrow> addr option" where
  "strpbrk m p stop =
     (if m p \<noteq> 0 then do {
        q \<leftarrow> strchr m stop (m p);
        if q \<noteq> 0 then Some p else strpbrk m (p + 1) stop
      }
      else Some 0)"

partial_function (option) strrchr_loop :: "memory \<Rightarrow> addr \<Rightarrow> u8 \<Rightarrow> addr \<Rightarrow> addr option" where
  "strrchr_loop m s c p =
     (if m s \<noteq> 0 then strrchr_loop m (s + 1) c (if m s = c then s else p) else Some p)"

definition strrchr :: "memory \<Rightarrow> addr \<Rightarrow> u8 \<Rightarrow> addr option" where
  "strrchr m s c = strrchr_loop m s c 0"

partial_function (option) strspn_loop :: "memory \<Rightarrow> addr \<Rightarrow> addr \<Rightarrow> nat \<Rightarrow> nat option" where
  "strspn_loop m p skip len =
     (if m (p + len) \<noteq> 0 then do {
        q \<leftarrow> strchr m skip (m (p + len));
        if q = 0 then Some len else strspn_loop m p skip (len + 1)
      }
      else Some len)"

definition strspn :: "memory \<Rightarrow> addr \<Rightarrow> addr \<Rightarrow> nat option" where
  "strspn m p skip = strspn_loop m p skip 0"

partial_function (option) strlen_loop :: "memory \<Rightarrow> addr \<Rightarrow> addr option" where
  "strlen_loop m p = (if m p \<noteq> 0 then strlen_loop m (p + 1) else Some p)"

definition strlen :: "memory \<Rightarrow> addr \<Rightarrow> nat option" where
  "strlen m s = do { ASSERT (s \<noteq> 0); p \<leftarrow> strlen_loop m s; Some (p - s) }"

function strnlen_loop :: "memory \<Rightarrow> addr \<Rightarrow> nat \<Rightarrow> nat \<Rightarrow> nat" where
  "strnlen_loop m s maxlen len =
     (if m (s + len) \<noteq> 0 \<and> len < maxlen then strnlen_loop m s maxlen (len + 1) else len)"
  by pat_completeness auto
termination
  by (relation "measure (\<lambda>(m, s, maxlen, len). maxlen - len)") auto

declare strnlen_loop.simps [simp del]

definition strnlen :: "memory \<Rightarrow> addr \<Rightarrow> nat \<Rightarrow> nat" where
  "strnlen m s maxlen = strnlen_loop m s maxlen 0"

fun strstr_loop :: "memory \<Rightarrow> addr \<Rightarrow> addr \<Rightarrow> nat \<Rightarrow> nat \<Rightarrow> nat \<Rightarrow> addr option" where
  "strstr_loop m haystack needle needle_len i 0 = Some 0"
| "strstr_loop m haystack needle needle_len i (Suc left) = do {
     c \<leftarrow> memcmp m (haystack + i) needle needle_len;
     if c = 0 then Some (haystack + i) else strstr_loop m haystack needle needle_len (i + 1) left
   }"

definition strstr :: "memory \<Rightarrow> addr \<Rightarrow> addr \<Rightarrow> addr option" where
  "strstr m haystack needle = do {
     haystack_len \<leftarrow> strlen m haystack;
     needle_len \<leftarrow> strlen m needle;
     if haystack_len \<ge> needle_len
     then strstr_loop m haystack needle needle_len 0 (haystack_len - needle_len + 1)
     else Some 0
   }"

text \<open>The two scanning loops of \<open>strtok_r\<close>; the first stops at the terminator as well.\<close>

partial_function (option) strtok_skip :: "memory \<Rightarrow> addr \<Rightarrow> addr \<Rightarrow> addr option" where
  "strtok_skip m delimiters s = do {
     q \<leftarrow> strchr m delimiters (m s);
     if q \<noteq> 0 \<and> m s \<noteq> 0 then strtok_skip m delimiters (s + 1) else Some s
   }"

partial_function (option) strtok_scan :: "memory \<Rightarrow> addr \<Rightarrow> addr \<Rightarrow> addr option" where
  "strtok_scan m delimiters s = do {
     q \<leftarrow> strchr m delimiters (m s);
     if q = 0 then strtok_scan m delimiters (s + 1) else Some s
   }"

text \<open>The result is the token, the new value of \<open>*save_ptr\<close> and the memory.\<close>

definition strtok_r :: "memory \<Rightarrow> addr \<Rightarrow> addr \<Rightarrow> addr \<Rightarrow> (addr \<times> addr \<times> memory) option" where
  "strtok_r m s delimiters save_ptr = do {
     ASSERT (delimiters \<noteq> 0);
     let s = (if s = 0 then save_ptr else s);
     ASSERT (s \<noteq> 0);
     s \<leftarrow> strtok_skip m delimiters s;
     if m s = 0 then Some (0, s, m)
     else do {
       e \<leftarrow> strtok_scan m delimiters s;
       if m e \<noteq> 0 then Some (s, e + 1, m(e := 0)) else Some (s, e, m)
     }
   }"

definition strlcpy :: "memory \<Rightarrow> addr \<Rightarrow> addr \<Rightarrow> nat \<Rightarrow> (nat \<times> memory) option" where
  "strlcpy m dst src sz = do {
     ASSERT (dst \<noteq> 0);
     ASSERT (src \<noteq> 0);
     src_len \<leftarrow> strlen m src;
     if sz > 0 then do {
       let dst_len = (if src_len < sz - 1 then src_len else sz - 1);
       (_, m) \<leftarrow> memcpy m dst src dst_len;
       Some (src_len, m(dst + dst_len := 0))
     }
     else Some (src_len, m)
   }"

definition strlcat :: "memory \<Rightarrow> addr \<Rightarrow> addr \<Rightarrow> nat \<Rightarrow> (nat \<times> memory) option" where
  "strlcat m dst src sz = do {
     ASSERT (dst \<noteq> 0);
     ASSERT (src \<noteq> 0);
     src_len \<leftarrow> strlen m src;
     dst_len \<leftarrow> strlen m dst;
     if sz > 0 \<and> dst_len < sz then do {
       let copy_cnt = (if src_len < sz - dst_len - 1 then src_len else sz - dst_len - 1);
       (_, m) \<leftarrow> memcpy m (dst + dst_len) src copy_cnt;
       Some (src_len + dst_len, m(dst + dst_len + copy_cnt := 0))
     }
     else Some (src_len + dst_len, m)
   }"

section \<open>Copies\<close>

text \<open>The memory in which the \<open>n\<close> bytes at \<open>dst\<close> are those that \<open>m\<close> has at \<open>src\<close>.\<close>

definition copied :: "memory \<Rightarrow> addr \<Rightarrow> addr \<Rightarrow> nat \<Rightarrow> memory" where
  "copied m dst src n = (\<lambda>a. if dst \<le> a \<and> a < dst + n then m (src + (a - dst)) else m a)"

lemma copied_step:
  assumes "\<And>k. k < n \<Longrightarrow> src + 1 + k \<noteq> dst"
  shows "copied (m(dst := m src)) (dst + 1) (src + 1) n = copied m dst src (Suc n)"
proof
  fix a
  show "copied (m(dst := m src)) (dst + 1) (src + 1) n a = copied m dst src (Suc n) a"
  proof (cases "dst < a \<and> a \<le> dst + n")
    case True
    then obtain k where "k < n" "a = dst + Suc k"
      by (metis add_le_cancel_left less_iff_Suc_add Suc_le_eq add_Suc_right)
    with assms [of k] show ?thesis by (simp add: copied_def)
  next
    case False
    then show ?thesis by (auto simp: copied_def)
  qed
qed

lemma copied_0 [simp]: "copied m dst src 0 = m"
  by (rule ext) (auto simp: copied_def)

lemma memmove_up_eq: "dst < src \<Longrightarrow> memmove_up m dst src n = (dst + n, copied m dst src n)"
proof (induction n arbitrary: m dst src)
  case (Suc n)
  then have "copied (m(dst := m src)) (dst + 1) (src + 1) n = copied m dst src (Suc n)"
    by (intro copied_step) simp
  with Suc.IH [of "dst + 1" "src + 1" "m(dst := m src)"] Suc.prems show ?case by (simp del: fun_upd_apply)
qed simp

lemma memmove_down_eq:
  "src \<le> dst \<Longrightarrow> memmove_down m (dst + n) (src + n) n = (dst, copied m dst src n)"
proof (induction n arbitrary: m)
  case (Suc n)
  have "copied (m(dst + n := m (src + n))) dst src n a = copied m dst src (Suc n) a" for a
    using Suc.prems by (cases "a = dst + n") (auto simp: copied_def)
  then have "copied (m(dst + n := m (src + n))) dst src n = copied m dst src (Suc n)" by blast
  moreover note Suc.IH [OF Suc.prems, of "m(dst + n := m (src + n))"]
  ultimately show ?case by (simp del: fun_upd_apply)
qed simp

lemma memmove_eq:
  assumes "dst \<noteq> 0 \<or> n = 0" "src \<noteq> 0 \<or> n = 0"
  shows "memmove m dst src n = Some (if dst < src then dst + n else dst, copied m dst src n)"
  using assms by (auto simp: memmove_def memmove_up_eq memmove_down_eq)

lemma memcpy_loop_eq:
  "dst + n \<le> src \<or> src + n \<le> dst \<Longrightarrow> memcpy_loop m dst src n = copied m dst src n"
proof (induction n arbitrary: m dst src)
  case (Suc n)
  then have "copied (m(dst := m src)) (dst + 1) (src + 1) n = copied m dst src (Suc n)"
    by (intro copied_step) auto
  moreover have "(dst + 1) + n \<le> src + 1 \<or> (src + 1) + n \<le> dst + 1" using Suc.prems by linarith
  from Suc.IH [OF this, of "m(dst := m src)"]
  have "memcpy_loop (m(dst := m src)) (dst + 1) (src + 1) n = copied (m(dst := m src)) (dst + 1) (src + 1) n" .
  ultimately show ?case by (simp del: fun_upd_apply)
qed simp

lemma memcpy_eq:
  assumes "dst \<noteq> 0 \<or> n = 0" "src \<noteq> 0 \<or> n = 0" "dst + n \<le> src \<or> src + n \<le> dst"
  shows "memcpy m dst src n = Some (dst, copied m dst src n)"
  using assms by (auto simp: memcpy_def memcpy_loop_eq)

lemma memset_loop_eq: "memset_loop m dst v n = (\<lambda>a. if dst \<le> a \<and> a < dst + n then v else m a)"
proof (induction n arbitrary: m dst)
  case (Suc n)
  show ?case unfolding memset_loop.simps Suc.IH by (rule ext) auto
next
  case 0
  show ?case by (rule ext) auto
qed

lemma memcmp_loop_0: "memcmp_loop m a b n = 0 \<longleftrightarrow> (\<forall>i<n. m (a + i) = m (b + i))"
proof (induction n arbitrary: a b)
  case (Suc n)
  show ?case unfolding memcmp_loop.simps All_less_Suc2 by (simp add: Suc.IH)
qed simp

section \<open>Null-terminated strings\<close>

fun str_at :: "memory \<Rightarrow> addr \<Rightarrow> u8 list \<Rightarrow> bool" where
  "str_at m p [] \<longleftrightarrow> m p = 0"
| "str_at m p (c # cs) \<longleftrightarrow> c \<noteq> 0 \<and> m p = c \<and> str_at m (p + 1) cs"

lemma str_at_append: "str_at m p (as @ bs) \<longleftrightarrow>
    (\<forall>i < length as. m (p + i) = as ! i) \<and> 0 \<notin> set as \<and> str_at m (p + length as) bs"
proof (induction as arbitrary: p)
  case (Cons a as)
  show ?case by (auto simp: Cons.IH All_less_Suc2)
qed simp

lemma str_at_iff: "str_at m p cs \<longleftrightarrow> (\<forall>i < length cs. m (p + i) = cs ! i) \<and> 0 \<notin> set cs \<and> m (p + length cs) = 0"
  using str_at_append [of m p cs "[]"] by simp

lemma str_at_cong: "(\<And>a. p \<le> a \<Longrightarrow> a \<le> p + length cs \<Longrightarrow> m' a = m a) \<Longrightarrow> str_at m' p cs \<longleftrightarrow> str_at m p cs"
  by (simp add: str_at_iff)

lemma str_at_unique: "str_at m p as \<Longrightarrow> str_at m p bs \<Longrightarrow> as = bs"
proof (induction as arbitrary: p bs)
  case Nil
  then show ?case by (cases bs) auto
next
  case (Cons a as)
  then show ?case by (cases bs) auto
qed

lemma strlen_loop_eq: "str_at m p cs \<Longrightarrow> strlen_loop m p = Some (p + length cs)"
proof (induction cs arbitrary: p)
  case Nil
  then show ?case by (subst strlen_loop.simps) simp
next
  case (Cons c cs)
  then show ?case by (subst strlen_loop.simps) simp
qed

lemma strlen_eq: "str_at m p cs \<Longrightarrow> p \<noteq> 0 \<Longrightarrow> strlen m p = Some (length cs)"
  by (simp add: strlen_def strlen_loop_eq)

lemma strchr_loop_eq:
  "str_at m p cs \<Longrightarrow> strchr_loop m p c =
     Some (if c = 0 \<or> c \<in> set cs then p + length (takeWhile (\<lambda>x. x \<noteq> c) cs) else 0)"
proof (induction cs arbitrary: p)
  case Nil
  then show ?case by (subst strchr_loop.simps) auto
next
  case (Cons x cs)
  then show ?case by (subst strchr_loop.simps) auto
qed

lemma strchr_eq:
  "str_at m p cs \<Longrightarrow> p \<noteq> 0 \<Longrightarrow> strchr m p c =
     Some (if c = 0 \<or> c \<in> set cs then p + length (takeWhile (\<lambda>x. x \<noteq> c) cs) else 0)"
  by (simp add: strchr_def strchr_loop_eq)

lemma strcmp_loop_eq:
  "str_at m a as \<Longrightarrow> str_at m b bs \<Longrightarrow>
   strcmp_loop m a b = Some (if as = bs then 0 else if (as, bs) \<in> lexord {(x, y). x < y} then - 1 else 1)"
proof (induction as arbitrary: a b bs)
  case Nil
  then show ?case by (cases bs) (subst strcmp_loop.simps; auto simp: word_gt_0)+
next
  case (Cons x as)
  show ?case
  proof (cases bs)
    case Nil
    with Cons.prems show ?thesis by (subst strcmp_loop.simps) (auto simp: word_gt_0)
  next
    case (Cons y ys)
    then show ?thesis
      using Cons.IH [of "a + 1" "b + 1" ys] Cons.prems by (subst strcmp_loop.simps) auto
  qed
qed

section \<open>The tokenizer\<close>

lemma strchr_delimiter:
  assumes "str_at m d ds" "d \<noteq> 0"
  shows "\<exists>q. strchr m d c = Some q \<and> (q \<noteq> 0 \<longleftrightarrow> c = 0 \<or> c \<in> set ds)"
  using strchr_eq [OF assms, of c] assms(2) by auto

lemma strtok_skip_eq:
  assumes d: "str_at m d ds" "d \<noteq> 0"
  shows "str_at m s cs \<Longrightarrow> strtok_skip m d s = Some (s + length (takeWhile (\<lambda>c. c \<in> set ds) cs))"
proof (induction cs arbitrary: s)
  case Nil
  then show ?case using strchr_delimiter [OF d, of 0] by (subst strtok_skip.simps) auto
next
  case (Cons c cs)
  then show ?case using strchr_delimiter [OF d, of c] by (subst strtok_skip.simps) auto
qed

lemma strtok_scan_eq:
  assumes d: "str_at m d ds" "d \<noteq> 0"
  shows "str_at m s cs \<Longrightarrow> strtok_scan m d s = Some (s + length (takeWhile (\<lambda>c. c \<notin> set ds) cs))"
proof (induction cs arbitrary: s)
  case Nil
  then show ?case using strchr_delimiter [OF d, of 0] by (subst strtok_scan.simps) auto
next
  case (Cons c cs)
  then show ?case using strchr_delimiter [OF d, of c] by (subst strtok_scan.simps) auto
qed

text \<open>What one call of the tokenizer does to a string: the token and what is left.\<close>

definition next_token :: "u8 list \<Rightarrow> u8 list \<Rightarrow> (u8 list \<times> u8 list) option" where
  "next_token ds cs =
     (let rest = dropWhile (\<lambda>c. c \<in> set ds) cs
      in if rest = [] then None
         else Some (takeWhile (\<lambda>c. c \<notin> set ds) rest, tl (dropWhile (\<lambda>c. c \<notin> set ds) rest)))"

lemma strtok_r_eq:
  assumes d: "d \<noteq> 0" "str_at m d ds" and s: "s \<noteq> 0" "str_at m s cs"
  shows "case next_token ds cs of
      None \<Rightarrow> strtok_r m s d save = Some (0, s + length cs, m)
    | Some (tok, rest) \<Rightarrow> \<exists>t save' m'. strtok_r m s d save = Some (t, save', m') \<and>
        t = s + length (takeWhile (\<lambda>c. c \<in> set ds) cs) \<and>
        str_at m' t tok \<and> str_at m' save' rest \<and> (\<forall>a. a < s \<or> a > s + length cs \<longrightarrow> m' a = m a)"
proof -
  define sk rest where "sk = takeWhile (\<lambda>c. c \<in> set ds) cs" and "rest = dropWhile (\<lambda>c. c \<in> set ds) cs"
  define t where "t = s + length sk"
  have cs: "cs = sk @ rest" by (simp add: sk_def rest_def)
  have skip: "strtok_skip m d s = Some t"
    using strtok_skip_eq [OF d(2,1) s(2)] by (simp add: t_def sk_def)
  have at: "str_at m t rest" using s(2) unfolding cs str_at_append t_def by blast
  show ?thesis
  proof (cases "rest = []")
    case True
    then have "next_token ds cs = None" by (simp add: next_token_def rest_def)
    moreover have "m t = 0" "t = s + length cs" using at True by (simp_all add: t_def cs)
    ultimately show ?thesis using d(1) s(1) skip by (simp add: strtok_r_def)
  next
    case False
    define tok rest2 where "tok = takeWhile (\<lambda>c. c \<notin> set ds) rest" and "rest2 = dropWhile (\<lambda>c. c \<notin> set ds) rest"
    define e where "e = t + length tok"
    have r: "rest = tok @ rest2" by (simp add: tok_def rest2_def)
    have nt: "next_token ds cs = Some (tok, tl rest2)"
      using False by (simp add: next_token_def tok_def rest2_def rest_def Let_def)
    have scan: "strtok_scan m d t = Some e"
      using strtok_scan_eq [OF d(2,1) at] by (simp add: e_def tok_def)
    have mt: "m t \<noteq> 0" using at False by (cases rest) simp_all
    have at2: "(\<forall>i < length tok. m (t + i) = tok ! i) \<and> 0 \<notin> set tok" "str_at m e rest2"
      using at unfolding r str_at_append e_def by blast+
    show ?thesis
    proof (cases rest2)
      case Nil
      then have "strtok_r m s d save = Some (t, e, m)" "str_at m t tok"
        using d(1) s(1) skip scan mt at2 at r by (simp_all add: strtok_r_def)
      then show ?thesis using nt at2(2) Nil by (simp add: t_def sk_def)
    next
      case (Cons c cs')
      then have run: "strtok_r m s d save = Some (t, e + 1, m(e := 0))"
        using d(1) s(1) skip scan mt at2(2) by (simp add: strtok_r_def)
      have "str_at (m(e := 0)) t tok" using at2(1) by (simp add: str_at_iff e_def)
      moreover have "str_at (m(e := 0)) (e + 1) cs'"
        using at2(2) Cons str_at_cong [of "e + 1" cs' "m(e := 0)" m] by simp
      moreover have "s \<le> e \<and> e \<le> s + length cs" by (simp add: e_def t_def cs r)
      then have "\<forall>a. a < s \<or> a > s + length cs \<longrightarrow> (m(e := 0)) a = m a" by auto
      ultimately show ?thesis using nt run Cons by (simp add: t_def sk_def)
    qed
  qed
qed

section \<open>Properties\<close>

text \<open>
  (C19) \<open>memmove\<close> copies correctly whatever the overlap of the two blocks: afterwards each of the \<open>n\<close>
  bytes at \<open>dst\<close> is the byte \<open>src\<close> had before the call, and every other byte is unchanged.
\<close>

theorem memmove_copies:
  assumes "dst \<noteq> 0" "src \<noteq> 0"
  shows "\<exists>r m'. memmove m dst src n = Some (r, m') \<and> (\<forall>i<n. m' (dst + i) = m (src + i)) \<and>
    (\<forall>a. a < dst \<or> dst + n \<le> a \<longrightarrow> m' a = m a)"
  using assms by (auto simp: memmove_eq copied_def)

theorem memmove_copies_witness:
  "\<exists>r m'. memmove (\<lambda>a. if a = 7 then 1 else if a = 8 then 2 else 0) 8 7 2 = Some (r, m') \<and> m' (8 + 1) = 2"
proof -
  let ?m = "\<lambda>a. if a = 7 then 1 else if a = 8 then 2 else (0 :: u8)"
  obtain r m' where r: "memmove ?m 8 7 2 = Some (r, m')" "\<forall>i<2. m' (8 + i) = ?m (7 + i)"
    using memmove_copies [of 8 7 ?m 2] by auto
  from r(2) [rule_format, of 1] r(1) show ?thesis by auto
qed

text \<open>
  (C20) When the destination lies below the source, \<open>memmove\<close> returns a pointer just past the copy and not
  \<open>DST\<close>, which its comment promises; otherwise it returns \<open>DST\<close>.
\<close>

theorem memmove_returns:
  assumes "dst \<noteq> 0" "src \<noteq> 0"
  shows "map_option fst (memmove m dst src n) = Some (if dst < src then dst + n else dst)"
  using assms by (simp add: memmove_eq)

theorem memmove_returns_witness: "map_option fst (memmove (\<lambda>_. 0) 4 8 2) = Some 6"
  using memmove_returns [of 4 8 "\<lambda>_. 0" 2] by simp

text \<open>
  (C22) \<open>strlcpy\<close> into a separate buffer of \<open>size > 0\<close> bytes stores the longest prefix of the string that
  fits with its terminator, writes nothing outside the buffer, and returns the length of the source.
\<close>

theorem strlcpy_truncates:
  assumes "str_at m src cs" "src \<noteq> 0" "dst \<noteq> 0" "0 < n" "dst + n \<le> src \<or> src + length cs < dst"
  shows "\<exists>m'. strlcpy m dst src n = Some (length cs, m') \<and> str_at m' dst (take (n - 1) cs) \<and>
    (\<forall>a. a < dst \<or> dst + n \<le> a \<longrightarrow> m' a = m a)"
proof -
  define k where "k = min (length cs) (n - 1)"
  have k: "k \<le> length cs" "k \<le> n - 1" "length (take (n - 1) cs) = k" by (simp_all add: k_def min.commute)
  have "(if length cs < n - 1 then length cs else n - 1) = k" by (simp add: k_def)
  moreover have "memcpy m dst src k = Some (dst, copied m dst src k)"
    by (rule memcpy_eq) (use assms k in auto)
  ultimately have "strlcpy m dst src n = Some (length cs, (copied m dst src k)(dst + k := 0))"
    using assms by (simp add: strlcpy_def strlen_eq [OF assms(1,2)] Let_def)
  moreover have "0 \<notin> set (take (n - 1) cs)" using assms(1) unfolding str_at_iff by (meson in_set_takeD)
  then have "str_at ((copied m dst src k)(dst + k := 0)) dst (take (n - 1) cs)"
    using assms(1) k unfolding str_at_iff by (auto simp: copied_def)
  ultimately show ?thesis using k(2) assms(4) by (auto simp: copied_def)
qed

theorem strlcpy_truncates_witness:
  "\<exists>m'. strlcpy (\<lambda>a. if a \<in> {10..12} then of_nat a else 0) 20 10 3 = Some (3, m') \<and> str_at m' 20 [10, 11]"
proof -
  have "str_at (\<lambda>a. if a \<in> {10..12} then of_nat a else 0) 10 [10, 11, 12]" by simp
  from strlcpy_truncates [OF this, of 20 3] show ?thesis by auto
qed

text \<open>
  (C21) One call of \<open>strtok_r\<close> returns.  If nothing but delimiters is left it returns a null pointer and
  changes nothing; otherwise it returns a pointer to the first maximal run of other characters, now
  terminated in place, and \<open>*save_ptr\<close> then holds the rest of the string after the delimiter that ended the
  token.
\<close>

theorem strtok_r_tokenizes:
  assumes "d \<noteq> 0" "str_at m d ds" "s \<noteq> 0" "str_at m s (sk @ tok @ rest)"
    and "set sk \<subseteq> set ds" "set tok \<inter> set ds = {}" "if tok = [] then rest = [] else rest = [] \<or> hd rest \<in> set ds"
  shows "if tok = [] then strtok_r m s d save = Some (0, s + length sk, m)
    else (\<exists>save' m'. strtok_r m s d save = Some (s + length sk, save', m') \<and>
      str_at m' (s + length sk) tok \<and> str_at m' save' (tl rest) \<and>
      (\<forall>a. a < s \<or> a > s + length (sk @ tok @ rest) \<longrightarrow> m' a = m a))"
proof -
  have sk: "takeWhile (\<lambda>c. c \<in> set ds) (sk @ ys) = sk @ takeWhile (\<lambda>c. c \<in> set ds) ys"
    "dropWhile (\<lambda>c. c \<in> set ds) (sk @ ys) = dropWhile (\<lambda>c. c \<in> set ds) ys" for ys
    using assms(5) by (auto simp: takeWhile_append dropWhile_append)
  note eq = strtok_r_eq [OF assms(1-4), of save]
  show ?thesis
  proof (cases tok)
    case Nil
    then show ?thesis using eq assms(7) sk [of "[]"] by (simp add: next_token_def)
  next
    case (Cons c cs)
    have "c \<notin> set ds" using assms(6) Cons by auto
    then have "takeWhile (\<lambda>c. c \<in> set ds) (tok @ rest) = []"
      "dropWhile (\<lambda>c. c \<in> set ds) (tok @ rest) = tok @ rest" by (simp_all add: Cons)
    moreover have "takeWhile (\<lambda>c. c \<notin> set ds) (tok @ rest) = tok" "dropWhile (\<lambda>c. c \<notin> set ds) (tok @ rest) = rest"
      using assms(6,7) Cons by (auto simp: takeWhile_append dropWhile_append disjoint_iff takeWhile_eq_Nil_iff dropWhile_eq_self_iff)
    ultimately have "next_token ds (sk @ tok @ rest) = Some (tok, tl rest)"
      "length (takeWhile (\<lambda>c. c \<in> set ds) (sk @ tok @ rest)) = length sk"
      using Cons by (simp_all add: next_token_def sk)
    then show ?thesis using eq Cons by auto
  qed
qed

theorem strtok_r_tokenizes_witness:
  "\<exists>save' m'. strtok_r (\<lambda>a. if a \<in> {10, 13, 30} then 32 else if a \<in> {11, 12, 14} then 97 else 0) 10 30 0
     = Some (11, save', m') \<and> str_at m' 11 [97, 97] \<and> str_at m' save' [97]"
proof -
  let ?m = "\<lambda>a. if a \<in> {10, 13, 30} then 32 else if a \<in> {11, 12, 14} then 97 else (0 :: u8)"
  have "str_at ?m 30 [32]" "str_at ?m 10 ([32] @ [97, 97] @ [32, 97])" by simp_all
  from strtok_r_tokenizes [OF _ this(1) _ this(2), of 0] show ?thesis by auto
qed

end
