(* ===== verification/Hash_Table.thy ===== *)
theory Hash_Table
  imports Kernel_List C_String
begin

text \<open>
  The chained hash tables of \<open>src/pintos/src/lib/kernel/hash.c\<close>.  A bucket is a kernel list; by the
  lemmas of \<open>Kernel_List\<close> its operations are those of sequences, and a bucket is a sequence here.  The
  elements are pointers to embedded \<open>struct hash_elem\<close>s, the functions \<open>h->hash\<close> and
  \<open>h->less\<close> are parameters, and so is the answer of \<open>malloc\<close> to the request for a new array of buckets.

  The locale \<open>hash_order\<close> is the contract between a table and its users (equal elements have equal hash
  values); under it every operation keeps the table well formed and acts on the set of its elements as its
  comment says, and the iterator visits each element once.
\<close>

section \<open>Operations\<close>

record 'e hash =
  elem_cnt :: nat
  bucket_cnt :: nat
  buckets :: "'e list list"

type_synonym 'e hash_hash_func = "'e \<Rightarrow> u32"

type_synonym 'e hash_less_func = "'e \<Rightarrow> 'e \<Rightarrow> bool"

definition find_bucket :: "'e hash_hash_func \<Rightarrow> 'e hash \<Rightarrow> 'e \<Rightarrow> nat" where
  "find_bucket hash h e = unat (hash e) AND (bucket_cnt h - 1)"

fun find_elem :: "'e hash_less_func \<Rightarrow> 'e list \<Rightarrow> 'e \<Rightarrow> 'e option" where
  "find_elem lt [] e = None"
| "find_elem lt (hi # bucket) e = (if \<not> lt hi e \<and> \<not> lt e hi then Some hi else find_elem lt bucket e)"

definition turn_off_least_1bit :: "nat \<Rightarrow> nat" where
  "turn_off_least_1bit x = x AND (x - 1)"

definition is_power_of_2 :: "nat \<Rightarrow> bool" where
  "is_power_of_2 x \<longleftrightarrow> x \<noteq> 0 \<and> turn_off_least_1bit x = 0"

abbreviation (input) BEST_ELEMS_PER_BUCKET :: nat where
  "BEST_ELEMS_PER_BUCKET \<equiv> 2"

definition insert_elem :: "'e hash \<Rightarrow> nat \<Rightarrow> 'e \<Rightarrow> 'e hash" where
  "insert_elem h b e = h\<lparr>elem_cnt := elem_cnt h + 1, buckets := (buckets h)[b := e # buckets h ! b]\<rparr>"

text \<open>\<open>list_remove\<close> takes an element out of whichever list it is in.\<close>

definition remove_elem :: "'e hash \<Rightarrow> 'e \<Rightarrow> 'e hash" where
  "remove_elem h e = h\<lparr>elem_cnt := elem_cnt h - 1, buckets := map (remove1 e) (buckets h)\<rparr>"

lemma turn_off_less: "0 < x \<Longrightarrow> turn_off_least_1bit x < x"
  using AND_upper2 [of "int (x - 1)" "int x"] by (simp add: turn_off_least_1bit_def and_nat_def nat_less_iff)

text \<open>
  The loop of \<open>rehash\<close> that clears low bits until a power of two is left.  It starts from at least 4; from
  0, where the loop would not end, the function stops.
\<close>

function clear_low_bits :: "nat \<Rightarrow> nat" where
  "clear_low_bits n = (if n = 0 \<or> is_power_of_2 n then n else clear_low_bits (turn_off_least_1bit n))"
  by pat_completeness auto
termination
  by (relation "measure id") (auto simp: turn_off_less)

declare clear_low_bits.simps [simp del]

text \<open>The body of the loop of \<open>rehash\<close> that moves the elements.\<close>

definition place :: "'e hash_hash_func \<Rightarrow> 'e \<Rightarrow> 'e hash \<Rightarrow> 'e hash" where
  "place hash e h = (let b = find_bucket hash h e in h\<lparr>buckets := (buckets h)[b := e # buckets h ! b]\<rparr>)"

text \<open>\<open>new_buckets\<close> is the answer of \<open>malloc\<close>: false for a null pointer.\<close>

definition rehash :: "'e hash_hash_func \<Rightarrow> bool \<Rightarrow> 'e hash \<Rightarrow> 'e hash" where
  "rehash hash new_buckets h =
     (let n = elem_cnt h div BEST_ELEMS_PER_BUCKET;
          n = (if n < 4 then 4 else n);
          n = clear_low_bits n
      in if n = bucket_cnt h then h
         else if \<not> new_buckets then h
         else
           let old_buckets = buckets h;
               h = h\<lparr>bucket_cnt := n, buckets := replicate n []\<rparr>
           in fold (fold (place hash)) old_buckets h)"

definition hash_clear :: "('e \<Rightarrow> 's \<Rightarrow> 's) option \<Rightarrow> 'e hash \<Rightarrow> 's \<Rightarrow> 'e hash \<times> 's" where
  "hash_clear destructor h s =
     (h\<lparr>elem_cnt := 0, buckets := replicate (bucket_cnt h) []\<rparr>,
      case destructor of None \<Rightarrow> s | Some d \<Rightarrow> fold (fold d) (buckets h) s)"

text \<open>The buckets \<open>malloc\<close> returned are not initialised; \<open>hash_clear\<close> initialises them.\<close>

definition hash_init :: "'e list list option \<Rightarrow> 'e hash option" where
  "hash_init blk =
     (case blk of
        None \<Rightarrow> None
      | Some bs \<Rightarrow> Some (fst (hash_clear None \<lparr>elem_cnt = 0, bucket_cnt = 4, buckets = bs\<rparr> ())))"

definition hash_destroy :: "('e \<Rightarrow> 's \<Rightarrow> 's) option \<Rightarrow> 'e hash \<Rightarrow> 's \<Rightarrow> 's" where
  "hash_destroy destructor h s = (if destructor \<noteq> None then snd (hash_clear destructor h s) else s)"

definition hash_find :: "'e hash_hash_func \<Rightarrow> 'e hash_less_func \<Rightarrow> 'e hash \<Rightarrow> 'e \<Rightarrow> 'e option" where
  "hash_find hash lt h e = find_elem lt (buckets h ! find_bucket hash h e) e"

definition hash_insert ::
    "'e hash_hash_func \<Rightarrow> 'e hash_less_func \<Rightarrow> bool \<Rightarrow> 'e hash \<Rightarrow> 'e \<Rightarrow> 'e option \<times> 'e hash" where
  "hash_insert hash lt ok h e =
     (let bucket = find_bucket hash h e;
          old = find_elem lt (buckets h ! bucket) e;
          h = (if old = None then insert_elem h bucket e else h)
      in (old, rehash hash ok h))"

definition hash_replace ::
    "'e hash_hash_func \<Rightarrow> 'e hash_less_func \<Rightarrow> bool \<Rightarrow> 'e hash \<Rightarrow> 'e \<Rightarrow> 'e option \<times> 'e hash" where
  "hash_replace hash lt ok h e =
     (let bucket = find_bucket hash h e;
          old = find_elem lt (buckets h ! bucket) e;
          h = (case old of None \<Rightarrow> h | Some o' \<Rightarrow> remove_elem h o');
          h = insert_elem h bucket e
      in (old, rehash hash ok h))"

definition hash_delete ::
    "'e hash_hash_func \<Rightarrow> 'e hash_less_func \<Rightarrow> bool \<Rightarrow> 'e hash \<Rightarrow> 'e \<Rightarrow> 'e option \<times> 'e hash" where
  "hash_delete hash lt ok h e =
     (case find_elem lt (buckets h ! find_bucket hash h e) e of
        None \<Rightarrow> (None, h)
      | Some found \<Rightarrow> (Some found, rehash hash ok (remove_elem h found)))"

definition hash_apply :: "('e \<Rightarrow> 's \<Rightarrow> 's) \<Rightarrow> 'e hash \<Rightarrow> 's \<Rightarrow> 's" where
  "hash_apply action h s = fold (fold action) (buckets h) s"

definition hash_size :: "'e hash \<Rightarrow> nat" where
  "hash_size h = elem_cnt h"

definition hash_empty :: "'e hash \<Rightarrow> bool" where
  "hash_empty h \<longleftrightarrow> elem_cnt h = 0"

text \<open>
  An iterator is a bucket and a position in it: position 0 is the head of the list, position
  \<open>j + 1\<close> its element \<open>j\<close>, and the position after the last element its tail.
\<close>

record hash_iterator =
  i_bucket :: nat
  i_elem :: nat

definition hash_first :: "hash_iterator" where
  "hash_first = \<lparr>i_bucket = 0, i_elem = 0\<rparr>"

function hash_next_loop :: "'e hash \<Rightarrow> nat \<Rightarrow> nat \<Rightarrow> (nat \<times> nat) option" where
  "hash_next_loop h b p =
     (if b < bucket_cnt h \<and> p = length (buckets h ! b) + 1 then
        if b + 1 \<ge> bucket_cnt h then None else hash_next_loop h (b + 1) 1
      else Some (b, p))"
  by pat_completeness auto
termination
  by (relation "measure (\<lambda>(h, b, p). bucket_cnt h - b)") auto

declare hash_next_loop.simps [simp del]

definition hash_next :: "'e hash \<Rightarrow> hash_iterator \<Rightarrow> ('e \<times> hash_iterator) option" where
  "hash_next h i =
     (case hash_next_loop h (i_bucket i) (i_elem i + 1) of
        None \<Rightarrow> None
      | Some (b, p) \<Rightarrow> Some (buckets h ! b ! (p - 1), \<lparr>i_bucket = b, i_elem = p\<rparr>))"

subsection \<open>Hash functions\<close>

abbreviation (input) FNV_32_PRIME :: u32 where
  "FNV_32_PRIME \<equiv> 16777619"

abbreviation (input) FNV_32_BASIS :: u32 where
  "FNV_32_BASIS \<equiv> 2166136261"

fun hash_bytes_loop :: "memory \<Rightarrow> addr \<Rightarrow> nat \<Rightarrow> u32 \<Rightarrow> u32" where
  "hash_bytes_loop m buf 0 hash = hash"
| "hash_bytes_loop m buf (Suc n) hash =
     hash_bytes_loop m (buf + 1) n ((hash * FNV_32_PRIME) XOR ucast (m buf))"

definition hash_bytes :: "memory \<Rightarrow> addr \<Rightarrow> nat \<Rightarrow> u32 option" where
  "hash_bytes m buf n = do {
     ASSERT (buf \<noteq> 0);
     Some (hash_bytes_loop m buf n FNV_32_BASIS)
   }"

partial_function (option) hash_string_loop :: "memory \<Rightarrow> addr \<Rightarrow> u32 \<Rightarrow> u32 option" where
  "hash_string_loop m s hash =
     (if m s \<noteq> 0 then hash_string_loop m (s + 1) ((hash * FNV_32_PRIME) XOR ucast (m s)) else Some hash)"

definition hash_string :: "memory \<Rightarrow> addr \<Rightarrow> u32 option" where
  "hash_string m s = do {
     ASSERT (s \<noteq> 0);
     hash_string_loop m s FNV_32_BASIS
   }"

text \<open>\<open>hash_int\<close> hashes the four bytes of its argument, a variable at some address \<open>&i\<close>.\<close>

definition hash_int :: "u32 \<Rightarrow> u32" where
  "hash_int i = (let addr_i = 4 in hash_bytes_loop (\<lambda>a. bytes_of_word i ! (a - addr_i)) addr_i 4 FNV_32_BASIS)"

section \<open>Powers of two\<close>

lemma turn_off_odd: "turn_off_least_1bit (2 * y + 1) = 2 * y"
  by (simp add: turn_off_least_1bit_def) (subst and_nat_rec, simp)

lemma turn_off_even: "0 < y \<Longrightarrow> turn_off_least_1bit (2 * y) = 2 * turn_off_least_1bit y"
proof -
  assume "0 < y"
  then have "(2 * y - 1) div 2 = y - 1" by simp
  then show ?thesis by (simp add: turn_off_least_1bit_def) (subst and_nat_rec, simp)
qed

lemma turn_off_above: "2 ^ k < n \<Longrightarrow> n < 2 ^ Suc k \<Longrightarrow> 2 ^ k \<le> turn_off_least_1bit n"
proof (induction k arbitrary: n)
  case (Suc k)
  show ?case
  proof (cases "even n")
    case True
    then obtain y where y: "n = 2 * y" by blast
    then have "2 ^ k \<le> turn_off_least_1bit y" using Suc.prems by (intro Suc.IH) simp_all
    moreover have "0 < y" using Suc.prems(1) y by (cases y) simp_all
    ultimately show ?thesis by (simp add: y turn_off_even)
  next
    case False
    then obtain y where y: "n = 2 * y + 1" by (rule oddE)
    then show ?thesis using Suc.prems(1) turn_off_odd [of y] by simp
  qed
qed simp

lemma turn_off_power: "turn_off_least_1bit (2 ^ k) = 0"
proof (induction k)
  case (Suc k)
  then show ?case using turn_off_even [of "2 ^ k"] by simp
qed (simp add: turn_off_least_1bit_def)

lemma log_bounds: "0 < (n :: nat) \<Longrightarrow> \<exists>k. 2 ^ k \<le> n \<and> n < 2 ^ Suc k"
proof (induction n rule: less_induct)
  case (less n)
  show ?case
  proof (cases "n = 1")
    case True
    then show ?thesis by (intro exI [of _ 0]) simp
  next
    case False
    with less.prems obtain k where "2 ^ k \<le> n div 2" "n div 2 < 2 ^ Suc k"
      using less.IH [of "n div 2"] by auto
    then show ?thesis by (intro exI [of _ "Suc k"]) auto
  qed
qed

lemma is_power_of_2_iff: "is_power_of_2 n \<longleftrightarrow> (\<exists>k. n = 2 ^ k)"
proof
  assume a: "is_power_of_2 n"
  then obtain k where k: "2 ^ k \<le> n" "n < 2 ^ Suc k" using log_bounds [of n] by (auto simp: is_power_of_2_def)
  then have "n = 2 ^ k"
    using a turn_off_above [of k n] by (cases "2 ^ k = n") (auto simp: is_power_of_2_def)
  then show "\<exists>k. n = 2 ^ k" by blast
next
  assume "\<exists>k. n = 2 ^ k"
  then show "is_power_of_2 n" by (auto simp: is_power_of_2_def turn_off_power)
qed

lemma clear_low_bits_power: "2 ^ k \<le> n \<Longrightarrow> n < 2 ^ Suc k \<Longrightarrow> clear_low_bits n = 2 ^ k"
proof (induction n rule: less_induct)
  case (less n)
  show ?case
  proof (cases "n = 2 ^ k")
    case True
    then have "is_power_of_2 n" by (auto simp: is_power_of_2_iff)
    with True show ?thesis by (subst clear_low_bits.simps) simp
  next
    case False
    with less.prems have gt: "2 ^ k < n" by simp
    have le: "2 ^ k \<le> turn_off_least_1bit n" using turn_off_above [OF gt less.prems(2)] .
    moreover have "0 < (2 :: nat) ^ k" by simp
    ultimately have "\<not> is_power_of_2 n" "n \<noteq> 0" using gt unfolding is_power_of_2_def by linarith+
    moreover have lt: "turn_off_least_1bit n < n" using turn_off_less [of n] gt by simp
    moreover have "clear_low_bits (turn_off_least_1bit n) = 2 ^ k"
      using less.IH [OF lt le] lt less.prems(2) by simp
    ultimately show ?thesis by (subst clear_low_bits.simps) simp
  qed
qed

section \<open>Well-formed tables\<close>

definition bag :: "'e hash \<Rightarrow> 'e multiset" where
  "bag h = mset (concat (buckets h))"

definition elems :: "'e hash \<Rightarrow> 'e set" where
  "elems h = set (concat (buckets h))"

definition placed :: "'e hash_hash_func \<Rightarrow> 'e hash \<Rightarrow> bool" where
  "placed hash h \<longleftrightarrow> (\<exists>k. bucket_cnt h = 2 ^ k) \<and> length (buckets h) = bucket_cnt h \<and>
     (\<forall>i < bucket_cnt h. \<forall>e \<in> set (buckets h ! i). find_bucket hash h e = i)"

definition wf_hash :: "'e hash_hash_func \<Rightarrow> 'e hash_less_func \<Rightarrow> 'e hash \<Rightarrow> bool" where
  "wf_hash hash lt h \<longleftrightarrow> placed hash h \<and> elem_cnt h = size (bag h) \<and> distinct (concat (buckets h)) \<and>
     (\<forall>a \<in> elems h. \<forall>b \<in> elems h. same_rank lt a b \<longrightarrow> a = b)"

lemma set_bag [simp]: "set_mset (bag h) = elems h"
  by (simp add: bag_def elems_def)

lemma find_bucket_less: "bucket_cnt h = 2 ^ k \<Longrightarrow> find_bucket hash h e < bucket_cnt h"
proof -
  assume a: "bucket_cnt h = 2 ^ k"
  have "(2 :: nat) ^ k - 1 = mask k" by (simp add: mask_eq_exp_minus_1)
  then show ?thesis unfolding find_bucket_def a by (simp add: take_bit_eq_mask [symmetric])
qed

lemma mset_concat_update:
  "i < length bs \<Longrightarrow> mset (concat (bs[i := e # bs ! i])) = add_mset e (mset (concat bs))"
proof (induction bs arbitrary: i)
  case (Cons b bs)
  then show ?case by (cases i) auto
qed simp

lemma mset_concat_remove:
  "distinct (concat bs) \<Longrightarrow> mset (concat (map (remove1 e) bs)) = mset (concat bs) - {#e#}"
proof (induction bs)
  case (Cons b bs)
  show ?case
  proof (cases "e \<in> set b")
    case True
    then have "e \<notin> set (concat bs)" using Cons.prems by auto
    then have "map (remove1 e) bs = bs" by (auto intro: map_idI simp: remove1_idem)
    with True show ?thesis by (simp add: multiset_eq_iff)
  next
    case False
    then have "count (mset b) e = 0" by (simp add: count_mset_0_iff)
    then have "mset b + mset (concat bs) - {#e#} = mset b + (mset (concat bs) - {#e#})"
      by (intro multiset_eqI) (auto simp del: count_mset_0_iff)
    then show ?thesis using Cons False by (simp add: remove1_idem)
  qed
qed simp

lemma wf_hash_bag:
  "wf_hash hash lt h \<longleftrightarrow> placed hash h \<and> elem_cnt h = size (bag h) \<and> (\<forall>a. count (bag h) a \<le> 1) \<and>
     (\<forall>a \<in> elems h. \<forall>b \<in> elems h. same_rank lt a b \<longrightarrow> a = b)"
proof -
  have "distinct (concat (buckets h)) \<longleftrightarrow> (\<forall>a. count (bag h) a \<le> 1)"
    unfolding bag_def distinct_count_atmost_1
    by (auto simp: not_in_iff [symmetric] count_eq_zero_iff le_Suc_eq)
  then show ?thesis by (simp add: wf_hash_def)
qed

subsection \<open>Placing elements\<close>

lemma place_simps [simp]:
  "bucket_cnt (place hash e h) = bucket_cnt h" "elem_cnt (place hash e h) = elem_cnt h"
  "find_bucket hash' (place hash e h) = find_bucket hash' h"
  by (simp_all add: place_def Let_def find_bucket_def fun_eq_iff)

lemma place_placed:
  assumes "placed hash h"
  shows "placed hash (place hash e h) \<and> bag (place hash e h) = add_mset e (bag h)"
proof -
  have "find_bucket hash h e < length (buckets h)"
    using assms find_bucket_less unfolding placed_def by metis
  moreover from this have "bag (place hash e h) = add_mset e (bag h)"
    by (simp add: place_def Let_def bag_def mset_concat_update)
  ultimately show ?thesis
    using assms by (auto simp: placed_def place_def Let_def nth_list_update find_bucket_def)
qed

lemma fold_place_placed:
  "placed hash h \<Longrightarrow> placed hash (fold (place hash) es h) \<and> bag (fold (place hash) es h) = mset es + bag h \<and>
     elem_cnt (fold (place hash) es h) = elem_cnt h \<and> bucket_cnt (fold (place hash) es h) = bucket_cnt h"
proof (induction es arbitrary: h)
  case (Cons e es)
  from Cons.IH [of "place hash e h"] place_placed [OF Cons.prems, of e] show ?case by simp
qed simp

lemma fold_fold: "fold (fold f) xss s = fold f (concat xss) s"
  by (induction xss arbitrary: s) simp_all

lemma rehash_placed:
  assumes "placed hash h"
  shows "placed hash (rehash hash ok h) \<and> bag (rehash hash ok h) = bag h \<and>
    elem_cnt (rehash hash ok h) = elem_cnt h"
proof -
  define n where "n = (if elem_cnt h div BEST_ELEMS_PER_BUCKET < 4 then 4 else elem_cnt h div BEST_ELEMS_PER_BUCKET)"
  define h0 where "h0 = h\<lparr>bucket_cnt := clear_low_bits n, buckets := replicate (clear_low_bits n) []\<rparr>"
  have re: "rehash hash ok h =
      (if clear_low_bits n = bucket_cnt h \<or> \<not> ok then h else fold (place hash) (concat (buckets h)) h0)"
    unfolding rehash_def n_def [symmetric] fold_fold h0_def Let_def by simp
  have "0 < n" by (simp add: n_def)
  then obtain k where "2 ^ k \<le> n" "n < 2 ^ Suc k" using log_bounds by blast
  then have "clear_low_bits n = 2 ^ k" by (rule clear_low_bits_power)
  then have "placed hash h0" by (auto simp: placed_def h0_def)
  moreover have "bag h0 = {#}" "elem_cnt h0 = elem_cnt h" by (simp_all add: bag_def h0_def)
  ultimately show ?thesis
    using fold_place_placed [of hash h0 "concat (buckets h)"] assms unfolding re by (simp add: bag_def)
qed

lemma rehash_elems: "placed hash h \<Longrightarrow> elems (rehash hash ok h) = elems h"
  using rehash_placed [of hash h ok] unfolding set_bag [symmetric] by simp

lemma rehash_wf: "wf_hash hash lt h \<Longrightarrow> wf_hash hash lt (rehash hash ok h)"
  using rehash_placed [of hash h ok] rehash_elems [of hash h ok] by (simp add: wf_hash_bag)

section \<open>The contract of a table and its users\<close>

locale hash_order = list_order lt for lt :: "'e \<Rightarrow> 'e \<Rightarrow> bool" +
  fixes hash :: "'e \<Rightarrow> u32"
  assumes hash_eq: "same_rank lt a b \<Longrightarrow> hash a = hash b"
begin

lemma same_rank_refl [simp]: "same_rank lt a a"
  using asym [of a a] by (auto simp: same_rank_def)

lemma same_rank_sym: "same_rank lt a b \<Longrightarrow> same_rank lt b a"
  by (simp add: same_rank_def)

lemma same_rank_trans: "same_rank lt a b \<Longrightarrow> same_rank lt b c \<Longrightarrow> same_rank lt a c"
  using neg_trans [of b a c] neg_trans [of b c a] by (auto simp: same_rank_def)

lemma find_elem_Some: "find_elem lt bucket e = Some x \<Longrightarrow> x \<in> set bucket \<and> same_rank lt x e"
  by (induction bucket) (auto simp: same_rank_def split: if_splits)

lemma find_elem_None: "find_elem lt bucket e = None \<Longrightarrow> x \<in> set bucket \<Longrightarrow> \<not> same_rank lt x e"
  by (induction bucket) (auto simp: same_rank_def split: if_splits)

lemma bucket_of:
  assumes "placed hash h" "x \<in> elems h" "same_rank lt x e"
  shows "x \<in> set (buckets h ! find_bucket hash h e)"
proof -
  from assms(2) obtain i where i: "i < length (buckets h)" "x \<in> set (buckets h ! i)"
    by (auto simp: elems_def in_set_conv_nth) (metis in_set_conv_nth)
  with assms(1) have "find_bucket hash h x = i" by (simp add: placed_def)
  moreover have "find_bucket hash h x = find_bucket hash h e"
    using hash_eq [OF assms(3)] by (simp add: find_bucket_def)
  ultimately show ?thesis using i by simp
qed

lemma bucket_elems: "placed hash h \<Longrightarrow> x \<in> set (buckets h ! find_bucket hash h e) \<Longrightarrow> x \<in> elems h"
  unfolding placed_def elems_def using find_bucket_less by fastforce

lemma hash_find_Some:
  "placed hash h \<Longrightarrow> hash_find hash lt h e = Some x \<Longrightarrow> x \<in> elems h \<and> same_rank lt x e"
  unfolding hash_find_def using find_elem_Some bucket_elems by blast

lemma hash_find_None:
  "placed hash h \<Longrightarrow> hash_find hash lt h e = None \<Longrightarrow> x \<in> elems h \<Longrightarrow> \<not> same_rank lt x e"
  unfolding hash_find_def using find_elem_None bucket_of by blast

lemma insert_elem_place: "insert_elem h (find_bucket hash h e) e = (place hash e h)\<lparr>elem_cnt := elem_cnt h + 1\<rparr>"
  by (simp add: insert_elem_def place_def Let_def)

lemma insert_elem_wf:
  assumes wf: "wf_hash hash lt h" and new: "\<And>x. x \<in> elems h \<Longrightarrow> \<not> same_rank lt x e"
  shows "wf_hash hash lt (insert_elem h (find_bucket hash h e) e) \<and>
    elems (insert_elem h (find_bucket hash h e) e) = insert e (elems h)"
proof -
  let ?h = "insert_elem h (find_bucket hash h e) e"
  have p: "placed hash (place hash e h)" "bag (place hash e h) = add_mset e (bag h)"
    using wf place_placed [of hash h e] by (auto simp: wf_hash_def)
  then have bag: "bag ?h = add_mset e (bag h)" and placed: "placed hash ?h"
    unfolding insert_elem_place by (simp_all add: bag_def placed_def find_bucket_def)
  from bag have el: "elems ?h = insert e (elems h)" unfolding set_bag [symmetric] by simp
  have "count (bag h) e = 0" using new [of e] by (auto simp: not_in_iff [symmetric])
  then have "\<forall>a. count (bag ?h) a \<le> 1" using wf by (simp add: wf_hash_bag bag)
  moreover have "\<forall>a \<in> elems ?h. \<forall>b \<in> elems ?h. same_rank lt a b \<longrightarrow> a = b"
    using wf new same_rank_sym unfolding el wf_hash_def by blast
  moreover have "elem_cnt ?h = size (bag ?h)" using wf by (simp add: bag wf_hash_def) (simp add: insert_elem_def)
  ultimately show ?thesis using placed el by (simp add: wf_hash_bag)
qed

lemma remove_elem_wf:
  assumes wf: "wf_hash hash lt h" and x: "x \<in> elems h"
  shows "wf_hash hash lt (remove_elem h x) \<and> elems (remove_elem h x) = elems h - {x} \<and>
    bucket_cnt (remove_elem h x) = bucket_cnt h"
proof -
  have bag: "bag (remove_elem h x) = bag h - {#x#}"
    using wf by (simp add: bag_def remove_elem_def mset_concat_remove wf_hash_def)
  have c: "\<forall>a. count (bag h) a \<le> 1" and p: "placed hash h"
    and u: "\<forall>a \<in> elems h. \<forall>b \<in> elems h. same_rank lt a b \<longrightarrow> a = b" and n: "elem_cnt h = size (bag h)"
    using wf by (simp_all add: wf_hash_bag)
  have "x \<in># bag h" using x by simp
  moreover have "elems (remove_elem h x) = elems h - {x}"
  proof -
    have "count (bag h) x = 1" using c \<open>x \<in># bag h\<close> by (metis One_nat_def Suc_leI antisym count_greater_zero_iff)
    then have "set_mset (bag h - {#x#}) = set_mset (bag h) - {x}"
      by (auto simp: in_diff_count count_greater_zero_iff [symmetric] not_less
          simp del: set_bag count_greater_zero_iff split: if_splits)
    then show ?thesis unfolding set_bag [symmetric] bag .
  qed
  moreover have "placed hash (remove_elem h x)"
    using p set_remove1_subset by (fastforce simp: placed_def remove_elem_def find_bucket_def)
  moreover have "\<forall>a. count (bag h - {#x#}) a \<le> 1"
    using c by (metis count_diff diff_le_self le_trans)
  moreover have "elem_cnt (remove_elem h x) = elem_cnt h - 1" "bucket_cnt (remove_elem h x) = bucket_cnt h"
    by (simp_all add: remove_elem_def)
  ultimately show ?thesis
    using n u unfolding wf_hash_bag bag by (simp add: size_Diff_singleton)
qed

lemma hash_insert_spec:
  assumes wf: "wf_hash hash lt h"
  shows "fst (hash_insert hash lt ok h e) = hash_find hash lt h e"
    and "wf_hash hash lt (snd (hash_insert hash lt ok h e))"
    and "elems (snd (hash_insert hash lt ok h e)) =
      (if hash_find hash lt h e = None then insert e (elems h) else elems h)"
proof -
  have p: "placed hash h" using wf by (simp add: wf_hash_def)
  let ?h = "if hash_find hash lt h e = None then insert_elem h (find_bucket hash h e) e else h"
  have ins: "hash_insert hash lt ok h e = (hash_find hash lt h e, rehash hash ok ?h)"
    by (simp add: hash_insert_def hash_find_def Let_def)
  have wf': "wf_hash hash lt ?h" and el: "elems ?h = (if hash_find hash lt h e = None then insert e (elems h) else elems h)"
    using insert_elem_wf [OF wf, of e] hash_find_None [OF p] wf by auto
  have "placed hash ?h" using wf' by (simp only: wf_hash_def)
  then show "fst (hash_insert hash lt ok h e) = hash_find hash lt h e"
    "wf_hash hash lt (snd (hash_insert hash lt ok h e))"
    "elems (snd (hash_insert hash lt ok h e)) = (if hash_find hash lt h e = None then insert e (elems h) else elems h)"
    using rehash_wf [OF wf'] rehash_elems el unfolding ins fst_conv snd_conv by blast+
qed

lemma hash_delete_spec:
  assumes wf: "wf_hash hash lt h"
  shows "fst (hash_delete hash lt ok h e) = hash_find hash lt h e"
    and "wf_hash hash lt (snd (hash_delete hash lt ok h e))"
    and "elems (snd (hash_delete hash lt ok h e)) = elems h - set_option (hash_find hash lt h e)"
proof -
  have p: "placed hash h" using wf by (simp add: wf_hash_def)
  let ?g = "\<lambda>x. rehash hash ok (remove_elem h x)"
  have "hash_delete hash lt ok h e =
      (hash_find hash lt h e, case hash_find hash lt h e of None \<Rightarrow> h | Some x \<Rightarrow> ?g x)"
    by (simp add: hash_delete_def hash_find_def split: option.split)
  moreover have "wf_hash hash lt (?g x) \<and> elems (?g x) = elems h - {x}" if "hash_find hash lt h e = Some x" for x
  proof -
    note rem = remove_elem_wf [OF wf, of x]
    have "x \<in> elems h" using hash_find_Some [OF p that] by simp
    with rem have "wf_hash hash lt (remove_elem h x)" "elems (remove_elem h x) = elems h - {x}" by simp_all
    moreover from this have "placed hash (remove_elem h x)" by (simp only: wf_hash_def)
    ultimately show ?thesis using rehash_wf rehash_elems by metis
  qed
  ultimately show "fst (hash_delete hash lt ok h e) = hash_find hash lt h e"
    "wf_hash hash lt (snd (hash_delete hash lt ok h e))"
    "elems (snd (hash_delete hash lt ok h e)) = elems h - set_option (hash_find hash lt h e)"
    using wf by (auto split: option.splits)
qed

lemma hash_replace_spec:
  assumes wf: "wf_hash hash lt h"
  shows "fst (hash_replace hash lt ok h e) = hash_find hash lt h e"
    and "wf_hash hash lt (snd (hash_replace hash lt ok h e))"
    and "elems (snd (hash_replace hash lt ok h e)) = insert e (elems h - set_option (hash_find hash lt h e))"
proof -
  have p: "placed hash h" using wf by (simp add: wf_hash_def)
  define h1 where "h1 = (case hash_find hash lt h e of None \<Rightarrow> h | Some x \<Rightarrow> remove_elem h x)"
  have h1: "wf_hash hash lt h1" "elems h1 = elems h - set_option (hash_find hash lt h e)" "bucket_cnt h1 = bucket_cnt h"
    using remove_elem_wf [OF wf] hash_find_Some [OF p] wf by (auto simp: h1_def split: option.split)
  have fb: "find_bucket hash h1 = find_bucket hash h" using h1(3) by (simp add: find_bucket_def fun_eq_iff)
  have rep: "hash_replace hash lt ok h e = (hash_find hash lt h e, rehash hash ok (insert_elem h1 (find_bucket hash h1 e) e))"
    unfolding fb by (simp add: hash_replace_def hash_find_def h1_def Let_def)
  have new: "\<not> same_rank lt x e" if "x \<in> elems h1" for x
  proof (cases "hash_find hash lt h e")
    case None
    then show ?thesis using hash_find_None [OF p] that h1(2) by simp
  next
    case (Some y)
    then have "y \<in> elems h" "same_rank lt e y" "x \<in> elems h" "x \<noteq> y"
      using hash_find_Some [OF p] same_rank_sym that h1(2) by auto
    then show ?thesis using wf same_rank_trans [of x e y] unfolding wf_hash_def by blast
  qed
  let ?h = "insert_elem h1 (find_bucket hash h1 e) e"
  have wf': "wf_hash hash lt ?h" and el: "elems ?h = insert e (elems h1)"
    using insert_elem_wf [OF h1(1) new] by blast+
  have "placed hash ?h" using wf' by (simp only: wf_hash_def)
  then show "fst (hash_replace hash lt ok h e) = hash_find hash lt h e"
    "wf_hash hash lt (snd (hash_replace hash lt ok h e))"
    "elems (snd (hash_replace hash lt ok h e)) = insert e (elems h - set_option (hash_find hash lt h e))"
    using rehash_wf [OF wf'] rehash_elems el unfolding rep fst_conv snd_conv h1(2) by blast+
qed

end

text \<open>Tables in which a 32-bit key of an element is hashed and compared.\<close>

interpretation key_hash: hash_order "\<lambda>a b. key a < key b" "\<lambda>e. hash_int (key e)" for key :: "'e \<Rightarrow> u32"
proof
  fix a b assume "same_rank (\<lambda>a b. key a < key b) a b"
  then have "key a = key b" by (auto simp: same_rank_def)
  then show "hash_int (key a) = hash_int (key b)" by simp
qed

section \<open>A table as a finite map\<close>

datatype 'e hash_op = Insert 'e | Replace 'e | Find 'e | Delete 'e

text \<open>The concrete operations, with one answer of \<open>malloc\<close> for each, and their specification on a map.\<close>

fun hash_step :: "'e hash_hash_func \<Rightarrow> 'e hash_less_func \<Rightarrow> bool \<Rightarrow> 'e hash_op \<Rightarrow> 'e hash \<Rightarrow> 'e option \<times> 'e hash" where
  "hash_step hash lt ok (Insert e) h = hash_insert hash lt ok h e"
| "hash_step hash lt ok (Replace e) h = hash_replace hash lt ok h e"
| "hash_step hash lt ok (Find e) h = (hash_find hash lt h e, h)"
| "hash_step hash lt ok (Delete e) h = hash_delete hash lt ok h e"

fun map_step :: "('e \<Rightarrow> 'k) \<Rightarrow> 'e hash_op \<Rightarrow> ('k \<rightharpoonup> 'e) \<Rightarrow> 'e option \<times> ('k \<rightharpoonup> 'e)" where
  "map_step key (Insert e) m = (m (key e), if m (key e) = None then m(key e \<mapsto> e) else m)"
| "map_step key (Replace e) m = (m (key e), m(key e \<mapsto> e))"
| "map_step key (Find e) m = (m (key e), m)"
| "map_step key (Delete e) m = (m (key e), m(key e := None))"

fun hash_run :: "'e hash_hash_func \<Rightarrow> 'e hash_less_func \<Rightarrow> (bool \<times> 'e hash_op) list \<Rightarrow> 'e hash \<Rightarrow> 'e option list" where
  "hash_run hash lt [] h = []"
| "hash_run hash lt ((ok, p) # ps) h = (let (r, h) = hash_step hash lt ok p h in r # hash_run hash lt ps h)"

fun map_run :: "('e \<Rightarrow> 'k) \<Rightarrow> 'e hash_op list \<Rightarrow> ('k \<rightharpoonup> 'e) \<Rightarrow> 'e option list" where
  "map_run key [] m = []"
| "map_run key (p # ps) m = (let (r, m) = map_step key p m in r # map_run key ps m)"

text \<open>A table represents the map from the keys of its elements to the elements.\<close>

definition represents :: "('e \<Rightarrow> u32) \<Rightarrow> 'e hash \<Rightarrow> (u32 \<rightharpoonup> 'e) \<Rightarrow> bool" where
  "represents key h m \<longleftrightarrow> wf_hash (\<lambda>e. hash_int (key e)) (\<lambda>a b. key a < key b) h \<and>
     (\<forall>e. m (key e) = Some e \<longleftrightarrow> e \<in> elems h) \<and> (\<forall>k e. m k = Some e \<longrightarrow> key e = k)"

lemma same_rank_key: "same_rank (\<lambda>a b. key a < key b) a b \<longleftrightarrow> (key a :: u32) = key b"
  by (auto simp: same_rank_def)

lemma represents_find:
  assumes "represents key h m"
  shows "hash_find (\<lambda>e. hash_int (key e)) (\<lambda>a b. key a < key b) h e = m (key e)"
proof -
  let ?f = "hash_find (\<lambda>e. hash_int (key e)) (\<lambda>a b. key a < key b) h e"
  have p: "placed (\<lambda>e. hash_int (key e)) h" using assms by (simp add: represents_def wf_hash_def)
  show ?thesis
  proof (cases ?f)
    case None
    have "m (key e) \<noteq> Some x" for x
      using key_hash.hash_find_None [OF p None, of x] assms unfolding represents_def same_rank_key by metis
    then show ?thesis using None by (cases "m (key e)") auto
  next
    case (Some x)
    then have "x \<in> elems h" "key x = key e" using key_hash.hash_find_Some [OF p Some] by (simp_all add: same_rank_key)
    then show ?thesis using assms Some unfolding represents_def by metis
  qed
qed

lemma represents_step:
  assumes r: "represents key h m"
  shows "fst (hash_step (\<lambda>e. hash_int (key e)) (\<lambda>a b. key a < key b) ok p h) = fst (map_step key p m) \<and>
    represents key (snd (hash_step (\<lambda>e. hash_int (key e)) (\<lambda>a b. key a < key b) ok p h)) (snd (map_step key p m))"
proof -
  have wf: "wf_hash (\<lambda>e. hash_int (key e)) (\<lambda>a b. key a < key b) h"
    and el: "\<And>e. m (key e) = Some e \<longleftrightarrow> e \<in> elems h" and ky: "\<And>k e. m k = Some e \<Longrightarrow> key e = k"
    using r by (auto simp: represents_def)
  note find = represents_find [OF r]
  show ?thesis
  proof (cases p)
    case (Insert e)
    note s = key_hash.hash_insert_spec [OF wf, of ok e, unfolded find]
    have new: "key x \<noteq> key e" if "m (key e) = None" "x \<in> elems h" for x using el [of x] that by auto
    show ?thesis
    proof (cases "m (key e)")
      case None
      then show ?thesis unfolding Insert hash_step.simps map_step.simps fst_conv snd_conv represents_def
        using s el ky new by auto
    next
      case (Some y)
      then show ?thesis unfolding Insert hash_step.simps map_step.simps fst_conv snd_conv represents_def
        using s el ky by auto
    qed
  next
    case (Replace e)
    note s = key_hash.hash_replace_spec [OF wf, of ok e, unfolded find]
    have "x \<in> elems h - set_option (m (key e)) \<longleftrightarrow> key x \<noteq> key e \<and> x \<in> elems h" for x
      using el [of x] ky [of "key e"] by (cases "m (key e)") auto
    then show ?thesis unfolding Replace hash_step.simps map_step.simps fst_conv snd_conv represents_def
      using s el ky by auto
  next
    case (Find e)
    then show ?thesis using r find by simp
  next
    case (Delete e)
    note s = key_hash.hash_delete_spec [OF wf, of ok e, unfolded find]
    have "x \<in> elems h - set_option (m (key e)) \<longleftrightarrow> key x \<noteq> key e \<and> x \<in> elems h" for x
      using el [of x] ky [of "key e"] by (cases "m (key e)") auto
    then show ?thesis unfolding Delete hash_step.simps map_step.simps fst_conv snd_conv represents_def
      using s el ky by auto
  qed
qed

lemma represents_run:
  "represents key h m \<Longrightarrow>
   hash_run (\<lambda>e. hash_int (key e)) (\<lambda>a b. key a < key b) ps h = map_run key (map snd ps) m"
proof (induction ps arbitrary: h m)
  case (Cons q ps)
  obtain ok p where q: "q = (ok, p)" by (cases q)
  show ?case using represents_step [OF Cons.prems, of ok p] Cons.IH
    by (simp add: q case_prod_unfold Let_def)
qed simp

lemma hash_init_represents: "hash_init (Some bs) = Some h \<Longrightarrow> represents key h Map.empty"
proof -
  assume "hash_init (Some bs) = Some h"
  then have h: "h = \<lparr>elem_cnt = 0, bucket_cnt = 4, buckets = replicate 4 []\<rparr>"
    by (simp add: hash_init_def hash_clear_def)
  have "\<exists>k. (4 :: nat) = 2 ^ k" by (intro exI [of _ 2]) simp
  then show ?thesis by (simp add: h represents_def wf_hash_def placed_def elems_def bag_def)
qed

section \<open>Iteration\<close>

text \<open>The elements the idiom \<open>hash_first; while (hash_next) ...\<close> visits, with \<open>n\<close> bounding the calls.\<close>

fun visit :: "'e hash \<Rightarrow> nat \<Rightarrow> hash_iterator \<Rightarrow> 'e list option" where
  "visit h 0 i = None"
| "visit h (Suc n) i = (case hash_next h i of None \<Rightarrow> Some [] | Some (e, i) \<Rightarrow> map_option ((#) e) (visit h n i))"

lemma hash_next_loop_spec:
  assumes "length (buckets h) = bucket_cnt h" "b < bucket_cnt h" "0 < p" "p \<le> length (buckets h ! b) + 1"
  shows "case hash_next_loop h b p of
      None \<Rightarrow> drop (p - 1) (buckets h ! b) @ concat (drop (Suc b) (buckets h)) = []
    | Some (b', p') \<Rightarrow> b' < bucket_cnt h \<and> 0 < p' \<and> p' \<le> length (buckets h ! b') \<and>
        drop (p - 1) (buckets h ! b) @ concat (drop (Suc b) (buckets h)) =
        drop (p' - 1) (buckets h ! b') @ concat (drop (Suc b') (buckets h))"
  using assms
proof (induction h b p rule: hash_next_loop.induct)
  case (1 h b p)
  show ?case
  proof (cases "p = length (buckets h ! b) + 1")
    case False
    then show ?thesis using "1.prems" by (subst hash_next_loop.simps) simp
  next
    case True
    show ?thesis
    proof (cases "b + 1 < bucket_cnt h")
      case False
      then show ?thesis using True "1.prems" by (subst hash_next_loop.simps) simp
    next
      case b: True
      have "concat (drop (Suc b) (buckets h)) = buckets h ! Suc b @ concat (drop (Suc (Suc b)) (buckets h))"
        using b "1.prems"(1) by (simp add: Cons_nth_drop_Suc [symmetric])
      moreover have "hash_next_loop h b p = hash_next_loop h (b + 1) 1"
        using True b by (subst hash_next_loop.simps) simp
      ultimately show ?thesis
        using "1.IH" True b "1.prems"(1,2) by (auto split: option.splits)
    qed
  qed
qed

lemma visit_spec:
  assumes "length (buckets h) = bucket_cnt h"
  shows "b < bucket_cnt h \<Longrightarrow> p \<le> length (buckets h ! b) \<Longrightarrow>
    n > length (drop p (buckets h ! b) @ concat (drop (Suc b) (buckets h))) \<Longrightarrow>
    visit h n \<lparr>i_bucket = b, i_elem = p\<rparr> = Some (drop p (buckets h ! b) @ concat (drop (Suc b) (buckets h)))"
proof (induction n arbitrary: b p)
  case (Suc n)
  note s = hash_next_loop_spec [OF assms Suc.prems(1), of "p + 1"]
  show ?case
  proof (cases "hash_next_loop h b (p + 1)")
    case None
    then show ?thesis using s Suc.prems by (simp add: hash_next_def)
  next
    case (Some bp)
    obtain b' p' where bp: "bp = (b', p')" by (cases bp)
    let ?rest = "drop (p' - 1) (buckets h ! b') @ concat (drop (Suc b') (buckets h))"
    have r: "b' < bucket_cnt h" "0 < p'" "p' \<le> length (buckets h ! b')"
      "drop p (buckets h ! b) @ concat (drop (Suc b) (buckets h)) = ?rest"
      using s Some bp Suc.prems by simp_all
    have d: "drop (p' - 1) (buckets h ! b') = buckets h ! b' ! (p' - 1) # drop p' (buckets h ! b')"
      using r(2,3) Cons_nth_drop_Suc [of "p' - 1" "buckets h ! b'"] by simp
    have "visit h n \<lparr>i_bucket = b', i_elem = p'\<rparr> = Some (drop p' (buckets h ! b') @ concat (drop (Suc b') (buckets h)))"
      by (rule Suc.IH) (use r d Suc.prems(3) in simp_all)
    then show ?thesis using Some bp r(4) d by (simp add: hash_next_def)
  qed
qed simp

section \<open>Properties\<close>

text \<open>
  (C12) A hash table refines a finite map: for every sequence of insertions, replacements, look-ups
  and deletions, and whatever \<open>malloc\<close> answers to each \<open>rehash\<close>, a table made by \<open>hash_init\<close>
  returns exactly what a map from keys to elements returns.
\<close>

theorem hash_refines_map:
  assumes "hash_init (Some bs) = Some h"
  shows "hash_run (\<lambda>e. hash_int (key e)) (\<lambda>a b. key a < key b) ps h = map_run key (map snd ps) Map.empty"
  using represents_run [OF hash_init_represents [OF assms]] .

theorem hash_refines_map_witness:
  "hash_run (\<lambda>e. hash_int (of_nat e)) (\<lambda>a b. (of_nat a :: u32) < of_nat b)
     [(True, Insert 7), (False, Insert 9), (True, Delete 7), (True, Find (9 :: nat))]
     \<lparr>elem_cnt = 0, bucket_cnt = 4, buckets = replicate 4 []\<rparr> = [None, None, Some 7, Some 9]"
  using hash_refines_map [of "[]" "\<lparr>elem_cnt = 0, bucket_cnt = 4, buckets = replicate 4 []\<rparr>" "of_nat :: nat \<Rightarrow> u32"
    "[(True, Insert 7), (False, Insert 9), (True, Delete 7), (True, Find 9)]"]
  by (simp add: hash_init_def hash_clear_def)

text \<open>
  (C23) The iterator visits every element of a well-formed table exactly once, bucket by bucket, and then
  reports the end.
\<close>

theorem hash_iterator_visits_all:
  assumes "wf_hash hash lt h" "elem_cnt h < n"
  shows "\<exists>xs. visit h n hash_first = Some xs \<and> mset xs = bag h \<and> distinct xs \<and> length xs = hash_size h"
proof -
  have p: "length (buckets h) = bucket_cnt h" "0 < bucket_cnt h" and e: "elem_cnt h = length (concat (buckets h))"
    and d: "distinct (concat (buckets h))"
    using assms(1) by (auto simp: wf_hash_def placed_def bag_def)
  then have c: "buckets h ! 0 @ concat (drop 1 (buckets h)) = concat (buckets h)" by (cases "buckets h") auto
  then have "visit h n hash_first = Some (concat (buckets h))"
    using visit_spec [OF p(1,2), of 0 n] assms(2) e by (simp add: hash_first_def)
  then show ?thesis using d e by (simp add: bag_def hash_size_def)
qed

theorem hash_iterator_visits_all_witness:
  "\<exists>xs. visit \<lparr>elem_cnt = 1, bucket_cnt = 2, buckets = [[], [5 :: nat]]\<rparr> 2 hash_first = Some xs \<and> length xs = 1"
proof -
  let ?h = "\<lparr>elem_cnt = 1, bucket_cnt = 2, buckets = [[], [5 :: nat]]\<rparr>"
  have "\<exists>k. (2 :: nat) = 2 ^ k" by (intro exI [of _ 1]) simp
  then have "wf_hash (\<lambda>_. 1) (<) ?h"
    by (simp add: wf_hash_def placed_def bag_def elems_def find_bucket_def less_2_cases_iff nth_Cons split: nat.split)
  from hash_iterator_visits_all [OF this, of 2] show ?thesis by (auto simp: hash_size_def)
qed

end
