(* ===== verification/Arith64.thy ===== *)
theory Arith64
  imports Pintos_Prelude
begin

text \<open>
  The 64-bit division routines of \<open>src/pintos/src/lib/arithmetic.c\<close>, which the compiler calls for
  \<open>/\<close> and \<open>%\<close> on \<open>long long\<close>.  Unsigned values are natural numbers below \<open>2 ^ 64\<close> and signed ones
  integers; every conversion and every operation that can wrap has its \<open>mod\<close>.  The x86 instruction
  \<open>DIVL\<close> traps if its quotient needs more than 32 bits, and so does a division by zero; a trap is
  \<^term>\<open>None\<close>.

  The lemmas carry out the proof that the comments of \<open>udiv64\<close> sketch or cite.
\<close>

section \<open>Operations\<close>

definition divl :: "nat \<Rightarrow> nat \<Rightarrow> nat option" where
  "divl n d = do {
     ASSERT (d \<noteq> 0);
     let q = n div d;
     ASSERT (q < 2 ^ 32);
     Some q
   }"

text \<open>One of the conditional shifts of \<open>nlz\<close>, on the pair of \<open>n\<close> and \<open>x\<close>.\<close>

definition nlz_step :: "nat \<Rightarrow> nat \<Rightarrow> nat \<times> nat \<Rightarrow> nat \<times> nat" where
  "nlz_step lim k p = (if snd p \<le> lim then (fst p + k, snd p * 2 ^ k mod 2 ^ 32) else p)"

definition nlz :: "nat \<Rightarrow> nat" where
  "nlz x =
     (let p = (0, x);
          p = nlz_step 0x0000FFFF 16 p;
          p = nlz_step 0x00FFFFFF 8 p;
          p = nlz_step 0x0FFFFFFF 4 p;
          p = nlz_step 0x3FFFFFFF 2 p
      in if snd p \<le> 0x7FFFFFFF then fst p + 1 else fst p)"

definition udiv64 :: "nat \<Rightarrow> nat \<Rightarrow> nat option" where
  "udiv64 n d =
     (if d div 2 ^ 32 = 0 then do {
        let b = 2 ^ 32;
        let n1 = n div 2 ^ 32 mod 2 ^ 32;
        let n0 = n mod 2 ^ 32;
        let d0 = d mod 2 ^ 32;
        ASSERT (d0 \<noteq> 0);
        q \<leftarrow> divl ((b * (n1 mod d0) + n0) mod 2 ^ 64) d0;
        Some ((q + b * (n1 div d0)) mod 2 ^ 64)
      }
      else if n < d then Some 0
      else do {
        let d1 = d div 2 ^ 32 mod 2 ^ 32;
        let s = nlz d1;
        q \<leftarrow> divl (n div 2) (d * 2 ^ s mod 2 ^ 64 div 2 ^ 32 mod 2 ^ 32);
        let q = q div 2 ^ (31 - s);
        let q1 = (q + 2 ^ 64 - 1) mod 2 ^ 64;
        Some (if (n + 2 ^ 64 - q1 * d mod 2 ^ 64) mod 2 ^ 64 < d then q1 else q)
      })"

text \<open>\<open>umod64\<close> has the return type \<open>uint32_t\<close>.\<close>

definition umod64 :: "nat \<Rightarrow> nat \<Rightarrow> nat option" where
  "umod64 n d = do {
     q \<leftarrow> udiv64 n d;
     Some ((n + 2 ^ 64 - d * q mod 2 ^ 64) mod 2 ^ 64 mod 2 ^ 32)
   }"

text \<open>The conversions between the signed and the unsigned types of a width.\<close>

definition to_unsigned :: "nat \<Rightarrow> int \<Rightarrow> nat" where
  "to_unsigned w i = nat (i mod 2 ^ w)"

definition to_signed :: "nat \<Rightarrow> int \<Rightarrow> int" where
  "to_signed w i = (let u = i mod 2 ^ w in if u < 2 ^ (w - 1) then u else u - 2 ^ w)"

definition sdiv64 :: "int \<Rightarrow> int \<Rightarrow> int option" where
  "sdiv64 n d = do {
     let n_abs = (if n \<ge> 0 then to_unsigned 64 n else to_unsigned 64 (- n));
     let d_abs = (if d \<ge> 0 then to_unsigned 64 d else to_unsigned 64 (- d));
     q_abs \<leftarrow> udiv64 n_abs d_abs;
     Some (if (n < 0) = (d < 0) then to_signed 64 (int q_abs) else to_signed 64 (- to_signed 64 (int q_abs)))
   }"

text \<open>\<open>smod64\<close> has the return type \<open>int32_t\<close>.\<close>

definition smod64 :: "int \<Rightarrow> int \<Rightarrow> int option" where
  "smod64 n d = do {
     q \<leftarrow> sdiv64 n d;
     Some (to_signed 32 (to_signed 64 (n - d * q)))
   }"

definition divdi3 :: "int \<Rightarrow> int \<Rightarrow> int option" where
  "divdi3 n d = sdiv64 n d"

definition moddi3 :: "int \<Rightarrow> int \<Rightarrow> int option" where
  "moddi3 n d = smod64 n d"

definition udivdi3 :: "nat \<Rightarrow> nat \<Rightarrow> nat option" where
  "udivdi3 n d = udiv64 n d"

definition umoddi3 :: "nat \<Rightarrow> nat \<Rightarrow> nat option" where
  "umoddi3 n d = umod64 n d"

section \<open>Normalisation of the divisor\<close>

text \<open>After the steps down to \<open>m\<close> bits, at most \<open>m\<close> leading zeros are left.\<close>

definition nlz_inv :: "nat \<Rightarrow> nat \<Rightarrow> nat \<times> nat \<Rightarrow> bool" where
  "nlz_inv x m p \<longleftrightarrow> fst p + m \<le> 32 \<and> snd p = x * 2 ^ fst p \<and> 2 ^ (32 - m) \<le> snd p \<and> snd p < 2 ^ 32"

lemma nlz_step_inv:
  assumes inv: "nlz_inv x m p" and m: "m = 2 * k" and lim: "lim = 2 ^ (32 - k) - 1"
  shows "nlz_inv x k (nlz_step lim k p)"
proof (cases "snd p \<le> 2 ^ (32 - k) - 1")
  case False
  then show ?thesis using inv m by (auto simp: nlz_inv_def nlz_step_def lim)
next
  case True
  have k: "2 * k \<le> 32" using inv m by (simp add: nlz_inv_def)
  have "(0 :: nat) < 2 ^ (32 - k)" by simp
  with True have "snd p < 2 ^ (32 - k)" by linarith
  then have "snd p * 2 ^ k < 2 ^ (32 - k) * 2 ^ k" by simp
  also have "(2 :: nat) ^ (32 - k) * 2 ^ k = 2 ^ 32" using k by (simp flip: power_add)
  finally have up: "snd p * 2 ^ k < 2 ^ 32" .
  have "(2 :: nat) ^ (32 - k) = 2 ^ (32 - m) * 2 ^ k"
  proof -
    have "32 - m + k = 32 - k" using m k by linarith
    then show ?thesis by (simp only: power_add [symmetric])
  qed
  also have "\<dots> \<le> snd p * 2 ^ k" using inv by (simp add: nlz_inv_def)
  finally have lo: "2 ^ (32 - k) \<le> snd p * 2 ^ k" .
  have st: "nlz_step lim k p = (fst p + k, snd p * 2 ^ k)" using True up by (simp add: nlz_step_def lim)
  have "snd p * 2 ^ k = x * 2 ^ (fst p + k)" using inv by (simp add: nlz_inv_def power_add)
  moreover have "fst p + k + k \<le> 32" using inv m by (simp add: nlz_inv_def)
  ultimately show ?thesis unfolding nlz_inv_def st fst_conv snd_conv using up lo by blast
qed

lemma nlz_normalises:
  assumes "0 < x" "x < 2 ^ 32"
  shows "nlz x \<le> 31" and "2 ^ 31 \<le> x * 2 ^ nlz x" and "x * 2 ^ nlz x < 2 ^ 32"
proof -
  have "nlz_inv x 32 (0, x)" using assms by (simp add: nlz_inv_def)
  define p1 where "p1 = nlz_step 0x0000FFFF 16 (0, x)"
  define p2 where "p2 = nlz_step 0x00FFFFFF 8 p1"
  define p3 where "p3 = nlz_step 0x0FFFFFFF 4 p2"
  define p4 where "p4 = nlz_step 0x3FFFFFFF 2 p3"
  have "nlz_inv x 16 p1" unfolding p1_def by (rule nlz_step_inv [OF \<open>nlz_inv x 32 (0, x)\<close>]) simp_all
  then have "nlz_inv x 8 p2" unfolding p2_def by (rule nlz_step_inv) simp_all
  then have "nlz_inv x 4 p3" unfolding p3_def by (rule nlz_step_inv) simp_all
  then have "nlz_inv x 2 p4" unfolding p4_def by (rule nlz_step_inv) simp_all
  then have "nlz_inv x 1 (nlz_step 0x7FFFFFFF 1 p4)" by (rule nlz_step_inv) simp_all
  moreover have "nlz x = fst (nlz_step 0x7FFFFFFF 1 p4)"
    unfolding nlz_def Let_def p1_def [symmetric] p2_def [symmetric] p3_def [symmetric] p4_def [symmetric]
    by (simp add: nlz_step_def)
  ultimately show "nlz x \<le> 31" "2 ^ 31 \<le> x * 2 ^ nlz x" "x * 2 ^ nlz x < 2 ^ 32"
    unfolding nlz_inv_def by simp_all
qed

section \<open>Unsigned division\<close>

text \<open>The divisor has at most 32 bits: the identity the comment of \<open>udiv64\<close> proves.\<close>

lemma udiv64_short:
  assumes "n < 2 ^ 64" "0 < d" "d < 2 ^ 32"
  shows "udiv64 n d = Some (n div d)"
proof -
  define n1 n0 where "n1 = n div 2 ^ 32" and "n0 = n mod 2 ^ 32"
  have n: "n = 2 ^ 32 * n1 + n0" "n1 < 2 ^ 32" "n0 < 2 ^ 32"
    using assms(1) by (simp_all add: n1_def n0_def)
  have parts: "n div 2 ^ 32 mod 2 ^ 32 = n1" "n mod 2 ^ 32 = n0" "d div 2 ^ 32 = 0" "d mod 2 ^ 32 = d"
    using n(2) assms(3) by (simp_all add: n1_def n0_def)
  have "n1 mod d + 1 \<le> d" using assms(2) by (simp add: Suc_leI)
  then have "2 ^ 32 * (n1 mod d + 1) \<le> 2 ^ 32 * d" by simp
  then have lt: "2 ^ 32 * (n1 mod d) + n0 < 2 ^ 32 * d" using n(3) by simp
  then have "(2 ^ 32 * (n1 mod d) + n0) div d < 2 ^ 32"
    using assms(2) by (simp add: less_mult_imp_div_less)
  moreover have lt64: "2 ^ 32 * (n1 mod d) + n0 < 2 ^ 64" using lt assms(3) by simp
  moreover have "n div d = (2 ^ 32 * (n1 mod d) + n0) div d + 2 ^ 32 * (n1 div d)"
  proof -
    have "2 ^ 32 * (n1 mod d) + d * (2 ^ 32 * (n1 div d)) = 2 ^ 32 * (n1 mod d + d * (n1 div d))"
      by (simp only: distrib_left mult.left_commute)
    also have "\<dots> = 2 ^ 32 * n1" by simp
    finally have "n = 2 ^ 32 * (n1 mod d) + n0 + d * (2 ^ 32 * (n1 div d))" using n(1) by linarith
    then show ?thesis using assms(2) div_mult_self2 [of d "2 ^ 32 * (n1 mod d) + n0" "2 ^ 32 * (n1 div d)"] by simp
  qed
  moreover have "n div d < 2 ^ 64" using assms(1) by (meson div_le_dividend le_less_trans)
  ultimately show ?thesis
    using assms(2) unfolding udiv64_def Let_def parts divl_def by simp
qed

text \<open>
  The divisor has more than 32 bits: dividing by the 32 leading bits \<open>w\<close> of the divisor, scaled back, gives
  the quotient or one more.
\<close>

lemma quotient_estimate:
  fixes n d w e :: nat
  assumes "0 < w" "d = w + e" "n * e < w * d"
  shows "n div d \<le> n div w" and "n div w \<le> n div d + 1"
proof -
  show "n div d \<le> n div w" using assms(1,2) by (simp add: div_le_mono2)
  let ?q = "n div w"
  show "?q \<le> n div d + 1"
  proof (cases "?q = 0")
    case False
    have q: "?q * w \<le> n" by simp
    have "?q * w * e \<le> n * e" using q by (rule mult_le_mono1)
    moreover have "w * (?q * e) = ?q * w * e" by (simp only: mult_ac)
    ultimately have "w * (?q * e) < w * d" using assms(3) by linarith
    then have "?q * e < d" using nat_mult_less_cancel_disj by blast
    moreover have "(?q - 1) * e + e = ?q * e" using False by (metis Suc_pred' add.commute mult_Suc neq0_conv)
    ultimately have "(?q - 1) * e \<le> w" using assms(2) by linarith
    moreover have "(?q - 1) * w + w = ?q * w" using False by (metis Suc_pred' add.commute mult_Suc neq0_conv)
    moreover have "(?q - 1) * d = (?q - 1) * w + (?q - 1) * e" using assms(2) by (simp only: distrib_left)
    ultimately have "(?q - 1) * d \<le> n" using q by linarith
    then have "?q - 1 \<le> n div d" using assms(1,2) by (simp add: less_eq_div_iff_mult_less_eq)
    then show ?thesis by simp
  qed simp
qed

lemma four_times_le: "4 * P \<le> P * P + (4 :: nat)"
proof (cases "4 \<le> P")
  case True
  then have "4 * P \<le> P * P" by (rule mult_le_mono1)
  then show ?thesis by linarith
next
  case False
  then have "P \<in> {0, 1, 2, 3}" by auto
  then show ?thesis by auto
qed

lemma udiv64_long:
  assumes n: "n < 2 ^ 64" and d: "2 ^ 32 \<le> d" "d \<le> n"
  shows "udiv64 n d = Some (n div d)"
proof -
  define d1 where "d1 = d div 2 ^ 32"
  have d1: "0 < d1" "d1 < 2 ^ 32" "d div 2 ^ 32 mod 2 ^ 32 = d1" using n d by (auto simp: d1_def)
  define s where "s = nlz d1"
  have s: "s \<le> 31" "2 ^ 31 \<le> d1 * 2 ^ s" "d1 * 2 ^ s < 2 ^ 32"
    using nlz_normalises [OF d1(1,2)] by (simp_all add: s_def)
  define P where "P = (2 :: nat) ^ (32 - s)"
  have pow: "P * 2 ^ s = 2 ^ 32" using s(1) by (simp add: P_def flip: power_add)
  have "32 - s = Suc (31 - s)" using s(1) by linarith
  then have P2: "P = 2 * 2 ^ (31 - s)" unfolding P_def by (simp only: power_Suc)
  define v where "v = d * 2 ^ s div 2 ^ 32"
  define w where "w = v * P"
  have d_lt: "d < (d1 + 1) * 2 ^ 32" "d1 * 2 ^ 32 \<le> d" by (simp_all add: d1_def dividend_less_div_times)
  have "d1 * 2 ^ s < P * 2 ^ s" using s(3) pow by simp
  then have d1P: "d1 + 1 \<le> P" by simp
  have D: "d * 2 ^ s < 2 ^ 64"
  proof -
    have "d < P * 2 ^ 32" using d_lt(1) mult_le_mono1 [OF d1P, of "2 ^ 32"] by linarith
    then have "d * 2 ^ s < P * 2 ^ 32 * 2 ^ s" by simp
    also have "\<dots> = 2 ^ 32 * (P * 2 ^ s)" by (simp only: mult_ac)
    finally show ?thesis using pow by simp
  qed
  have v: "2 ^ 31 \<le> v" "v < 2 ^ 32"
  proof -
    have "d1 * 2 ^ 32 * 2 ^ s \<le> d * 2 ^ s" using d_lt(2) by simp
    moreover have "2 ^ 31 * 2 ^ 32 \<le> d1 * 2 ^ s * 2 ^ 32" using s(2) by simp
    moreover have "d1 * 2 ^ s * 2 ^ 32 = d1 * 2 ^ 32 * 2 ^ s" by (simp only: mult_ac)
    ultimately have "2 ^ 31 * 2 ^ 32 \<le> d * 2 ^ s" by linarith
    then show "2 ^ 31 \<le> v" unfolding v_def by (simp add: less_eq_div_iff_mult_less_eq)
    show "v < 2 ^ 32" unfolding v_def using D by (intro less_mult_imp_div_less) simp
  qed
  have wd: "w \<le> d" "d < w + P"
  proof -
    have "v * 2 ^ 32 \<le> d * 2 ^ s" "d * 2 ^ s < (v + 1) * 2 ^ 32"
      unfolding v_def by (simp_all add: dividend_less_div_times)
    then have "w * 2 ^ s \<le> d * 2 ^ s" "d * 2 ^ s < (w + P) * 2 ^ s"
      unfolding w_def pow [symmetric] by (simp_all add: algebra_simps)
    then show "w \<le> d" "d < w + P" by simp_all
  qed
  have w: "2 ^ 31 * P \<le> w" unfolding w_def using v(1) by (rule mult_le_mono1)
  define e where "e = d - w"
  have e: "d = w + e" "e + 1 \<le> P" using wd by (simp_all add: e_def)
  have w0: "0 < w" using w P2 by (cases w) simp_all
  have "n * e < w * d"
  proof -
    have "4 * e + 4 \<le> P * P + 4" using e(2) four_times_le [of P] by linarith
    then have "2 ^ 64 * e \<le> 2 ^ 62 * (P * P)" by simp
    also have "\<dots> = (2 ^ 31 * P) * (2 ^ 31 * P)" by simp
    also have "\<dots> \<le> w * d" using w wd(1) by (intro mult_le_mono) simp_all
    finally have "2 ^ 64 * e \<le> w * d" .
    moreover have "n * e < 2 ^ 64 * e" if "e \<noteq> 0" using n that by simp
    moreover have "0 < w * d" using w0 wd(1) by simp
    ultimately show ?thesis by (cases "e = 0") (simp, linarith)
  qed
  note est = quotient_estimate [OF w0 e(1) this]
  define q where "q = n div w"
  have q: "n div 2 div v div 2 ^ (31 - s) = q"
    unfolding q_def w_def P2 by (simp only: div_mult2_eq [symmetric] mult_ac)
  have "1 \<le> n div d" using d(2) w0 wd(1) by (simp add: div_greater_zero_iff Suc_leI)
  then have q1: "1 \<le> q" "q - 1 \<le> n div d" "n div d \<le> q" using est unfolding q_def by linarith+
  have "q \<le> n" unfolding q_def by simp
  then have wrap: "(q + 2 ^ 64 - 1) mod 2 ^ 64 = q - 1"
  proof -
    have "q + 2 ^ 64 - 1 = (q - 1) + 2 ^ 64" using q1(1) by linarith
    moreover have "q - 1 < 2 ^ 64" using \<open>q \<le> n\<close> n by linarith
    ultimately show ?thesis by (simp only: mod_add_self2 mod_less)
  qed
  have le: "(q - 1) * d \<le> n" using q1(2) w0 wd(1) by (simp add: less_eq_div_iff_mult_less_eq)
  then have sub: "(n + 2 ^ 64 - (q - 1) * d mod 2 ^ 64) mod 2 ^ 64 = n - (q - 1) * d"
  proof -
    have "(q - 1) * d mod 2 ^ 64 = (q - 1) * d" using le n by simp
    moreover have "n + 2 ^ 64 - (q - 1) * d = (n - (q - 1) * d) + 2 ^ 64" using le by linarith
    moreover have "n - (q - 1) * d < 2 ^ 64" using n by linarith
    ultimately show ?thesis by (simp only: mod_add_self2 mod_less)
  qed
  have res: "(if n - (q - 1) * d < d then q - 1 else q) = n div d"
  proof (cases "n - (q - 1) * d < d")
    case True
    then have "n < (q - 1 + 1) * d" using le by (simp add: distrib_right)
    then have "n div d < q" using q1(1) by (simp add: less_mult_imp_div_less)
    then show ?thesis using True q1(2) by simp
  next
    case False
    then have "(q - 1) * d + d \<le> n" using le by linarith
    moreover have "(q - 1) * d + d = q * d" using q1(1) by (metis Suc_pred' add.commute mult_Suc less_eq_Suc_le One_nat_def)
    ultimately have "q \<le> n div d" using w0 wd(1) by (simp add: less_eq_div_iff_mult_less_eq)
    then show ?thesis using False q1(3) by simp
  qed
  have "n div 2 div v < 2 ^ 32"
  proof -
    have "n div 2 < 2 ^ 31 * 2 ^ 32" using n by simp
    also have "\<dots> \<le> v * 2 ^ 32" using v(1) by simp
    finally show ?thesis by (simp add: less_mult_imp_div_less mult.commute)
  qed
  moreover have vv: "d * 2 ^ s mod 2 ^ 64 div 2 ^ 32 mod 2 ^ 32 = v" using D v(2) by (simp add: v_def)
  moreover have "(v = 0) = False" using v(1) by (cases v) simp_all
  moreover have "(d div 2 ^ 32 = 0) = False" using d1(1) unfolding d1_def by simp
  moreover have "(n < d) = False" using d(2) by simp
  ultimately show ?thesis
    unfolding udiv64_def Let_def d1(3) s_def [symmetric] divl_def vv
    by (simp only: if_False not_False_eq_True ASSERT_bind Option.bind.simps q wrap sub res)
qed

lemma udiv64_eq:
  assumes "n < 2 ^ 64" "0 < d" "d < 2 ^ 64"
  shows "udiv64 n d = Some (n div d)"
proof -
  consider "d < 2 ^ 32" | "2 ^ 32 \<le> d \<and> d \<le> n" | "2 ^ 32 \<le> d \<and> n < d" by linarith
  then show ?thesis
  proof cases
    case 1
    then show ?thesis using udiv64_short assms by blast
  next
    case 2
    then show ?thesis using udiv64_long assms by blast
  next
    case 3
    then have "(d div 2 ^ 32 = 0) = False" by (simp add: div_eq_0_iff)
    with 3 show ?thesis unfolding udiv64_def by (simp only: if_False if_True div_less)
  qed
qed

lemma umod64_eq:
  assumes "n < 2 ^ 64" "0 < d" "d < 2 ^ 64"
  shows "umod64 n d = Some (n mod d mod 2 ^ 32)"
proof -
  have le: "d * (n div d) \<le> n" by simp
  then have "d * (n div d) mod 2 ^ 64 = d * (n div d)" using assms(1) by (meson le_less_trans mod_less)
  moreover have "n + 2 ^ 64 - d * (n div d) = n mod d + 2 ^ 64"
    using le mult_div_mod_eq [of d n] by linarith
  moreover have "n mod d < 2 ^ 64" using assms(1) mod_less_eq_dividend [of n d] by linarith
  ultimately show ?thesis unfolding umod64_def udiv64_eq [OF assms]
    by (simp only: Option.bind.simps mod_add_self2 mod_less)
qed

section \<open>Signed division\<close>

lemma to_signed_id: "- (2 ^ 63) \<le> i \<Longrightarrow> i < 2 ^ 63 \<Longrightarrow> to_signed 64 i = i"
proof -
  assume a: "- (2 ^ 63) \<le> i" "i < 2 ^ 63"
  show ?thesis
  proof (cases "0 \<le> i")
    case True
    then show ?thesis using a by (simp add: to_signed_def)
  next
    case False
    then have "(i + 2 ^ 64) mod 2 ^ 64 = i + 2 ^ 64" using a by (intro mod_pos_pos_trivial) simp_all
    then have "i mod 2 ^ 64 = i + 2 ^ 64" by (simp only: mod_add_self2)
    then show ?thesis using a False by (simp add: to_signed_def)
  qed
qed

lemma cdiv_abs: "d \<noteq> 0 \<Longrightarrow> cdiv n d = (if (n < 0) = (d < 0) then \<bar>n\<bar> div \<bar>d\<bar> else - (\<bar>n\<bar> div \<bar>d\<bar>))"
  by (auto simp: cdiv_def sgn_if)

lemma sdiv64_eq:
  assumes n: "- (2 ^ 63) \<le> n" "n < 2 ^ 63" and d: "- (2 ^ 63) \<le> d" "d < 2 ^ 63" "d \<noteq> 0"
    and no_overflow: "\<not> (n = - (2 ^ 63) \<and> d = - 1)"
  shows "sdiv64 n d = Some (cdiv n d)"
proof -
  define a b where "a = nat \<bar>n\<bar>" and "b = nat \<bar>d\<bar>"
  have ab: "int a = \<bar>n\<bar>" "int b = \<bar>d\<bar>" "a \<le> 2 ^ 63" "b \<le> 2 ^ 63" "0 < b"
    using n d by (auto simp: a_def b_def nat_le_iff)
  have abs: "(if n \<ge> 0 then to_unsigned 64 n else to_unsigned 64 (- n)) = a"
    "(if d \<ge> 0 then to_unsigned 64 d else to_unsigned 64 (- d)) = b"
    using n d by (auto simp: to_unsigned_def a_def b_def abs_if)
  have q: "udiv64 a b = Some (a div b)" by (rule udiv64_eq) (use ab in simp_all)
  have iq: "int (a div b) = \<bar>n\<bar> div \<bar>d\<bar>" using ab by (simp add: zdiv_int)
  have le: "a div b \<le> 2 ^ 63" using ab(3) by (meson div_le_dividend le_trans)
  show ?thesis
  proof (cases "a div b = 2 ^ 63")
    case False
    then have "a div b < 2 ^ 63" using le by linarith
    then have lt: "int (a div b) < 2 ^ 63" by (metis of_nat_less_iff of_nat_numeral of_nat_power)
    then have "to_signed 64 (int (a div b)) = int (a div b)"
      "to_signed 64 (- int (a div b)) = - int (a div b)" by (simp_all add: to_signed_id)
    then show ?thesis unfolding sdiv64_def Let_def abs q by (simp add: cdiv_abs [OF d(3)] iq)
  next
    case True
    have "a = 2 ^ 63 \<and> b = 1"
    proof -
      have "a div b * b \<le> a" by simp
      then have "2 ^ 63 * b \<le> a" using True by simp
      with ab(3,5) show ?thesis by (cases "b = 1") auto
    qed
    then have nd: "n = - (2 ^ 63)" "d = 1 \<or> d = - 1" using ab(1,2) n(2) by auto
    with no_overflow have "d = 1" by blast
    moreover have "to_signed 64 (- to_signed 64 (int (a div b))) = - (2 ^ 63)" using True by (simp add: to_signed_def)
    ultimately show ?thesis unfolding sdiv64_def Let_def abs q using nd by (simp add: cdiv_abs)
  qed
qed

section \<open>Properties\<close>

text \<open>
  (C24) Unsigned 64-bit division is correct for every dividend and every nonzero divisor: neither of the two
  uses of \<open>DIVL\<close> traps, no intermediate result wraps in a way that matters, and the result is the quotient.
\<close>

theorem udivdi3_correct:
  assumes "n < 2 ^ 64" "0 < d" "d < 2 ^ 64"
  shows "udivdi3 n d = Some (n div d)"
  using udiv64_eq [OF assms] by (simp add: udivdi3_def)

theorem udivdi3_correct_witness: "udivdi3 (2 ^ 63 + 5) (2 ^ 40 + 1) = Some ((2 ^ 63 + 5) div (2 ^ 40 + 1))"
  using udivdi3_correct [of "2 ^ 63 + 5" "2 ^ 40 + 1"] by simp

text \<open>
  (C25) Signed 64-bit division truncates towards zero as C requires, for all operands except a zero divisor
  and \<open>-2 ^ 63 / -1\<close>, whose quotient is not representable.
\<close>

theorem divdi3_correct:
  assumes "- (2 ^ 63) \<le> n" "n < 2 ^ 63" "- (2 ^ 63) \<le> d" "d < 2 ^ 63" "d \<noteq> 0"
    and "\<not> (n = - (2 ^ 63) \<and> d = - 1)"
  shows "divdi3 n d = Some (cdiv n d)"
  using sdiv64_eq [OF assms] by (simp add: divdi3_def)

theorem divdi3_correct_witness: "divdi3 (- 7) 2 = Some (- 3)"
  using divdi3_correct [of "- 7" 2] by (simp add: cdiv_def)

text \<open>
  (C26) The remainder is not correct: \<open>umod64\<close> returns a 32-bit type, so \<open>__umoddi3\<close> yields only the low
  32 bits of the remainder, which for a divisor above \<open>2 ^ 32\<close> is in general a different number.
\<close>

theorem umoddi3_truncates:
  assumes "n < 2 ^ 64" "0 < d" "d < 2 ^ 64"
  shows "umoddi3 n d = Some (n mod d mod 2 ^ 32) \<and> umoddi3 (2 ^ 32) (2 ^ 33) \<noteq> Some (2 ^ 32 mod 2 ^ 33)"
  using umod64_eq [OF assms] umod64_eq [of "2 ^ 32" "2 ^ 33"] by (simp_all add: umoddi3_def)

theorem umoddi3_truncates_witness: "umoddi3 (2 ^ 32 + 3) (2 ^ 33) = Some 3"
  using umoddi3_truncates [of "2 ^ 32 + 3" "2 ^ 33"] by simp

end
