(* ===== verification/C_Stdlib.thy ===== *)
theory C_Stdlib
  imports Kernel_List C_String
begin

text \<open>
  The functions of \<open>src/pintos/src/lib/stdlib.c\<close> (heap sort, binary search, \<open>atoi\<close>) with the
  character classes of \<open>ctype.h\<close> they use, and the pseudo-random generator of
  \<open>src/pintos/src/lib/random.c\<close> with the cipher of \<open>src/pintos/src/tests/arc4.c\<close> it implements again.  An array of \<open>cnt\<close> elements of \<open>size\<close> bytes is the list of its
  elements; \<open>do_swap\<close> exchanges all bytes of two of them.  Indices are 1-based as in the source, and an index
  outside the array is undefined there and \<^term>\<open>None\<close> here.
\<close>

section \<open>Operations\<close>

subsection \<open>Sorting\<close>

definition elem_at :: "'a list \<Rightarrow> nat \<Rightarrow> 'a" where
  "elem_at array i = array ! (i - 1)"

definition do_swap :: "'a list \<Rightarrow> nat \<Rightarrow> nat \<Rightarrow> 'a list option" where
  "do_swap array a_idx b_idx = do {
     ASSERT (1 \<le> a_idx \<and> a_idx \<le> length array);
     ASSERT (1 \<le> b_idx \<and> b_idx \<le> length array);
     Some (array[a_idx - 1 := elem_at array b_idx, b_idx - 1 := elem_at array a_idx])
   }"

definition do_compare :: "('a \<Rightarrow> 'a \<Rightarrow> int) \<Rightarrow> 'a list \<Rightarrow> nat \<Rightarrow> nat \<Rightarrow> int option" where
  "do_compare compare array a_idx b_idx = do {
     ASSERT (1 \<le> a_idx \<and> a_idx \<le> length array);
     ASSERT (1 \<le> b_idx \<and> b_idx \<le> length array);
     Some (compare (elem_at array a_idx) (elem_at array b_idx))
   }"

text \<open>The choice of \<open>max\<close> in the body of \<open>heapify\<close>.\<close>

definition heapify_max :: "('a \<Rightarrow> 'a \<Rightarrow> int) \<Rightarrow> 'a list \<Rightarrow> nat \<Rightarrow> nat \<Rightarrow> nat option" where
  "heapify_max compare array i cnt = do {
     let left = 2 * i;
     let right = 2 * i + 1;
     mx \<leftarrow> (if left \<le> cnt then do {
                 c \<leftarrow> do_compare compare array left i;
                 Some (if c > 0 then left else i)
               }
             else Some i);
     if right \<le> cnt then do {
       c \<leftarrow> do_compare compare array right mx;
       Some (if c > 0 then right else mx)
     }
     else Some mx
   }"

partial_function (option) heapify :: "('a \<Rightarrow> 'a \<Rightarrow> int) \<Rightarrow> 'a list \<Rightarrow> nat \<Rightarrow> nat \<Rightarrow> 'a list option" where
  "heapify compare array i cnt = do {
     mx \<leftarrow> heapify_max compare array i cnt;
     if mx = i then Some array
     else do {
       array \<leftarrow> do_swap array i mx;
       heapify compare array mx cnt
     }
   }"

fun build_heap :: "('a \<Rightarrow> 'a \<Rightarrow> int) \<Rightarrow> 'a list \<Rightarrow> nat \<Rightarrow> nat \<Rightarrow> 'a list option" where
  "build_heap compare array 0 cnt = Some array"
| "build_heap compare array (Suc i) cnt = do {
     array \<leftarrow> heapify compare array (Suc i) cnt;
     build_heap compare array i cnt
   }"

fun sort_heap :: "('a \<Rightarrow> 'a \<Rightarrow> int) \<Rightarrow> 'a list \<Rightarrow> nat \<Rightarrow> 'a list option" where
  "sort_heap compare array (Suc (Suc i)) = do {
     array \<leftarrow> do_swap array 1 (Suc (Suc i));
     array \<leftarrow> heapify compare array 1 (Suc i);
     sort_heap compare array (Suc i)
   }"
| "sort_heap compare array _ = Some array"

definition sort_array :: "('a \<Rightarrow> 'a \<Rightarrow> int) \<Rightarrow> 'a list \<Rightarrow> nat \<Rightarrow> 'a list option" where
  "sort_array compare array cnt = do {
     array \<leftarrow> build_heap compare array (cnt div 2) cnt;
     sort_heap compare array cnt
   }"

definition qsort :: "('a \<Rightarrow> 'a \<Rightarrow> int) \<Rightarrow> 'a list \<Rightarrow> nat \<Rightarrow> 'a list option" where
  "qsort compare array cnt = sort_array compare array cnt"

subsection \<open>Searching\<close>

text \<open>\<open>first\<close> and \<open>last\<close> as 0-based element indices; the result is the index of \<open>middle\<close>.\<close>

function binary_search_loop :: "('k \<Rightarrow> 'a \<Rightarrow> int) \<Rightarrow> 'k \<Rightarrow> 'a list \<Rightarrow> nat \<Rightarrow> nat \<Rightarrow> nat option" where
  "binary_search_loop compare key array first lst =
     (if first < lst then
        let range = lst - first;
            middle = first + range div 2;
            cmp = compare key (array ! middle)
        in if cmp < 0 then binary_search_loop compare key array first middle
           else if cmp > 0 then binary_search_loop compare key array (middle + 1) lst
           else Some middle
      else None)"
  by pat_completeness auto
termination
  by (relation "measure (\<lambda>(compare, key, array, first, lst). lst - first)") auto

declare binary_search_loop.simps [simp del]

definition binary_search :: "('k \<Rightarrow> 'a \<Rightarrow> int) \<Rightarrow> 'k \<Rightarrow> 'a list \<Rightarrow> nat option" where
  "binary_search compare key array = binary_search_loop compare key array 0 (length array)"

definition bsearch :: "('k \<Rightarrow> 'a \<Rightarrow> int) \<Rightarrow> 'k \<Rightarrow> 'a list \<Rightarrow> nat option" where
  "bsearch compare key array = binary_search compare key array"

subsection \<open>Numbers in decimal\<close>

definition isdigit :: "u8 \<Rightarrow> bool" where
  "isdigit c \<longleftrightarrow> 48 \<le> c \<and> c \<le> 57"

definition isspace :: "u8 \<Rightarrow> bool" where
  "isspace c \<longleftrightarrow> c = 32 \<or> c = 12 \<or> c = 10 \<or> c = 13 \<or> c = 9 \<or> c = 11"

partial_function (option) atoi_skip :: "memory \<Rightarrow> addr \<Rightarrow> addr option" where
  "atoi_skip m s = (if isspace (m s) then atoi_skip m (s + 1) else Some s)"

partial_function (option) atoi_digits :: "memory \<Rightarrow> addr \<Rightarrow> int \<Rightarrow> int option" where
  "atoi_digits m s val =
     (if isdigit (m s) then atoi_digits m (s + 1) (wrap_int (val * 10 - (uint (m s) - 48))) else Some val)"

definition atoi :: "memory \<Rightarrow> addr \<Rightarrow> int option" where
  "atoi m s = do {
     ASSERT (s \<noteq> 0);
     s \<leftarrow> atoi_skip m s;
     let (negative, s) = (if m s = 43 then (False, s + 1) else if m s = 45 then (True, s + 1) else (False, s));
     val \<leftarrow> atoi_digits m s 0;
     Some (if \<not> negative then wrap_int (- val) else val)
   }"

subsection \<open>Pseudo-random numbers\<close>

record rc4 =
  s_box :: "u8 list"
  s_i :: u8
  s_j :: u8
  inited :: bool

definition swap_byte :: "u8 list \<Rightarrow> nat \<Rightarrow> nat \<Rightarrow> u8 list" where
  "swap_byte s a b = s[a := s ! b, b := s ! a]"

fun random_init_loop :: "u8 list \<Rightarrow> nat \<Rightarrow> u8 \<Rightarrow> nat \<Rightarrow> u8 list \<Rightarrow> u8 list" where
  "random_init_loop seedp i j 0 s = s"
| "random_init_loop seedp i j (Suc n) s =
     (let j = j + s ! i + seedp ! (i mod 4)
      in random_init_loop seedp (i + 1) j n (swap_byte s i (unat j)))"

definition random_init :: "u32 \<Rightarrow> rc4" where
  "random_init seed =
     \<lparr>s_box = random_init_loop (bytes_of_word seed) 0 0 256 (map of_nat [0..<256]),
      s_i = 0, s_j = 0, inited = True\<rparr>"

fun random_bytes_loop :: "rc4 \<Rightarrow> nat \<Rightarrow> u8 list \<times> rc4" where
  "random_bytes_loop r 0 = ([], r)"
| "random_bytes_loop r (Suc n) =
     (let r = r\<lparr>s_i := s_i r + 1\<rparr>;
          r = r\<lparr>s_j := s_j r + s_box r ! unat (s_i r)\<rparr>;
          r = r\<lparr>s_box := swap_byte (s_box r) (unat (s_i r)) (unat (s_j r))\<rparr>;
          s_k = s_box r ! unat (s_i r) + s_box r ! unat (s_j r);
          (bs, r') = random_bytes_loop r n
      in (s_box r ! unat s_k # bs, r'))"

definition random_bytes :: "rc4 \<Rightarrow> nat \<Rightarrow> u8 list \<times> rc4" where
  "random_bytes r n = random_bytes_loop (if inited r then r else random_init 0) n"

definition random_ulong :: "rc4 \<Rightarrow> u32 \<times> rc4" where
  "random_ulong r = (let (bs, r) = random_bytes r 4 in (hd (words_of_bytes bs), r))"

text \<open>
  The implementation of the same cipher in \<open>src/pintos/src/tests/arc4.c\<close>: a key of any size, indices kept as
  \<open>int\<close> and reduced by \<open>& 255\<close>, and a buffer that is encrypted in place.
\<close>

record arc4 =
  arc4_s :: "u8 list"
  arc4_i :: u8
  arc4_j :: u8

fun arc4_init_loop :: "u8 list \<Rightarrow> nat \<Rightarrow> nat \<Rightarrow> nat \<Rightarrow> nat \<Rightarrow> nat \<Rightarrow> u8 list \<Rightarrow> u8 list" where
  "arc4_init_loop key len key_idx i j 0 s = s"
| "arc4_init_loop key len key_idx i j (Suc n) s =
     (let j = (j + unat (s ! i) + unat (key ! key_idx)) AND 255;
          s = swap_byte s i j;
          key_idx = (if len \<le> key_idx + 1 then 0 else key_idx + 1)
      in arc4_init_loop key len key_idx (i + 1) j n s)"

definition arc4_init :: "u8 list \<Rightarrow> nat \<Rightarrow> arc4" where
  "arc4_init key len =
     \<lparr>arc4_s = arc4_init_loop key len 0 0 0 256 (map of_nat [0..<256]), arc4_i = 0, arc4_j = 0\<rparr>"

fun arc4_crypt :: "arc4 \<Rightarrow> u8 list \<Rightarrow> u8 list \<times> arc4" where
  "arc4_crypt a [] = ([], a)"
| "arc4_crypt a (b # bs) =
     (let i = arc4_i a + 1;
          j = arc4_j a + arc4_s a ! unat i;
          s = swap_byte (arc4_s a) (unat i) (unat j);
          c = b XOR s ! ((unat (s ! unat i) + unat (s ! unat j)) AND 255);
          (cs, a') = arc4_crypt \<lparr>arc4_s = s, arc4_i = i, arc4_j = j\<rparr> bs
      in (c # cs, a'))"


section \<open>Heaps\<close>

text \<open>The element at index \<open>k\<close> is not exceeded by its children, for every \<open>k\<close> from \<open>lo\<close> on.\<close>

definition heap_from :: "('a \<Rightarrow> 'a \<Rightarrow> int) \<Rightarrow> 'a list \<Rightarrow> nat \<Rightarrow> nat \<Rightarrow> bool" where
  "heap_from compare array lo cnt \<longleftrightarrow>
     (\<forall>k c. lo \<le> k \<longrightarrow> c div 2 = k \<longrightarrow> c \<le> cnt \<longrightarrow> \<not> compare (elem_at array c) (elem_at array k) > 0)"

text \<open>The same with the exception of \<open>i\<close>, whose children are bounded by its parent.\<close>

definition heap_except :: "('a \<Rightarrow> 'a \<Rightarrow> int) \<Rightarrow> 'a list \<Rightarrow> nat \<Rightarrow> nat \<Rightarrow> nat \<Rightarrow> bool" where
  "heap_except compare array lo cnt i \<longleftrightarrow>
     (\<forall>k c. lo \<le> k \<longrightarrow> k \<noteq> i \<longrightarrow> c div 2 = k \<longrightarrow> c \<le> cnt \<longrightarrow> \<not> compare (elem_at array c) (elem_at array k) > 0) \<and>
     (\<forall>c. lo \<le> i div 2 \<longrightarrow> c div 2 = i \<longrightarrow> c \<le> cnt \<longrightarrow> \<not> compare (elem_at array c) (elem_at array (i div 2)) > 0)"

lemma do_swap_eq:
  assumes "1 \<le> a" "a \<le> length array" "1 \<le> b" "b \<le> length array"
  shows "\<exists>array'. do_swap array a b = Some array' \<and> length array' = length array \<and> mset array' = mset array \<and>
    elem_at array' a = elem_at array b \<and> elem_at array' b = elem_at array a \<and>
    (\<forall>k. 1 \<le> k \<longrightarrow> k \<noteq> a \<longrightarrow> k \<noteq> b \<longrightarrow> elem_at array' k = elem_at array k) \<and>
    (\<forall>n. a \<le> n \<longrightarrow> b \<le> n \<longrightarrow> drop n array' = drop n array)"
proof -
  let ?b = "array[a - 1 := elem_at array b, b - 1 := elem_at array a]"
  have "do_swap array a b = Some ?b" using assms by (simp add: do_swap_def)
  moreover have "mset ?b = mset array"
    unfolding elem_at_def by (rule mset_swap) (use assms in simp_all)
  moreover have "elem_at ?b a = elem_at array b" "elem_at ?b b = elem_at array a"
    using assms by (auto simp: elem_at_def nth_list_update)
  moreover have "elem_at ?b k = elem_at array k" if "1 \<le> k" "k \<noteq> a" "k \<noteq> b" for k
  proof -
    have "k - 1 \<noteq> a - 1" "k - 1 \<noteq> b - 1" using that assms by simp_all
    then show ?thesis by (simp add: elem_at_def)
  qed
  moreover have "drop n ?b = drop n array" if "a \<le> n" "b \<le> n" for n
    using that assms by simp
  ultimately show ?thesis by (metis length_list_update)
qed

text \<open>The elements behind the heap are sorted and none of the heap's elements exceeds one of them.\<close>

definition sorted_tail :: "('a \<Rightarrow> 'a \<Rightarrow> int) \<Rightarrow> 'a list \<Rightarrow> nat \<Rightarrow> bool" where
  "sorted_tail compare array n \<longleftrightarrow> sorted_wrt (\<lambda>x y. \<not> compare x y > 0) (drop n array) \<and>
     (\<forall>x \<in> set (take n array). \<forall>y \<in> set (drop n array). \<not> compare x y > 0)"

lemma take_mset_eq: "mset xs = mset ys \<Longrightarrow> drop n xs = drop n ys \<Longrightarrow> set (take n xs) = set (take n ys)"
  by (metis (no_types) add_right_cancel append_take_drop_id mset_append set_mset_mset)

locale compare_func =
  fixes compare :: "'a \<Rightarrow> 'a \<Rightarrow> int"
  assumes order: "list_order (\<lambda>a b. compare b a > 0)"
begin

lemma gt_asym: "compare a b > 0 \<Longrightarrow> \<not> compare b a > 0"
  using list_order.axioms(1) [OF order] unfolding list_less_def by blast

lemma le_refl: "\<not> compare a a > 0"
  using gt_asym [of a a] by blast

lemma le_trans: "\<not> compare a b > 0 \<Longrightarrow> \<not> compare b c > 0 \<Longrightarrow> \<not> compare a c > 0"
  using list_order.neg_trans [OF order, of a b c] by blast

lemma heapify_max_spec:
  assumes "1 \<le> i" "i \<le> cnt" "cnt \<le> length array"
  shows "\<exists>mx. heapify_max compare array i cnt = Some mx \<and> mx \<le> cnt \<and> (mx = i \<or> mx div 2 = i) \<and>
    \<not> compare (elem_at array i) (elem_at array mx) > 0 \<and>
    (\<forall>c. c div 2 = i \<longrightarrow> c \<le> cnt \<longrightarrow> \<not> compare (elem_at array c) (elem_at array mx) > 0)"
proof -
  let ?l = "2 * i" and ?r = "2 * i + 1" and ?A = "elem_at array"
  define m1 where "m1 = (if ?l \<le> cnt \<and> compare (?A ?l) (?A i) > 0 then ?l else i)"
  define mx where "mx = (if ?r \<le> cnt \<and> compare (?A ?r) (?A m1) > 0 then ?r else m1)"
  have m1: "m1 = i \<or> m1 = ?l" "m1 \<le> cnt" "1 \<le> m1" using assms by (auto simp: m1_def)
  have mx: "mx = i \<or> mx = ?l \<or> mx = ?r" "mx \<le> cnt" using m1 by (auto simp: mx_def)
  have run: "heapify_max compare array i cnt = Some mx"
    using assms m1 by (auto simp: heapify_max_def do_compare_def m1_def mx_def Let_def)
  have i1: "\<not> compare (?A i) (?A m1) > 0" "?l \<le> cnt \<Longrightarrow> \<not> compare (?A ?l) (?A m1) > 0"
    using gt_asym le_refl by (auto simp: m1_def)
  have m1x: "\<not> compare (?A m1) (?A mx) > 0" and rx: "?r \<le> cnt \<Longrightarrow> \<not> compare (?A ?r) (?A mx) > 0"
    using gt_asym le_refl by (auto simp: mx_def)
  have "\<not> compare (?A c) (?A mx) > 0" if "c div 2 = i" "c \<le> cnt" for c
  proof -
    have "c = ?l \<or> c = ?r" using that(1) by presburger
    then show ?thesis using i1(2) m1x rx le_trans that(2) by blast
  qed
  moreover have "mx = i \<or> mx div 2 = i" using mx(1) by auto
  ultimately show ?thesis using run mx i1(1) m1x le_trans by blast
qed

lemma heap_except_swap:
  assumes heap: "heap_except compare array lo cnt i" and i: "1 \<le> lo" "lo \<le> i" and mx: "mx \<le> cnt" "mx div 2 = i"
    and le: "\<not> compare (elem_at array i) (elem_at array mx) > 0"
      "\<And>c. c div 2 = i \<Longrightarrow> c \<le> cnt \<Longrightarrow> \<not> compare (elem_at array c) (elem_at array mx) > 0"
    and sw: "elem_at array' i = elem_at array mx" "elem_at array' mx = elem_at array i"
      "\<And>k. 1 \<le> k \<Longrightarrow> k \<noteq> i \<Longrightarrow> k \<noteq> mx \<Longrightarrow> elem_at array' k = elem_at array k"
  shows "heap_except compare array' lo cnt mx"
  unfolding heap_except_def
proof (intro conjI allI impI)
  have ne: "mx \<noteq> i" "i < mx" using mx(2) i by auto
  have ex: "\<And>k c. lo \<le> k \<Longrightarrow> k \<noteq> i \<Longrightarrow> c div 2 = k \<Longrightarrow> c \<le> cnt \<Longrightarrow> \<not> compare (elem_at array c) (elem_at array k) > 0"
    and gp: "\<And>c. lo \<le> i div 2 \<Longrightarrow> c div 2 = i \<Longrightarrow> c \<le> cnt \<Longrightarrow> \<not> compare (elem_at array c) (elem_at array (i div 2)) > 0"
    using heap unfolding heap_except_def by blast+
  show "\<not> compare (elem_at array' c) (elem_at array' k) > 0" if k: "lo \<le> k" "k \<noteq> mx" "c div 2 = k" "c \<le> cnt" for k c
  proof (cases "k = i")
    case True
    then show ?thesis using le k sw(1,2) sw(3) [of c] i ne by (cases "c = mx") auto
  next
    case False
    have "c \<noteq> mx" using k(3) False mx(2) by auto
    have kA: "elem_at array' k = elem_at array k" using sw(3) [of k] k False i by simp
    show ?thesis
    proof (cases "c = i")
      case True
      then show ?thesis using gp [of mx] k mx kA sw(1) by simp
    next
      case ci: False
      have "1 \<le> c" using k(1,3) i by (cases c) auto
      then have "elem_at array' c = elem_at array c" using sw(3) \<open>c \<noteq> mx\<close> ci by simp
      then show ?thesis using ex [OF k(1) False k(3,4)] kA by simp
    qed
  qed
  show "\<not> compare (elem_at array' c) (elem_at array' (mx div 2)) > 0" if c: "lo \<le> mx div 2" "c div 2 = mx" "c \<le> cnt" for c
  proof -
    have "c \<noteq> i" "c \<noteq> mx" "1 \<le> c" using c(2) ne i by auto
    then have "elem_at array' c = elem_at array c" using sw(3) by simp
    then show ?thesis using ex [of mx c] c ne i sw(1) mx(2) by simp
  qed
qed

lemma heapify_correct:
  "heap_except compare array lo cnt i \<Longrightarrow> 1 \<le> lo \<Longrightarrow> lo \<le> i \<Longrightarrow> i \<le> cnt \<Longrightarrow> cnt \<le> length array \<Longrightarrow>
   \<exists>array'. heapify compare array i cnt = Some array' \<and> length array' = length array \<and> mset array' = mset array \<and>
     heap_from compare array' lo cnt \<and> drop cnt array' = drop cnt array"
proof (induction "cnt - i" arbitrary: array i rule: less_induct)
  case less
  obtain mx where mx: "heapify_max compare array i cnt = Some mx" "mx \<le> cnt" "mx = i \<or> mx div 2 = i"
    "\<not> compare (elem_at array i) (elem_at array mx) > 0"
    "\<And>c. c div 2 = i \<Longrightarrow> c \<le> cnt \<Longrightarrow> \<not> compare (elem_at array c) (elem_at array mx) > 0"
    using heapify_max_spec [of i cnt array] less.prems by auto
  show ?case
  proof (cases "mx = i")
    case True
    then have "heap_from compare array lo cnt"
      using less.prems(1) mx(5) unfolding heap_from_def heap_except_def by metis
    moreover have "heapify compare array i cnt = Some array" using mx(1) True by (subst heapify.simps) simp
    ultimately show ?thesis by blast
  next
    case False
    then have mi: "mx div 2 = i" "i < mx" using mx(3) less.prems(2,3) by auto
    obtain array1 where a1: "do_swap array i mx = Some array1" "length array1 = length array" "mset array1 = mset array"
      "elem_at array1 i = elem_at array mx" "elem_at array1 mx = elem_at array i"
      "\<And>k. 1 \<le> k \<Longrightarrow> k \<noteq> i \<Longrightarrow> k \<noteq> mx \<Longrightarrow> elem_at array1 k = elem_at array k"
      "\<And>n. i \<le> n \<Longrightarrow> mx \<le> n \<Longrightarrow> drop n array1 = drop n array"
      using do_swap_eq [of i array mx] less.prems mi mx(2) by auto
    have dec: "cnt - mx < cnt - i" using mi(2) mx(2) by linarith
    have "heap_except compare array1 lo cnt mx"
      using heap_except_swap [OF less.prems(1-3) mx(2) mi(1) mx(4,5) a1(4-6)] by blast
    then obtain array2 where "heapify compare array1 mx cnt = Some array2" "length array2 = length array1"
      "mset array2 = mset array1" "heap_from compare array2 lo cnt" "drop cnt array2 = drop cnt array1"
      using less.hyps [OF dec, of array1] less.prems mi(2) mx(2) a1(2) by auto
    moreover have "heapify compare array i cnt = heapify compare array1 mx cnt"
      using mx(1) False a1(1) by (subst heapify.simps) simp
    ultimately show ?thesis using a1 less.prems(4) mx(2) by auto
  qed
qed

lemma build_heap_correct:
  "heap_from compare array (Suc i) cnt \<Longrightarrow> i \<le> cnt \<Longrightarrow> cnt \<le> length array \<Longrightarrow>
   \<exists>array'. build_heap compare array i cnt = Some array' \<and> length array' = length array \<and>
     mset array' = mset array \<and> heap_from compare array' 1 cnt \<and> drop cnt array' = drop cnt array"
proof (induction i arbitrary: array)
  case 0
  then show ?case by simp
next
  case (Suc i)
  have "heap_except compare array (Suc i) cnt (Suc i)"
    using Suc.prems(1) unfolding heap_from_def heap_except_def by auto
  from heapify_correct [OF this] Suc.prems obtain array1 where
    a1: "heapify compare array (Suc i) cnt = Some array1" "length array1 = length array" "mset array1 = mset array"
      "heap_from compare array1 (Suc i) cnt" "drop cnt array1 = drop cnt array" by auto
  from Suc.IH [OF a1(4)] a1 Suc.prems show ?case by auto
qed

lemma heap_root: "heap_from compare array 1 cnt \<Longrightarrow> 1 \<le> k \<Longrightarrow> k \<le> cnt \<Longrightarrow>
    \<not> compare (elem_at array k) (elem_at array 1) > 0"
proof (induction k rule: less_induct)
  case (less k)
  show ?case
  proof (cases "k = 1")
    case False
    then have "1 \<le> k div 2" "k div 2 < k" "k div 2 \<le> cnt" using less.prems by auto
    then have "\<not> compare (elem_at array (k div 2)) (elem_at array 1) > 0" using less by blast
    moreover have "\<not> compare (elem_at array k) (elem_at array (k div 2)) > 0"
      using less.prems \<open>1 \<le> k div 2\<close> unfolding heap_from_def by blast
    ultimately show ?thesis using le_trans by blast
  qed (simp add: le_refl)
qed

lemma sort_heap_step:
  assumes heap: "heap_from compare array 1 n" and n: "2 \<le> n" "n \<le> length array" and tail: "sorted_tail compare array n"
  shows "\<exists>a1 a2. do_swap array 1 n = Some a1 \<and> heapify compare a1 1 (n - 1) = Some a2 \<and>
    length a2 = length array \<and> mset a2 = mset array \<and> heap_from compare a2 1 (n - 1) \<and> sorted_tail compare a2 (n - 1)"
proof -
  let ?top = "elem_at array 1"
  obtain a1 where a1: "do_swap array 1 n = Some a1" "length a1 = length array" "mset a1 = mset array"
    "elem_at a1 n = ?top" "\<And>k. 1 \<le> k \<Longrightarrow> k \<noteq> 1 \<Longrightarrow> k \<noteq> n \<Longrightarrow> elem_at a1 k = elem_at array k"
    "drop n a1 = drop n array"
    using do_swap_eq [of 1 array n] n by auto
  have "heap_except compare a1 1 (n - 1) 1"
    unfolding heap_except_def
  proof (intro conjI allI impI)
    fix k c assume k: "1 \<le> k" "k \<noteq> 1" "c div 2 = k" "c \<le> n - 1"
    then have c: "1 \<le> c" "c \<noteq> 1" "c \<noteq> n" "k \<noteq> n" "c \<le> n" using n by auto
    have "\<not> compare (elem_at array c) (elem_at array k) > 0" using heap k c unfolding heap_from_def by blast
    then show "\<not> compare (elem_at a1 c) (elem_at a1 k) > 0" using a1(5) k c by simp
  qed simp
  moreover have "1 \<le> n - 1" "n - 1 \<le> length a1" using n a1(2) by linarith+
  ultimately obtain a2 where a2: "heapify compare a1 1 (n - 1) = Some a2" "length a2 = length a1" "mset a2 = mset a1"
    "heap_from compare a2 1 (n - 1)" "drop (n - 1) a2 = drop (n - 1) a1"
    using heapify_correct [of a1 1 "n - 1" 1] by auto
  have d: "drop (n - 1) a2 = ?top # drop n array"
    using a1(2,4,6) a2(5) n Cons_nth_drop_Suc [of "n - 1" a1] by (simp add: elem_at_def)
  have "set (take (n - 1) a2) = set (take (n - 1) a1)" using take_mset_eq a2 by blast
  also have "\<dots> \<subseteq> set (take n a1)" by (simp add: set_take_subset_set_take)
  also have "\<dots> = set (take n array)" using take_mset_eq a1 by blast
  finally have sub: "set (take (n - 1) a2) \<subseteq> set (take n array)" .
  have top: "?top \<in> set (take n array)" using n by (auto simp: elem_at_def in_set_conv_nth intro!: exI [of _ 0])
  have max: "\<not> compare x ?top > 0" if x: "x \<in> set (take n array)" for x
  proof -
    from x obtain j where "j < n" "x = array ! j" by (auto simp: in_set_conv_nth)
    then show ?thesis using heap_root [OF heap, of "Suc j"] by (simp add: elem_at_def)
  qed
  have "sorted_tail compare a2 (n - 1)"
    using tail sub top max unfolding sorted_tail_def d by auto
  then show ?thesis using a1(1-3) a2(1-4) by auto
qed

lemma sort_heap_correct:
  "heap_from compare array 1 n \<Longrightarrow> n \<le> length array \<Longrightarrow> sorted_tail compare array n \<Longrightarrow>
   \<exists>array'. sort_heap compare array n = Some array' \<and> mset array' = mset array \<and>
     sorted_wrt (\<lambda>x y. \<not> compare x y > 0) array'"
proof (induction n arbitrary: array)
  case 0
  then show ?case by (simp add: sorted_tail_def)
next
  case (Suc n)
  show ?case
  proof (cases n)
    case 0
    have "sorted_wrt (\<lambda>x y. \<not> compare x y > 0) array"
      using Suc.prems(3) 0 unfolding sorted_tail_def by (cases array) auto
    then show ?thesis using 0 by simp
  next
    case (Suc i)
    obtain a1 a2 where "do_swap array 1 (Suc n) = Some a1" "heapify compare a1 1 n = Some a2"
      "length a2 = length array" "mset a2 = mset array" "heap_from compare a2 1 n" "sorted_tail compare a2 n"
      using sort_heap_step [OF Suc.prems(1) _ Suc.prems(2,3)] Suc by auto
    with Suc.IH [of a2] Suc.prems(2) Suc show ?thesis by auto
  qed
qed

lemma sort_array_correct:
  "\<exists>array'. sort_array compare array (length array) = Some array' \<and> mset array' = mset array \<and>
     sorted_wrt (\<lambda>x y. \<not> compare x y > 0) array'"
proof -
  let ?n = "length array"
  have "heap_from compare array (Suc (?n div 2)) ?n" unfolding heap_from_def by auto
  from build_heap_correct [OF this] obtain a1 where
    a1: "build_heap compare array (?n div 2) ?n = Some a1" "length a1 = ?n" "mset a1 = mset array"
      "heap_from compare a1 1 ?n" by auto
  have "sorted_tail compare a1 ?n" using a1(2) by (simp add: sorted_tail_def)
  with sort_heap_correct [OF a1(4)] a1 show ?thesis by (auto simp: sort_array_def)
qed

end

text \<open>Comparison by a key, as the callers of \<open>qsort\<close> do it.\<close>

interpretation key_compare: compare_func "\<lambda>a b. key a - key b" for key :: "'a \<Rightarrow> int"
  by unfold_locales auto

section \<open>Binary search\<close>

lemma binary_search_loop_Some:
  "binary_search_loop compare key array first lst = Some i \<Longrightarrow>
   first \<le> i \<and> i < lst \<and> compare key (array ! i) = 0"
proof (induction compare key array first lst rule: binary_search_loop.induct)
  case (1 compare key array first lst)
  let ?m = "first + (lst - first) div 2"
  from "1.prems" have lt: "first < lst"
    by (subst (asm) binary_search_loop.simps) (simp split: if_splits)
  then have m: "first \<le> ?m" "?m < lst" by auto
  consider "compare key (array ! ?m) < 0" | "compare key (array ! ?m) > 0" | "compare key (array ! ?m) = 0" by linarith
  then show ?case
  proof cases
    case 1
    then have "binary_search_loop compare key array first ?m = Some i"
      using "1.prems" lt by (subst (asm) binary_search_loop.simps) (simp add: Let_def)
    from "1.IH"(1) [OF lt refl refl refl 1 this] m show ?thesis by simp
  next
    case 2
    then have "binary_search_loop compare key array (?m + 1) lst = Some i"
      using "1.prems" lt by (subst (asm) binary_search_loop.simps) (simp add: Let_def)
    from "1.IH"(2) [OF lt refl refl refl _ 2 this] 2 m show ?thesis by simp
  next
    case 3
    then show ?thesis using "1.prems" lt m by (subst (asm) binary_search_loop.simps) (auto simp: Let_def)
  qed
qed

text \<open>An array is sorted for a key if the comparison with the key only goes down along it.\<close>

lemma binary_search_loop_None:
  "binary_search_loop compare key array first lst = None \<Longrightarrow> lst \<le> length array \<Longrightarrow>
   (\<And>i j. i < j \<Longrightarrow> j < length array \<Longrightarrow> sgn (compare key (array ! j)) \<le> sgn (compare key (array ! i))) \<Longrightarrow>
   first \<le> i \<Longrightarrow> i < lst \<Longrightarrow> compare key (array ! i) \<noteq> 0"
proof (induction compare key array first lst rule: binary_search_loop.induct)
  case (1 compare key array first lst)
  let ?m = "first + (lst - first) div 2"
  have lt: "first < lst" using "1.prems" by simp
  then have m: "first \<le> ?m" "?m < lst" "?m < length array" using "1.prems"(2) by auto
  note mono = "1.prems"(3)
  consider "compare key (array ! ?m) < 0" | "compare key (array ! ?m) > 0" | "compare key (array ! ?m) = 0" by linarith
  then show ?case
  proof cases
    case 1
    have rec: "binary_search_loop compare key array first ?m = None"
      using "1.prems"(1) lt 1 by (subst (asm) binary_search_loop.simps) (simp add: Let_def)
    show ?thesis
    proof (cases "i < ?m")
      case True
      then show ?thesis using "1.IH"(1) [OF lt refl refl refl 1 rec _ mono] "1.prems"(4) m by simp
    next
      case False
      then show ?thesis using mono [of ?m i] 1 "1.prems"(2,5) by (cases "i = ?m") (auto simp: sgn_if split: if_splits)
    qed
  next
    case 2
    have rec: "binary_search_loop compare key array (?m + 1) lst = None"
      using "1.prems"(1) lt 2 by (subst (asm) binary_search_loop.simps) (simp add: Let_def)
    show ?thesis
    proof (cases "?m < i")
      case True
      then show ?thesis using "1.IH"(2) [OF lt refl refl refl _ 2 rec _ mono] "1.prems"(2,5) 2 by simp
    next
      case False
      then show ?thesis using mono [of i ?m] 2 m by (cases "i = ?m") (auto simp: sgn_if split: if_splits)
    qed
  next
    case 3
    then show ?thesis using "1.prems"(1) lt by (subst (asm) binary_search_loop.simps) (simp add: Let_def)
  qed
qed

section \<open>Decimal numbers\<close>

lemma atoi_skip_eq: "str_at m s (sp @ cs) \<Longrightarrow> \<forall>c \<in> set sp. isspace c \<Longrightarrow> \<not> isspace (m (s + length sp)) \<Longrightarrow>
    atoi_skip m s = Some (s + length sp)"
proof (induction sp arbitrary: s)
  case Nil
  then show ?case by (subst atoi_skip.simps) simp
next
  case (Cons c sp)
  then show ?case by (subst atoi_skip.simps) simp
qed

text \<open>The value of a sequence of digits.\<close>

fun digits_value :: "int \<Rightarrow> u8 list \<Rightarrow> int" where
  "digits_value acc [] = acc"
| "digits_value acc (c # cs) = digits_value (acc * 10 + (uint c - 48)) cs"

lemma digits_value_ge: "0 \<le> acc \<Longrightarrow> \<forall>c \<in> set cs. isdigit c \<Longrightarrow> acc \<le> digits_value acc cs"
proof (induction cs arbitrary: acc)
  case (Cons c cs)
  have "0 \<le> uint c - 48" using Cons.prems(2) by (simp add: isdigit_def word_le_def)
  with Cons.IH [of "acc * 10 + (uint c - 48)"] Cons.prems show ?case by auto
qed simp

lemma atoi_digits_eq:
  "str_at m s (ds @ rest) \<Longrightarrow> \<forall>c \<in> set ds. isdigit c \<Longrightarrow> \<not> isdigit (m (s + length ds)) \<Longrightarrow>
   0 \<le> acc \<Longrightarrow> digits_value acc ds \<le> 2 ^ 31 \<Longrightarrow> atoi_digits m s (- acc) = Some (- digits_value acc ds)"
proof (induction ds arbitrary: s acc)
  case Nil
  then show ?case by (subst atoi_digits.simps) simp
next
  case (Cons c ds)
  let ?acc = "acc * 10 + (uint c - 48)"
  have c: "isdigit c" "0 \<le> uint c - 48" using Cons.prems(2) by (simp_all add: isdigit_def word_le_def)
  then have acc: "0 \<le> ?acc" "?acc \<le> 2 ^ 31"
    using Cons.prems(2,4,5) digits_value_ge [of ?acc ds] by auto
  have "atoi_digits m s (- acc) = atoi_digits m (s + 1) (wrap_int (- acc * 10 - (uint c - 48)))"
    using Cons.prems(1) c(1) by (subst atoi_digits.simps) simp
  also have "wrap_int (- acc * 10 - (uint c - 48)) = - ?acc"
    using acc by (subst wrap_int_id) simp_all
  finally show ?case using Cons.IH [of "s + 1" ?acc] Cons.prems acc(1) by simp
qed


section \<open>The state of the generator\<close>

definition wf_rc4 :: "rc4 \<Rightarrow> bool" where
  "wf_rc4 r \<longleftrightarrow> mset (s_box r) = mset (map of_nat [0..<256])"

lemma swap_byte_mset: "a < length s \<Longrightarrow> b < length s \<Longrightarrow> mset (swap_byte s a b) = mset s"
  unfolding swap_byte_def by (rule mset_swap)

lemma length_swap_byte [simp]: "length (swap_byte s a b) = length s"
  by (simp add: swap_byte_def)

lemma unat_u8_less [simp]: "unat (j :: u8) < 256"
  using unsigned_less [of j] by simp

lemma random_init_loop_mset:
  "length s = 256 \<Longrightarrow> i + n \<le> 256 \<Longrightarrow> mset (random_init_loop seedp i j n s) = mset s"
proof (induction n arbitrary: i j s)
  case (Suc n)
  let ?j = "j + s ! i + seedp ! (i mod 4)"
  have "mset (swap_byte s i (unat ?j)) = mset s" using Suc.prems by (intro swap_byte_mset) simp_all
  then show ?case using Suc.IH [of "swap_byte s i (unat ?j)" "i + 1" ?j] Suc.prems by (simp add: Let_def)
qed simp

lemma wf_rc4_length: "wf_rc4 r \<Longrightarrow> length (s_box r) = 256"
  unfolding wf_rc4_def by (metis length_map length_upt mset_eq_length diff_zero)

lemma random_init_wf: "wf_rc4 (random_init seed)"
  by (simp add: wf_rc4_def random_init_def random_init_loop_mset)

lemma random_bytes_loop_wf: "wf_rc4 r \<Longrightarrow> wf_rc4 (snd (random_bytes_loop r n)) \<and> length (fst (random_bytes_loop r n)) = n"
proof (induction n arbitrary: r)
  case (Suc n)
  define i where "i = s_i r + 1"
  define j where "j = s_j r + s_box r ! unat i"
  define r' where "r' = r\<lparr>s_i := i, s_j := j, s_box := swap_byte (s_box r) (unat i) (unat j)\<rparr>"
  have "wf_rc4 r'"
    using Suc.prems swap_byte_mset [of "unat i" "s_box r" "unat j"] wf_rc4_length [OF Suc.prems]
    by (simp add: wf_rc4_def r'_def)
  moreover have "snd (random_bytes_loop r (Suc n)) = snd (random_bytes_loop r' n)"
    "length (fst (random_bytes_loop r (Suc n))) = Suc (length (fst (random_bytes_loop r' n)))"
    by (simp_all add: Let_def case_prod_unfold r'_def i_def j_def)
  ultimately show ?case using Suc.IH [of r'] by simp
qed simp

section \<open>Properties\<close>

text \<open>
  (C27) \<open>sort\<close> terminates, never leaves the array, and leaves it sorted and with the same elements, for every
  comparison function that is a strict weak order.
\<close>

theorem qsort_sorts:
  assumes "list_order (\<lambda>a b. compare b a > 0)"
  shows "\<exists>array'. qsort compare array (length array) = Some array' \<and> mset array' = mset array \<and>
    sorted_wrt (\<lambda>x y. \<not> compare x y > 0) array'"
  unfolding qsort_def by (rule compare_func.sort_array_correct [OF compare_func.intro [OF assms]])

theorem qsort_sorts_witness:
  "\<exists>array'. qsort (\<lambda>a b. a - b) [3, 1, 2, 1] 4 = Some array' \<and> mset array' = {#1, 1, 2, 3 :: int#}"
proof -
  have "list_order (\<lambda>a b. (b :: int) - a > 0)" by unfold_locales auto
  from qsort_sorts [OF this, of "[3, 1, 2, 1]"] show ?thesis by (auto simp: add_mset_commute numeral_eq_Suc)
qed

text \<open>
  (C28) \<open>bsearch\<close> on an array along which the sign of the comparison with the key does not increase finds a
  matching element if there is one, and otherwise returns a null pointer.
\<close>

theorem bsearch_finds:
  assumes "\<And>i j. i < j \<Longrightarrow> j < length array \<Longrightarrow> sgn (compare key (array ! j)) \<le> sgn (compare key (array ! i))"
  shows "case bsearch compare key array of
      Some i \<Rightarrow> i < length array \<and> compare key (array ! i) = 0
    | None \<Rightarrow> \<forall>x \<in> set array. compare key x \<noteq> 0"
proof (cases "bsearch compare key array")
  case None
  then have "compare key (array ! i) \<noteq> 0" if "i < length array" for i
    using binary_search_loop_None [of compare key array 0 "length array" i] assms that
    by (simp add: bsearch_def binary_search_def)
  then show ?thesis using None by (auto simp: in_set_conv_nth)
next
  case (Some i)
  then show ?thesis
    using binary_search_loop_Some [of compare key array 0 "length array" i]
    by (simp add: bsearch_def binary_search_def)
qed

theorem bsearch_finds_witness:
  "case bsearch (\<lambda>k x. k - x) 5 [1, 3, 5 :: int] of Some i \<Rightarrow> i < 3 \<and> 5 - [1, 3, 5] ! i = (0 :: int) | None \<Rightarrow> False"
proof -
  have "sgn ((5 :: int) - [1, 3, 5] ! j) \<le> sgn (5 - [1, 3, 5] ! i)" if "i < j" "j < length [1, 3, 5 :: int]" for i j
    using that by (auto simp: less_Suc_eq numeral_3_eq_3)
  from bsearch_finds [of "[1, 3, 5]" "\<lambda>k x. k - x" "5 :: int", OF this] show ?thesis by (simp split: option.splits)
qed

text \<open>
  (C29) \<open>atoi\<close> reads white space, an optional sign and digits, and returns the number they denote, for every
  number in the range of \<open>int\<close>, the smallest one included.
\<close>

theorem atoi_correct:
  assumes "s \<noteq> 0" "str_at m s (sp @ (if negative then [45] else []) @ ds @ rest)"
    and "\<forall>c \<in> set sp. isspace c" "ds \<noteq> []" "\<forall>c \<in> set ds. isdigit c" "rest \<noteq> [] \<Longrightarrow> \<not> isdigit (hd rest)"
    and "if negative then digits_value 0 ds \<le> 2 ^ 31 else digits_value 0 ds < 2 ^ 31"
  shows "atoi m s = Some (if negative then - digits_value 0 ds else digits_value 0 ds)"
proof -
  define sg where "sg = (if negative then [45 :: u8] else [])"
  define s1 where "s1 = s + length sp"
  define s2 where "s2 = s1 + length sg"
  have at1: "str_at m s1 (sg @ ds @ rest)" and at2: "str_at m s2 (ds @ rest)" and at3: "str_at m (s2 + length ds) rest"
    using assms(2) unfolding sg_def [symmetric] s1_def s2_def str_at_append by simp_all
  have nd: "\<not> isdigit (m (s2 + length ds))"
    using at3 assms(6) by (cases rest) (auto simp: isdigit_def)
  obtain d ds' where ds: "ds = d # ds'" using assms(4) by (cases ds) auto
  have d: "m s2 = d" "isdigit d" using at2 assms(5) by (simp_all add: ds)
  have first: "m s1 = (if negative then 45 else d)" using at1 d(1) by (auto simp: sg_def ds s2_def)
  have "\<not> isspace (m s1)" using first d(2) by (auto simp: isspace_def isdigit_def)
  then have skip: "atoi_skip m s = Some s1"
    using atoi_skip_eq [of m s sp "sg @ ds @ rest"] assms(2,3) by (simp add: s1_def sg_def)
  have sign: "(if m s1 = 43 then (False, s1 + 1) else if m s1 = 45 then (True, s1 + 1) else (False, s1)) = (negative, s2)"
    using first d(2) by (auto simp: s2_def sg_def isdigit_def)
  have "digits_value 0 ds \<le> 2 ^ 31" using assms(7) by (auto split: if_splits)
  then have digits: "atoi_digits m s2 0 = Some (- digits_value 0 ds)"
    using atoi_digits_eq [OF at2 assms(5) nd, of 0] by simp
  have "0 \<le> digits_value 0 ds" using digits_value_ge [of 0 ds] assms(5) by simp
  then have "\<not> negative \<Longrightarrow> wrap_int (digits_value 0 ds) = digits_value 0 ds" using assms(7) by simp
  then show ?thesis using assms(1) unfolding atoi_def skip Let_def by (simp add: sign digits)
qed

theorem atoi_correct_witness:
  "atoi (\<lambda>a. if a = 8 then 32 else if a = 9 then 45 else if a = 10 then 52 else if a = 11 then 50 else 0) 8 = Some (- 42)"
proof -
  let ?m = "\<lambda>a. if a = 8 then 32 else if a = 9 then 45 else if a = 10 then 52 else if a = 11 then 50 else (0 :: u8)"
  have "str_at ?m 8 ([32] @ (if True then [45] else []) @ [52, 50] @ [])" by simp
  from atoi_correct [OF _ this] show ?thesis by (simp add: isspace_def isdigit_def)
qed

lemma and_255: "(n :: nat) AND 255 = n mod 256"
  using and_nat_numerals take_bit_eq_mask [of 8 n] by (simp add: mask_eq_exp_minus_1 take_bit_eq_mod)

lemma unat_sum_255: "(unat (a :: u8) + unat b) AND 255 = unat (a + b)"
  by (simp add: and_255 unat_word_ariths)

lemma next_key_idx: "(if (4 :: nat) \<le> i mod 4 + 1 then 0 else i mod 4 + 1) = (i + 1) mod 4"
proof -
  have "i mod 4 < 4" by simp
  then show ?thesis by (auto simp only: mod_Suc Suc_eq_plus1 [symmetric] split: if_splits)
qed

lemma arc4_init_loop_random:
  "arc4_init_loop key 4 (i mod 4) i (unat j) n s = random_init_loop key i j n s"
proof (induction n arbitrary: i j s)
  case (Suc n)
  have "(unat j + unat (s ! i) + unat (key ! (i mod 4))) AND 255 = unat (j + s ! i + key ! (i mod 4))"
    by (simp add: and_255 unat_word_ariths mod_simps)
  then show ?case unfolding arc4_init_loop.simps random_init_loop.simps next_key_idx Let_def using Suc.IH [of "i + 1"] by simp
qed simp

lemma arc4_crypt_random:
  "arc4_crypt \<lparr>arc4_s = s_box r, arc4_i = s_i r, arc4_j = s_j r\<rparr> buf =
     (map2 (XOR) buf (fst (random_bytes_loop r (length buf))),
      (let r' = snd (random_bytes_loop r (length buf)) in \<lparr>arc4_s = s_box r', arc4_i = s_i r', arc4_j = s_j r'\<rparr>))"
proof (induction buf arbitrary: r)
  case (Cons b bs)
  let ?i = "s_i r + 1"
  let ?j = "s_j r + s_box r ! unat ?i"
  let ?r = "r\<lparr>s_i := ?i, s_j := ?j, s_box := swap_byte (s_box r) (unat ?i) (unat ?j)\<rparr>"
  show ?case using Cons.IH [of ?r] by (simp add: Let_def unat_sum_255 case_prod_unfold)
qed simp

lemma random_bytes_loop_append:
  "fst (random_bytes_loop r (m + n)) = fst (random_bytes_loop r m) @ fst (random_bytes_loop (snd (random_bytes_loop r m)) n)"
  "inited (snd (random_bytes_loop r m)) = inited r"
  by (induction m arbitrary: r) (simp_all add: Let_def case_prod_unfold)

text \<open>
  (C30) The kernel's generator is ARC4 as the tests implement it: with the same 32-bit seed as key, \<open>arc4_crypt\<close> of any buffer
  is its exclusive or with the bytes of \<open>random_bytes\<close>.  How the bytes are asked for makes no difference: \<open>m\<close> bytes and then \<open>n\<close> more
  are the same as \<open>m + n\<close> at once, and the table always is a permutation of the 256 bytes.
\<close>

theorem random_bytes_is_arc4:
  "fst (arc4_crypt (arc4_init (bytes_of_word seed) 4) buf) = map2 (XOR) buf (fst (random_bytes (random_init seed) (length buf))) \<and>
   fst (random_bytes (random_init seed) (m + n)) =
     fst (random_bytes (random_init seed) m) @ fst (random_bytes (snd (random_bytes (random_init seed) m)) n) \<and>
   mset (s_box (snd (random_bytes (random_init seed) n))) = mset (map of_nat [0..<256]) \<and>
   length (fst (random_bytes (random_init seed) n)) = n"
proof (intro conjI)
  have "arc4_init (bytes_of_word seed) 4 =
      \<lparr>arc4_s = s_box (random_init seed), arc4_i = s_i (random_init seed), arc4_j = s_j (random_init seed)\<rparr>"
    using arc4_init_loop_random [of "bytes_of_word seed" 0 0 256] by (simp add: arc4_init_def random_init_def)
  then show "fst (arc4_crypt (arc4_init (bytes_of_word seed) 4) buf) =
      map2 (XOR) buf (fst (random_bytes (random_init seed) (length buf)))"
    using arc4_crypt_random [of "random_init seed" buf] by (simp add: random_bytes_def random_init_def)
  show "fst (random_bytes (random_init seed) (m + n)) =
     fst (random_bytes (random_init seed) m) @ fst (random_bytes (snd (random_bytes (random_init seed) m)) n)"
    using random_bytes_loop_append [of "random_init seed"] by (simp add: random_bytes_def random_init_def)
qed (use random_bytes_loop_wf [OF random_init_wf] in \<open>auto simp: random_bytes_def random_init_def wf_rc4_def\<close>)
end
