(* ===== verification/Fixed_Point.thy ===== *)
theory Fixed_Point
  imports Pintos_Prelude
begin

text \<open>
  The 17.14 fixed-point arithmetic of \<open>src/pintos/src/threads/fixedpoint.h\<close> and the formulas of the multi-level
  feedback queue scheduler in \<open>src/pintos/src/threads/thread.c\<close> that are built from it: the system load
  average, a thread's \<open>recent_cpu\<close> and its priority.

  A value of type \<open>fp64\<close> is an \<open>int32_t\<close>.  A product or sum of two such values has type \<open>int\<close> and is reduced to
  32 bits by \<^const>\<open>wrap_int\<close>; \<open>MUL_FP\<close> and \<open>DIV_FP\<close> widen to 64 bits first, so that no reduction
  happens before the assignment of their result.
\<close>

abbreviation (input) F :: int where
  "F \<equiv> 2 ^ 14"

definition INT_TO_FP :: "int \<Rightarrow> int" where
  "INT_TO_FP n = wrap_int (n * F)"

definition FP_TO_INT_ZERO :: "int \<Rightarrow> int" where
  "FP_TO_INT_ZERO n = cdiv n F"

definition FP_TO_INT_NEAREST :: "int \<Rightarrow> int" where
  "FP_TO_INT_NEAREST n = (if 0 \<le> n then cdiv (wrap_int (n + F div 2)) F else cdiv (wrap_int (n - F div 2)) F)"

definition ADD_FP_INT :: "int \<Rightarrow> int \<Rightarrow> int" where
  "ADD_FP_INT x n = wrap_int (x + wrap_int (n * F))"

definition SUB_FP_INT :: "int \<Rightarrow> int \<Rightarrow> int" where
  "SUB_FP_INT x n = wrap_int (x - wrap_int (n * F))"

text \<open>The two operations on 64-bit operands; a division by zero traps.\<close>

definition MUL_FP :: "int \<Rightarrow> int \<Rightarrow> int" where
  "MUL_FP x y = cdiv (x * y) F"

definition DIV_FP :: "int \<Rightarrow> int \<Rightarrow> int option" where
  "DIV_FP x y = (if y = 0 then None else Some (cdiv (x * F) y))"

abbreviation (input) PRI_MIN :: int where "PRI_MIN \<equiv> 0"
abbreviation (input) PRI_DEFAULT :: int where "PRI_DEFAULT \<equiv> 31"
abbreviation (input) PRI_MAX :: int where "PRI_MAX \<equiv> 63"

text \<open>The new load average for \<open>ready_threads\<close> runnable threads (the assignment in \<open>update_load_avg\<close>).\<close>

definition next_load_avg :: "int \<Rightarrow> int \<Rightarrow> int option" where
  "next_load_avg load_avg ready_threads = do {
     d \<leftarrow> DIV_FP (wrap_int (load_avg * 59)) (INT_TO_FP 60);
     Some (wrap_int (d + cdiv (INT_TO_FP ready_threads) 60))
   }"

text \<open>The new \<open>recent_cpu\<close> of a thread (the assignments in \<open>update_recent_cpu\<close>).\<close>

definition next_recent_cpu :: "int \<Rightarrow> int \<Rightarrow> int \<Rightarrow> int option" where
  "next_recent_cpu load_avg recent_cpu nice = do {
     d \<leftarrow> DIV_FP (wrap_int (load_avg * 2)) (wrap_int (wrap_int (load_avg * 2) + INT_TO_FP 1));
     let coeff = wrap_int d;
     Some (wrap_int (MUL_FP coeff recent_cpu + INT_TO_FP nice))
   }"

text \<open>The priority of a thread (\<open>update_thread_priority\<close>).\<close>

definition mlfqs_priority :: "int \<Rightarrow> int \<Rightarrow> int" where
  "mlfqs_priority recent_cpu nice = (
     let p = FP_TO_INT_NEAREST (wrap_int (wrap_int (INT_TO_FP PRI_MAX - cdiv recent_cpu 4) -
               wrap_int (INT_TO_FP nice * 2)));
         p = (if PRI_MAX < p then PRI_MAX else p)
     in if p < PRI_MIN then PRI_MIN else p)"

section \<open>Properties\<close>

text \<open>The priority is always in range, whatever its arguments, overflow included.\<close>

lemma mlfqs_priority_range: "PRI_MIN \<le> mlfqs_priority c n \<and> mlfqs_priority c n \<le> PRI_MAX"
  by (simp add: mlfqs_priority_def Let_def)

lemma INT_TO_FP_small: "\<bar>n\<bar> \<le> 100000 \<Longrightarrow> INT_TO_FP n = n * F"
  unfolding INT_TO_FP_def by (rule wrap_int_id) auto

lemma cdiv_mono_bounds: "0 \<le> a \<Longrightarrow> 0 < b \<Longrightarrow> a \<le> k * b \<Longrightarrow> 0 \<le> cdiv a b \<and> cdiv a b \<le> k"
  by (simp add: cdiv_nonneg pos_imp_zdiv_nonneg_iff)
     (metis div_by_0 less_irrefl nonzero_mult_div_cancel_right zdiv_mono1)

lemma DIV_FP_load:
  assumes "0 \<le> l" "l * 59 < 2 ^ 31"
  shows "DIV_FP (wrap_int (l * 59)) (INT_TO_FP 60) = Some (l * 59 div 60)"
proof -
  have w: "wrap_int (l * 59) = l * 59" using assms by (intro wrap_int_id) auto
  have i: "INT_TO_FP 60 = 60 * F" by (simp add: INT_TO_FP_small)
  have "cdiv (l * 59 * F) (60 * F) = l * 59 * F div (60 * F)" using assms by (intro cdiv_nonneg) auto
  also have "\<dots> = l * 59 div 60" by (rule div_mult_mult2) simp
  finally show ?thesis by (simp add: DIV_FP_def w i)
qed

text \<open>With at most \<open>k\<close> runnable threads the load average never exceeds \<open>k\<close>, and no intermediate result overflows,
  as long as \<open>k \<le> 2000\<close>.\<close>

lemma next_load_avg_bounded:
  assumes "0 \<le> l" "l \<le> k * F" "0 \<le> r" "r \<le> k" "k \<le> 2000"
  shows "next_load_avg l r = Some (l * 59 div 60 + r * F div 60)"
    "0 \<le> l * 59 div 60 + r * F div 60 \<and> l * 59 div 60 + r * F div 60 \<le> k * F"
proof -
  have lk: "l \<le> 2000 * F" using assms(2,5) by simp
  have "INT_TO_FP r = r * F" using assms by (intro INT_TO_FP_small) simp
  then have c: "cdiv (INT_TO_FP r) 60 = r * F div 60" using assms by (simp add: cdiv_nonneg)
  have d: "DIV_FP (wrap_int (l * 59)) (INT_TO_FP 60) = Some (l * 59 div 60)"
    using assms(1) lk by (intro DIV_FP_load) auto
  have a: "60 * (l * 59 div 60) \<le> l * 59" "60 * (r * F div 60) \<le> r * F"
    using div_mult_mod_eq [of "l * 59" 60] div_mult_mod_eq [of "r * F" 60]
      pos_mod_sign [of 60 "l * 59"] pos_mod_sign [of 60 "r * F"] by linarith+
  have nn: "0 \<le> l * 59 div 60" "0 \<le> r * F div 60" using assms by (auto simp: pos_imp_zdiv_nonneg_iff)
  have "r * F \<le> k * F" using assms(4) by simp
  with a assms(2) have ub: "l * 59 div 60 + r * F div 60 \<le> k * F" by linarith
  then have "l * 59 div 60 + r * F div 60 < 2 ^ 31" using assms(5) by simp
  with nn have "wrap_int (l * 59 div 60 + r * F div 60) = l * 59 div 60 + r * F div 60"
    by (intro wrap_int_id) auto
  then show "next_load_avg l r = Some (l * 59 div 60 + r * F div 60)"
    by (simp add: next_load_avg_def d c)
  show "0 \<le> l * 59 div 60 + r * F div 60 \<and> l * 59 div 60 + r * F div 60 \<le> k * F" using nn ub by simp
qed

text \<open>A non-negative load average never makes the division in \<open>update_recent_cpu\<close> trap, and the decay factor is in
  \<open>[0, 1)\<close>.\<close>

lemma recent_cpu_coeff:
  assumes "0 \<le> l" "l \<le> 2000 * F"
  shows "\<exists>c. DIV_FP (wrap_int (l * 2)) (wrap_int (wrap_int (l * 2) + INT_TO_FP 1)) = Some c \<and> 0 \<le> c \<and> c < F"
proof -
  have w: "wrap_int (l * 2) = l * 2" using assms by (intro wrap_int_id) auto
  have i: "INT_TO_FP 1 = F" by (simp add: INT_TO_FP_small)
  have w2: "wrap_int (l * 2 + F) = l * 2 + F" using assms by (intro wrap_int_id) auto
  have pos: "0 < l * 2 + F" using assms by simp
  have c: "cdiv (l * 2 * F) (l * 2 + F) = l * 2 * F div (l * 2 + F)" using assms pos by (intro cdiv_nonneg) auto
  have lt: "l * 2 * F div (l * 2 + F) < F"
  proof (rule ccontr)
    assume "\<not> ?thesis"
    then have "F * (l * 2 + F) \<le> (l * 2 * F div (l * 2 + F)) * (l * 2 + F)" using pos by (intro mult_right_mono) auto
    also have "\<dots> \<le> l * 2 * F"
      using div_mult_mod_eq [of "l * 2 * F" "l * 2 + F"] pos_mod_sign [OF pos, of "l * 2 * F"] by linarith
    finally show False by simp
  qed
  have "0 \<le> l * 2 * F div (l * 2 + F)" using assms pos by (simp add: pos_imp_zdiv_nonneg_iff)
  with lt c pos show ?thesis unfolding w i w2 DIV_FP_def by (simp add: c)
qed


text \<open>Rounding to the nearest integer is off by at most one half.\<close>

lemma FP_TO_INT_NEAREST_error:
  assumes "- (2 ^ 30) \<le> x" "x \<le> 2 ^ 30"
  shows "\<bar>FP_TO_INT_NEAREST x * F - x\<bar> \<le> F div 2"
proof (cases "0 \<le> x")
  case True
  then have w: "wrap_int (x + F div 2) = x + F div 2" using assms by (intro wrap_int_id) auto
  show ?thesis using True div_mult_mod_eq [of "x + F div 2" F] pos_mod_bound [of F "x + F div 2"]
      pos_mod_sign [of F "x + F div 2"]
    unfolding FP_TO_INT_NEAREST_def w by (simp add: cdiv_nonneg)
next
  case False
  then have w: "wrap_int (x - F div 2) = x - F div 2" using assms by (intro wrap_int_id) auto
  show ?thesis using False div_mult_mod_eq [of "- (x - F div 2)" F] pos_mod_bound [of F "- (x - F div 2)"]
      pos_mod_sign [of F "- (x - F div 2)"]
    unfolding FP_TO_INT_NEAREST_def w by (simp add: cdiv_neg)
qed

text \<open>The load average after a sequence of seconds, in each of which a number of threads was runnable.\<close>

fun load_avg_run :: "int \<Rightarrow> int list \<Rightarrow> int option" where
  "load_avg_run l [] = Some l"
| "load_avg_run l (r # rs) = do { l \<leftarrow> next_load_avg l r; load_avg_run l rs }"

lemma load_avg_run_bounded:
  assumes "0 \<le> l" "l \<le> k * F" "\<forall>r \<in> set rs. 0 \<le> r \<and> r \<le> k" "k \<le> 2000"
  shows "\<exists>l'. load_avg_run l rs = Some l' \<and> 0 \<le> l' \<and> l' \<le> k * F"
  using assms
proof (induction rs arbitrary: l)
  case (Cons r rs)
  from Cons.prems have "0 \<le> r" "r \<le> k" by auto
  note b = next_load_avg_bounded [OF Cons.prems(1,2) this Cons.prems(4)]
  have "\<exists>l'. load_avg_run (l * 59 div 60 + r * F div 60) rs = Some l' \<and> 0 \<le> l' \<and> l' \<le> k * F"
    by (rule Cons.IH) (use b(2) Cons.prems in auto)
  then show ?case by (simp add: b(1))
qed simp

lemma MUL_FP_decay:
  assumes "0 \<le> q" "q < F"
  shows "\<bar>MUL_FP q c\<bar> \<le> \<bar>c\<bar> \<and> 0 \<le> MUL_FP q c * c"
proof -
  have "\<bar>c\<bar> * q \<le> \<bar>c\<bar> * F" by (rule mult_left_mono) (use assms in auto)
  then have "q * \<bar>c\<bar> \<le> \<bar>c\<bar> * F" by (simp only: mult.commute)
  then have b: "0 \<le> cdiv (q * \<bar>c\<bar>) F \<and> cdiv (q * \<bar>c\<bar>) F \<le> \<bar>c\<bar>"
    by (intro cdiv_mono_bounds) (use assms in auto)
  show ?thesis
  proof (cases "0 \<le> c")
    case True
    then show ?thesis using b by (simp add: MUL_FP_def)
  next
    case False
    have "MUL_FP q c = - cdiv (q * \<bar>c\<bar>) F" using False by (simp add: MUL_FP_def cdiv_def sgn_mult abs_mult)
    then show ?thesis using b False by (simp add: mult_nonneg_nonpos)
  qed
qed

text \<open>
  (C31) The scheduler's fixed-point formulas are well behaved.  If at most \<open>k \<le> 2000\<close> threads are runnable in
  any second, the load average stays between 0 and \<open>k\<close> for ever and no division traps.  The new \<open>recent_cpu\<close> of a thread with any old value,
  negative ones included, and any \<open>nice\<close> is \<open>nice\<close> plus a value of the same sign as the old one and of no greater magnitude.
\<close>

theorem mlfqs_load_avg_bounded:
  assumes "\<forall>r \<in> set rs. 0 \<le> r \<and> r \<le> k" "0 \<le> k" "k \<le> 2000" "\<bar>c\<bar> + \<bar>n\<bar> * F < 2 ^ 31"
  shows "\<exists>l d. load_avg_run 0 rs = Some l \<and> 0 \<le> l \<and> l \<le> k * F \<and>
    next_recent_cpu l c n = Some (d + n * F) \<and> \<bar>d\<bar> \<le> \<bar>c\<bar> \<and> 0 \<le> d * c"
proof -
  obtain l where l: "load_avg_run 0 rs = Some l" "0 \<le> l" "l \<le> k * F"
    using load_avg_run_bounded [of 0 k rs] assms by auto
  then have "l \<le> 2000 * F" using assms(3) by simp
  then obtain q where q: "DIV_FP (wrap_int (l * 2)) (wrap_int (wrap_int (l * 2) + INT_TO_FP 1)) = Some q"
    "0 \<le> q" "q < F" using recent_cpu_coeff [OF l(2)] by blast
  have wq: "wrap_int q = q" using q by (intro wrap_int_id) auto
  note m = MUL_FP_decay [OF q(2,3), of c]
  have n: "INT_TO_FP n = n * F" using assms(4) by (simp add: INT_TO_FP_def)
  have "\<bar>n * F\<bar> = \<bar>n\<bar> * F" by (simp add: abs_mult)
  then have "\<bar>MUL_FP q c + n * F\<bar> < 2 ^ 31" using m assms(4) abs_triangle_ineq [of "MUL_FP q c" "n * F"] by linarith
  then have "wrap_int (MUL_FP q c + INT_TO_FP n) = MUL_FP q c + n * F" unfolding n by (intro wrap_int_id) auto
  then have "next_recent_cpu l c n = Some (MUL_FP q c + n * F)" by (simp add: next_recent_cpu_def q wq Let_def)
  with l m show ?thesis by blast
qed

theorem mlfqs_load_avg_bounded_witness:
  "\<exists>l d. load_avg_run 0 [1, 2, 3] = Some l \<and> 0 \<le> l \<and> l \<le> 3 * F \<and>
    next_recent_cpu l (- 16384) (- 5) = Some (d + - 5 * F) \<and> \<bar>d\<bar> \<le> 16384"
  using mlfqs_load_avg_bounded [of "[1, 2, 3]" 3 "- 16384" "- 5"] by auto

end
