(* ===== verification/Threads.thy ===== *)
theory Threads
  imports Pintos_Prelude Kernel_List Fixed_Point
begin

text \<open>
  The thread system: \<open>src/pintos/src/threads/thread.c\<close> and the interrupt level and interrupt context of
  \<open>src/pintos/src/threads/interrupt.c\<close>.

  The state is one record \<open>kernel\<close>: the \<open>struct thread\<close> at each address, the static lists and counters, the
  processor's interrupt flag, and the semaphores, locks and condition variables by address.  Kernel lists
  are sequences (theory \<open>Kernel_List\<close> shows that the pointer code implements the sequence operations).

  A kernel function that blocks does not return to its caller before the thread is scheduled again.  So that
  this can be said in a state transition, every thread has a stack of \<^emph>\<open>frames\<close>: what the thread still has to do
  in the kernel functions it is in, the innermost first.  A function that may block pushes what follows the
  blocking call and then calls it; \<open>schedule\<close> only changes \<open>current\<close>.  The frame on the top of the running
  thread's stack is executed by the next transition (theory \<open>Kernel_Steps\<close>).  A thread whose stack is empty is outside the
  kernel functions modelled here.
\<close>

section \<open>State\<close>

datatype thread_status = THREAD_RUNNING | THREAD_READY | THREAD_BLOCKED | THREAD_DYING

text \<open>A \<open>struct thread\<close>.  \<open>magic\<close> is true while the member has the value \<open>THREAD_MAGIC\<close>.\<close>

record thread =
  tid :: int
  status :: thread_status
  priority :: int
  wakeup_tick :: int
  nice :: int
  recent_cpu :: int
  base_priority :: int
  donated_priority :: int
  waiting_lock :: "nat option"
  locks :: "nat list"
  has_pagedir :: bool
  magic :: bool

text \<open>
  Semaphores are objects of their own, part of a lock, or part of the \<open>struct semaphore_elem\<close> on the stack of a
  thread that waits for a condition.
\<close>

datatype sema_ref = Sema nat | LockSema nat | WaiterSema nat

record semaphore =
  sema_value :: nat
  waiters :: "nat list"

record lock =
  holder :: "nat option"
  max_priority :: int

text \<open>An element of a condition's list of waiters: the waiting thread and the priority recorded.\<close>

record semaphore_elem =
  waiter :: nat
  elem_priority :: int

datatype frame =
    SetLevel bool                    \<comment> \<open>\<open>intr_set_level (old_level)\<close> at the end of a function\<close>
  | SemaDown sema_ref bool           \<comment> \<open>in the loop of \<open>sema_down\<close>, after \<open>thread_block\<close>\<close>
  | LockAcquire nat bool             \<comment> \<open>\<open>lock_acquire\<close> after \<open>sema_down\<close>\<close>
  | LockReleaseUp nat                \<comment> \<open>\<open>lock_release\<close> at \<open>sema_up\<close>\<close>
  | LockReleasePriority              \<comment> \<open>\<open>lock_release\<close> at \<open>thread_set_priority\<close>\<close>
  | SetPriority int bool             \<comment> \<open>\<open>thread_set_priority\<close> after the first \<open>thread_yield\<close>\<close>
  | CondWaitDown                     \<comment> \<open>\<open>cond_wait\<close> at \<open>sema_down\<close>\<close>
  | CondWaitAcquire nat              \<comment> \<open>\<open>cond_wait\<close> at \<open>lock_acquire\<close>\<close>
  | CondBroadcast nat nat            \<comment> \<open>the loop of \<open>cond_broadcast\<close>\<close>
  | TimerSleep bool                  \<comment> \<open>\<open>timer_sleep\<close> after \<open>thread_block\<close>\<close>
  | IntrReturn                       \<comment> \<open>return from an external interrupt\<close>
  | KernelThread "sema_ref option"   \<comment> \<open>\<open>kernel_thread\<close>, for \<open>idle\<close> or for another function\<close>
  | IdleStart sema_ref               \<comment> \<open>the beginning of \<open>idle\<close>\<close>
  | IdleLoop                         \<comment> \<open>the loop of \<open>idle\<close> at \<open>intr_disable\<close>\<close>
  | IdleWait                         \<comment> \<open>the loop of \<open>idle\<close> after \<open>thread_block\<close>\<close>
  | AllocateTid nat                  \<comment> \<open>\<open>allocate_tid\<close> after \<open>lock_acquire\<close>\<close>
  | ThreadCreate nat "sema_ref option"  \<comment> \<open>\<open>thread_create\<close> after \<open>allocate_tid\<close>\<close>
  | ThreadStart sema_ref             \<comment> \<open>\<open>thread_start\<close> after \<open>thread_create\<close>\<close>

record kernel =
  thread_at :: "nat \<Rightarrow> thread"
  sema_at :: "sema_ref \<Rightarrow> semaphore"
  lock_at :: "nat \<Rightarrow> lock"
  cond_at :: "nat \<Rightarrow> semaphore_elem list"
  ready_list :: "nat list"
  all_list :: "nat list"
  sleeping_list :: "nat list"
  idle_thread :: "nat option"
  initial_thread :: nat
  current :: nat
  frames :: "nat \<Rightarrow> frame list"
  intr_on :: bool
  in_external_intr :: bool
  yield_on_return :: bool
  ticks :: int
  thread_ticks :: nat
  idle_ticks :: int
  kernel_ticks :: int
  user_ticks :: int
  load_avg :: int
  thread_mlfqs :: bool
  next_tid :: int

definition modify_thread :: "nat \<Rightarrow> (thread \<Rightarrow> thread) \<Rightarrow> kernel \<Rightarrow> kernel" where
  "modify_thread t f s = s\<lparr>thread_at := (thread_at s)(t := f (thread_at s t))\<rparr>"

definition modify_sema :: "sema_ref \<Rightarrow> (semaphore \<Rightarrow> semaphore) \<Rightarrow> kernel \<Rightarrow> kernel" where
  "modify_sema sema f s = s\<lparr>sema_at := (sema_at s)(sema := f (sema_at s sema))\<rparr>"

definition modify_lock :: "nat \<Rightarrow> (lock \<Rightarrow> lock) \<Rightarrow> kernel \<Rightarrow> kernel" where
  "modify_lock lock f s = s\<lparr>lock_at := (lock_at s)(lock := f (lock_at s lock))\<rparr>"

text \<open>What the running thread does after the function it calls next.\<close>

definition push :: "frame \<Rightarrow> kernel \<Rightarrow> kernel" where
  "push f s = s\<lparr>frames := (frames s)(current s := f # frames s (current s))\<rparr>"

section \<open>Interrupts\<close>

definition intr_context :: "kernel \<Rightarrow> bool" where
  "intr_context s = in_external_intr s"

definition intr_get_level :: "kernel \<Rightarrow> bool" where
  "intr_get_level s = intr_on s"

definition intr_enable :: "kernel \<Rightarrow> (bool \<times> kernel) option" where
  "intr_enable s = do {
     let old_level = intr_get_level s;
     ASSERT (\<not> intr_context s);
     Some (old_level, s\<lparr>intr_on := True\<rparr>)
   }"

definition intr_disable :: "kernel \<Rightarrow> bool \<times> kernel" where
  "intr_disable s = (intr_get_level s, s\<lparr>intr_on := False\<rparr>)"

definition intr_set_level :: "bool \<Rightarrow> kernel \<Rightarrow> kernel option" where
  "intr_set_level level s = (if level then map_option snd (intr_enable s) else Some (snd (intr_disable s)))"

definition intr_yield_on_return :: "kernel \<Rightarrow> kernel option" where
  "intr_yield_on_return s = do {
     ASSERT (intr_context s);
     Some (s\<lparr>yield_on_return := True\<rparr>)
   }"

section \<open>Scheduling\<close>

definition thread_priority_greater :: "kernel \<Rightarrow> nat \<Rightarrow> nat \<Rightarrow> bool" where
  "thread_priority_greater s a b = (priority (thread_at s b) < priority (thread_at s a))"

text \<open>The list operations with this order; \<open>list_sort\<close> is the stable sort.\<close>

definition insert_by_priority :: "kernel \<Rightarrow> nat \<Rightarrow> nat list \<Rightarrow> nat list" where
  "insert_by_priority s t ts = insert_ordered (thread_priority_greater s) t ts"

definition sort_by_priority :: "kernel \<Rightarrow> nat list \<Rightarrow> nat list" where
  "sort_by_priority s ts = sort_key (\<lambda>t. - priority (thread_at s t)) ts"

definition is_thread :: "kernel \<Rightarrow> nat option \<Rightarrow> bool" where
  "is_thread s t = (case t of None \<Rightarrow> False | Some t \<Rightarrow> magic (thread_at s t))"

text \<open>The page that holds the stack pointer, that is, the thread the processor runs.\<close>

definition running_thread :: "kernel \<Rightarrow> nat" where
  "running_thread s = current s"

definition thread_current :: "kernel \<Rightarrow> nat option" where
  "thread_current s = do {
     let t = running_thread s;
     ASSERT (is_thread s (Some t));
     ASSERT (status (thread_at s t) = THREAD_RUNNING);
     Some t
   }"

definition next_thread_to_run :: "kernel \<Rightarrow> nat option \<times> kernel" where
  "next_thread_to_run s = (
     case ready_list s of
       [] \<Rightarrow> (idle_thread s, s)
     | _ \<Rightarrow> let l = (if \<not> thread_mlfqs s then sort_by_priority s (ready_list s) else ready_list s)
            in (Some (hd l), s\<lparr>ready_list := tl l\<rparr>))"

text \<open>
  \<open>palloc_free_page\<close> overwrites the page in the debugging build, so the freed thread is no longer one.
\<close>

definition thread_schedule_tail :: "nat option \<Rightarrow> kernel \<Rightarrow> kernel option" where
  "thread_schedule_tail prv s = do {
     let cur = running_thread s;
     ASSERT (\<not> intr_get_level s);
     let s = modify_thread cur (status_update (\<lambda>_. THREAD_RUNNING)) s;
     let s = s\<lparr>thread_ticks := 0\<rparr>;
     case prv of
       None \<Rightarrow> Some s
     | Some p \<Rightarrow>
         if status (thread_at s p) = THREAD_DYING \<and> p \<noteq> initial_thread s then do {
           ASSERT (p \<noteq> cur);
           Some (modify_thread p (magic_update (\<lambda>_. False)) s)
         } else Some s
   }"

definition schedule :: "kernel \<Rightarrow> kernel option" where
  "schedule s = do {
     let cur = running_thread s;
     let (nxt, s) = next_thread_to_run s;
     ASSERT (\<not> intr_get_level s);
     ASSERT (status (thread_at s cur) \<noteq> THREAD_RUNNING);
     ASSERT (is_thread s nxt);
     if Some cur \<noteq> nxt then thread_schedule_tail (Some cur) (s\<lparr>current := the nxt\<rparr>)
     else thread_schedule_tail None s
   }"

definition thread_block :: "kernel \<Rightarrow> kernel option" where
  "thread_block s = do {
     ASSERT (\<not> intr_context s);
     ASSERT (\<not> intr_get_level s);
     cur \<leftarrow> thread_current s;
     schedule (modify_thread cur (status_update (\<lambda>_. THREAD_BLOCKED)) s)
   }"

definition thread_unblock :: "nat \<Rightarrow> kernel \<Rightarrow> kernel option" where
  "thread_unblock t s = do {
     ASSERT (is_thread s (Some t));
     let (old_level, s) = intr_disable s;
     ASSERT (status (thread_at s t) = THREAD_BLOCKED);
     let s = s\<lparr>ready_list := insert_by_priority s t (ready_list s)\<rparr>;
     let s = modify_thread t (status_update (\<lambda>_. THREAD_READY)) s;
     s \<leftarrow> (if intr_context s then do {
            cur \<leftarrow> thread_current s;
            if priority (thread_at s cur) < priority (thread_at s t) then intr_yield_on_return s else Some s
          } else Some s);
     intr_set_level old_level s
   }"

definition thread_yield :: "kernel \<Rightarrow> kernel option" where
  "thread_yield s = do {
     cur \<leftarrow> thread_current s;
     ASSERT (\<not> intr_context s);
     let (old_level, s) = intr_disable s;
     let s = (if Some cur \<noteq> idle_thread s then s\<lparr>ready_list := insert_by_priority s cur (ready_list s)\<rparr> else s);
     let s = modify_thread cur (status_update (\<lambda>_. THREAD_READY)) s;
     schedule (push (SetLevel old_level) s)
   }"

text \<open>The parts of \<open>thread_exit\<close> for kernel threads; a user process's page directory is freed before.\<close>

definition thread_exit :: "kernel \<Rightarrow> kernel option" where
  "thread_exit s = do {
     ASSERT (\<not> intr_context s);
     let (_, s) = intr_disable s;
     cur \<leftarrow> thread_current s;
     let s = s\<lparr>all_list := remove1 cur (all_list s)\<rparr>;
     schedule (modify_thread cur (status_update (\<lambda>_. THREAD_DYING)) s)
   }"

definition thread_foreach :: "(nat \<Rightarrow> kernel \<Rightarrow> kernel option) \<Rightarrow> kernel \<Rightarrow> kernel option" where
  "thread_foreach func s = do {
     ASSERT (\<not> intr_get_level s);
     fold (\<lambda>t r. Option.bind r (func t)) (all_list s) (Some s)
   }"

section \<open>Priorities\<close>

text \<open>\<open>thread_set_priority\<close> from the second test on.\<close>

definition set_priority_tail :: "int \<Rightarrow> bool \<Rightarrow> kernel \<Rightarrow> kernel option" where
  "set_priority_tail old_priority old_level s = (
     let cur = running_thread s in
     if priority (thread_at s cur) < old_priority \<and> ready_list s \<noteq> [] \<and>
       priority (thread_at s cur) < priority (thread_at s (hd (ready_list s)))
     then thread_yield (push (SetLevel old_level) s)
     else intr_set_level old_level s)"

definition thread_set_priority :: "int \<Rightarrow> kernel \<Rightarrow> kernel option" where
  "thread_set_priority new_priority s = (
     if thread_mlfqs s then Some s
     else do {
       let (old_level, s) = intr_disable s;
       cur \<leftarrow> thread_current s;
       let old_priority = priority (thread_at s cur);
       let s = modify_thread cur (base_priority_update (\<lambda>_. new_priority)) s;
       let s = (if old_priority < new_priority then modify_thread cur (priority_update (\<lambda>_. new_priority)) s
                else if new_priority < old_priority then
                  modify_thread cur (\<lambda>t. t\<lparr>priority := max (base_priority t) (donated_priority t)\<rparr>) s
                else s);
       if old_priority < priority (thread_at s cur)
       then thread_yield (push (SetPriority old_priority old_level) s)
       else set_priority_tail old_priority old_level s
     })"

definition thread_get_priority :: "kernel \<Rightarrow> int option" where
  "thread_get_priority s = do { cur \<leftarrow> thread_current s; Some (priority (thread_at s cur)) }"

definition thread_set_wakeup_tick :: "int \<Rightarrow> kernel \<Rightarrow> kernel option" where
  "thread_set_wakeup_tick t s = do { cur \<leftarrow> thread_current s; Some (modify_thread cur (wakeup_tick_update (\<lambda>_. t)) s) }"

definition thread_get_wakeup_tick :: "kernel \<Rightarrow> int option" where
  "thread_get_wakeup_tick s = do { cur \<leftarrow> thread_current s; Some (wakeup_tick (thread_at s cur)) }"

definition wakeup_tick_less :: "kernel \<Rightarrow> nat \<Rightarrow> nat \<Rightarrow> bool" where
  "wakeup_tick_less s a b = (wakeup_tick (thread_at s a) < wakeup_tick (thread_at s b))"

section \<open>The multi-level feedback queue scheduler\<close>

definition update_load_avg :: "kernel \<Rightarrow> kernel option" where
  "update_load_avg s = do {
     cur \<leftarrow> thread_current s;
     let ready_threads = int (length (ready_list s)) + (if Some cur \<noteq> idle_thread s then 1 else 0);
     l \<leftarrow> next_load_avg (load_avg s) ready_threads;
     Some (s\<lparr>load_avg := l\<rparr>)
   }"

definition update_recent_cpu :: "nat \<Rightarrow> kernel \<Rightarrow> kernel option" where
  "update_recent_cpu t s = (
     if Some t = idle_thread s then Some s
     else do {
       r \<leftarrow> next_recent_cpu (load_avg s) (recent_cpu (thread_at s t)) (nice (thread_at s t));
       Some (modify_thread t (recent_cpu_update (\<lambda>_. r)) s)
     })"

definition update_thread_priority :: "nat \<Rightarrow> kernel \<Rightarrow> kernel option" where
  "update_thread_priority t s = (
     if Some t = idle_thread s then Some s
     else Some (modify_thread t (\<lambda>th. th\<lparr>priority := mlfqs_priority (recent_cpu th) (nice th)\<rparr>) s))"

abbreviation (input) TIME_SLICE :: nat where "TIME_SLICE \<equiv> 4"
abbreviation (input) TIMER_FREQ :: int where "TIMER_FREQ \<equiv> 100"

definition mlfqs_update :: "kernel \<Rightarrow> kernel option" where
  "mlfqs_update s = (
     if cmod (ticks s) (int TIME_SLICE) = 0 then do {
       s \<leftarrow> thread_foreach update_thread_priority s;
       let s = s\<lparr>ready_list := sort_by_priority s (ready_list s)\<rparr>;
       if cmod (ticks s) TIMER_FREQ = 0 then do {
         s \<leftarrow> update_load_avg s;
         thread_foreach update_recent_cpu s
       } else Some s
     } else Some s)"

definition mlfqs_tick :: "nat \<Rightarrow> kernel \<Rightarrow> kernel option" where
  "mlfqs_tick t s = mlfqs_update
     (if Some t \<noteq> idle_thread s then modify_thread t (recent_cpu_update (\<lambda>c. ADD_FP_INT c 1)) s else s)"

text \<open>The statistics.\<close>

definition count_tick :: "nat \<Rightarrow> kernel \<Rightarrow> kernel" where
  "count_tick t s = (
     if Some t = idle_thread s then s\<lparr>idle_ticks := idle_ticks s + 1\<rparr>
     else if has_pagedir (thread_at s t) then s\<lparr>user_ticks := user_ticks s + 1\<rparr>
     else s\<lparr>kernel_ticks := kernel_ticks s + 1\<rparr>)"

definition thread_tick :: "kernel \<Rightarrow> kernel option" where
  "thread_tick s = do {
     t \<leftarrow> thread_current s;
     s \<leftarrow> (if thread_mlfqs s then mlfqs_tick t s else Some s);
     let s = count_tick t s;
     let s = s\<lparr>thread_ticks := (thread_ticks s + 1) mod 2 ^ 32\<rparr>;
     if TIME_SLICE \<le> thread_ticks s then intr_yield_on_return s else Some s
   }"

definition thread_set_nice :: "int \<Rightarrow> kernel \<Rightarrow> kernel option" where
  "thread_set_nice n s = do {
     cur \<leftarrow> thread_current s;
     let old_priority = priority (thread_at s cur);
     let s = modify_thread cur (nice_update (\<lambda>_. n)) s;
     s \<leftarrow> update_thread_priority cur s;
     let s = s\<lparr>ready_list := sort_by_priority s (ready_list s)\<rparr>;
     if old_priority < priority (thread_at s cur) then thread_yield s else Some s
   }"

definition thread_get_nice :: "kernel \<Rightarrow> int option" where
  "thread_get_nice s = do { cur \<leftarrow> thread_current s; Some (nice (thread_at s cur)) }"

definition thread_get_load_avg :: "kernel \<Rightarrow> int" where
  "thread_get_load_avg s = FP_TO_INT_NEAREST (wrap_int (load_avg s * 100))"

definition thread_get_recent_cpu :: "kernel \<Rightarrow> int option" where
  "thread_get_recent_cpu s = do {
     cur \<leftarrow> thread_current s;
     Some (FP_TO_INT_NEAREST (wrap_int (recent_cpu (thread_at s cur) * 100)))
   }"

definition thread_tid :: "kernel \<Rightarrow> int option" where
  "thread_tid s = do { cur \<leftarrow> thread_current s; Some (tid (thread_at s cur)) }"

section \<open>New threads\<close>

text \<open>
  \<open>init_thread\<close> on the page \<open>t\<close>.  The saved stack of the thread is what the frames of the model stand for.
\<close>

definition init_thread :: "nat \<Rightarrow> int \<Rightarrow> kernel \<Rightarrow> kernel option" where
  "init_thread t prio s = do {
     ASSERT (PRI_MIN \<le> prio \<and> prio \<le> PRI_MAX);
     let s = modify_thread t (\<lambda>_. \<lparr>tid = 0, status = THREAD_BLOCKED, priority = prio, wakeup_tick = 0, nice = 0,
       recent_cpu = 0, base_priority = prio, donated_priority = PRI_MIN, waiting_lock = None, locks = [],
       has_pagedir = False, magic = True\<rparr>) s;
     let (old_level, s) = intr_disable s;
     let s = s\<lparr>all_list := all_list s @ [t]\<rparr>;
     intr_set_level old_level s
   }"

definition kernel_thread :: "sema_ref option \<Rightarrow> kernel \<Rightarrow> kernel option" where
  "kernel_thread idle_started s = do {
     (_, s) \<leftarrow> intr_enable s;
     case idle_started of None \<Rightarrow> Some s | Some sema \<Rightarrow> Some (push (IdleStart sema) s)
   }"

text \<open>The body of the loop of \<open>idle\<close>, up to \<open>thread_block\<close> and from there on.\<close>

definition idle_block :: "kernel \<Rightarrow> kernel option" where
  "idle_block s = do {
     let (_, s) = intr_disable s;
     thread_block (push IdleWait s)
   }"

definition idle_wait :: "kernel \<Rightarrow> kernel" where
  "idle_wait s = push IdleLoop (s\<lparr>intr_on := True\<rparr>)"

end
