(* ===== verification/Synch.thy ===== *)
theory Synch
  imports Threads
begin

text \<open>
  Semaphores, locks with priority donation, and condition variables (\<open>src/pintos/src/threads/synch.c\<close>), and the
  functions of \<open>src/pintos/src/threads/thread.c\<close> that use them: \<open>allocate_tid\<close>, \<open>thread_create\<close>, \<open>thread_start\<close>, \<open>thread_init\<close>
  and the beginning of \<open>idle\<close>.

  A function that goes on after a call that may block is cut at the call: the part after the call has the
  suffix \<open>_tail\<close> and is what the frame pushed before the call stands for.
\<close>

section \<open>Semaphores\<close>

definition sema_init :: "sema_ref \<Rightarrow> nat \<Rightarrow> kernel \<Rightarrow> kernel" where
  "sema_init sema val s = modify_sema sema (\<lambda>_. \<lparr>sema_value = val, waiters = []\<rparr>) s"

text \<open>One iteration of the loop of \<open>sema_down\<close>, and what follows the loop.\<close>

definition sema_down_loop :: "sema_ref \<Rightarrow> bool \<Rightarrow> kernel \<Rightarrow> kernel option" where
  "sema_down_loop sema old_level s = (
     if sema_value (sema_at s sema) = 0 then do {
       cur \<leftarrow> thread_current s;
       let s = modify_sema sema (waiters_update (insert_by_priority s cur)) s;
       thread_block (push (SemaDown sema old_level) s)
     } else
       intr_set_level old_level (modify_sema sema (sema_value_update (\<lambda>v. v - 1)) s))"

definition sema_down :: "sema_ref \<Rightarrow> kernel \<Rightarrow> kernel option" where
  "sema_down sema s = do {
     ASSERT (\<not> intr_context s);
     let (old_level, s) = intr_disable s;
     sema_down_loop sema old_level s
   }"

definition sema_try_down :: "sema_ref \<Rightarrow> kernel \<Rightarrow> (bool \<times> kernel) option" where
  "sema_try_down sema s = do {
     let (old_level, s) = intr_disable s;
     let (success, s) = (if 0 < sema_value (sema_at s sema)
                         then (True, modify_sema sema (sema_value_update (\<lambda>v. v - 1)) s) else (False, s));
     s \<leftarrow> intr_set_level old_level s;
     Some (success, s)
   }"

text \<open>The part of \<open>sema_up\<close> that wakes a thread.\<close>

definition sema_wake :: "sema_ref \<Rightarrow> kernel \<Rightarrow> kernel option" where
  "sema_wake sema s = (
     if waiters (sema_at s sema) = [] then Some s
     else let w = sort_by_priority s (waiters (sema_at s sema))
          in thread_unblock (hd w) (modify_sema sema (waiters_update (\<lambda>_. tl w)) s))"

definition sema_up :: "sema_ref \<Rightarrow> kernel \<Rightarrow> kernel option" where
  "sema_up sema s = do {
     let (old_level, s) = intr_disable s;
     s \<leftarrow> sema_wake sema s;
     let s = modify_sema sema (sema_value_update (\<lambda>v. (v + 1) mod 2 ^ 32)) s;
     s \<leftarrow> (if intr_context s then intr_yield_on_return s else Some s);
     s \<leftarrow> intr_set_level old_level s;
     if \<not> intr_context s \<and> old_level then thread_yield s else Some s
   }"

section \<open>Locks\<close>

abbreviation (input) MAX_DONATION_DEPTH :: nat where "MAX_DONATION_DEPTH \<equiv> 8"

definition lock_priority_greater :: "kernel \<Rightarrow> nat \<Rightarrow> nat \<Rightarrow> bool" where
  "lock_priority_greater s a b = (max_priority (lock_at s b) < max_priority (lock_at s a))"

definition lock_init :: "nat \<Rightarrow> kernel \<Rightarrow> kernel" where
  "lock_init lock s =
     sema_init (LockSema lock) 1 (modify_lock lock (\<lambda>_. \<lparr>holder = None, max_priority = PRI_MIN\<rparr>) s)"

definition lock_held_by_current_thread :: "nat \<Rightarrow> kernel \<Rightarrow> bool option" where
  "lock_held_by_current_thread lock s = do {
     cur \<leftarrow> thread_current s;
     Some (holder (lock_at s lock) = Some cur)
   }"

text \<open>Thread \<open>h\<close> receives the priority \<open>p\<close>.\<close>

definition donate :: "nat \<Rightarrow> int \<Rightarrow> kernel \<Rightarrow> kernel" where
  "donate h p s = modify_thread h (\<lambda>t. t\<lparr>priority := max (priority t) p, donated_priority := max (donated_priority t) p\<rparr>) s"

text \<open>The loop along the chain of locks and holders; \<open>d\<close> bounds its iterations.\<close>

fun donate_chain :: "nat \<Rightarrow> nat \<Rightarrow> kernel \<Rightarrow> kernel" where
  "donate_chain 0 t s = s"
| "donate_chain (Suc d) t s = (
     case waiting_lock (thread_at s t) of
       None \<Rightarrow> s
     | Some l \<Rightarrow>
         let p = priority (thread_at s t);
             s = modify_lock l (max_priority_update (\<lambda>m. max m p)) s
         in case holder (lock_at s l) of
              None \<Rightarrow> s
            | Some h \<Rightarrow> donate_chain d h (donate h p s))"

definition lock_donate :: "nat \<Rightarrow> nat \<Rightarrow> kernel \<Rightarrow> kernel" where
  "lock_donate cur lock s = (
     let s = modify_thread cur (waiting_lock_update (\<lambda>_. Some lock)) s
     in case holder (lock_at s lock) of
          None \<Rightarrow> s
        | Some h \<Rightarrow>
            let p = priority (thread_at s cur);
                s = modify_lock lock (max_priority_update (\<lambda>m. max m p)) s
            in donate_chain MAX_DONATION_DEPTH h (donate h p s))"

definition lock_acquire :: "nat \<Rightarrow> kernel \<Rightarrow> kernel option" where
  "lock_acquire lock s = do {
     ASSERT (\<not> intr_context s);
     held \<leftarrow> lock_held_by_current_thread lock s;
     ASSERT (\<not> held);
     cur \<leftarrow> thread_current s;
     let (old_level, s) = intr_disable s;
     let s = (if \<not> thread_mlfqs s then lock_donate cur lock s else s);
     sema_down (LockSema lock) (push (LockAcquire lock old_level) s)
   }"

text \<open>The bookkeeping of the new holder \<open>cur\<close>.\<close>

definition lock_settle :: "nat \<Rightarrow> nat \<Rightarrow> kernel \<Rightarrow> kernel" where
  "lock_settle cur lock s = (
     let w = sort_by_priority s (waiters (sema_at s (LockSema lock)));
         s = modify_sema (LockSema lock) (waiters_update (\<lambda>_. w)) s;
         s = modify_lock lock (max_priority_update
               (\<lambda>_. if w \<noteq> [] then priority (thread_at s (hd w)) else PRI_MIN)) s;
         s = modify_thread cur (waiting_lock_update (\<lambda>_. None)) s
     in modify_thread cur (locks_update (insert_ordered (lock_priority_greater s) lock)) s)"

definition lock_acquire_tail :: "nat \<Rightarrow> bool \<Rightarrow> kernel \<Rightarrow> kernel option" where
  "lock_acquire_tail lock old_level s = do {
     let s = (if \<not> thread_mlfqs s then lock_settle (running_thread s) lock s else s);
     cur \<leftarrow> thread_current s;
     intr_set_level old_level (modify_lock lock (holder_update (\<lambda>_. Some cur)) s)
   }"

definition lock_try_acquire :: "nat \<Rightarrow> kernel \<Rightarrow> (bool \<times> kernel) option" where
  "lock_try_acquire lock s = do {
     held \<leftarrow> lock_held_by_current_thread lock s;
     ASSERT (\<not> held);
     (success, s) \<leftarrow> sema_try_down (LockSema lock) s;
     if success then do {
       cur \<leftarrow> thread_current s;
       let s = modify_lock lock (holder_update (\<lambda>_. Some cur)) s;
       Some (success, if \<not> thread_mlfqs s
         then modify_thread cur (locks_update (insert_ordered (lock_priority_greater s) lock)) s else s)
     } else Some (success, s)
   }"

text \<open>The lock leaves the list of its holder, whose donated priority is that of the remaining locks.\<close>

definition lock_withdraw :: "nat \<Rightarrow> nat \<Rightarrow> kernel \<Rightarrow> kernel" where
  "lock_withdraw cur lock s = (
     let s = modify_thread cur (locks_update (remove1 lock)) s;
         l = sort_key (\<lambda>l. - max_priority (lock_at s l)) (locks (thread_at s cur));
         s = modify_thread cur (locks_update (\<lambda>_. l)) s
     in modify_thread cur (donated_priority_update
          (\<lambda>_. if l \<noteq> [] then max_priority (lock_at s (hd l)) else PRI_MIN)) s)"

text \<open>\<open>lock_release\<close> up to the call of \<open>sema_up\<close>; an interrupt may come in before the call.\<close>

definition lock_release :: "nat \<Rightarrow> kernel \<Rightarrow> kernel option" where
  "lock_release lock s = do {
     held \<leftarrow> lock_held_by_current_thread lock s;
     ASSERT held;
     cur \<leftarrow> thread_current s;
     let s = (if \<not> thread_mlfqs s then lock_withdraw cur lock s else s);
     let s = modify_lock lock (holder_update (\<lambda>_. None)) s;
     Some (push (LockReleaseUp lock) (push LockReleasePriority s))
   }"

definition lock_release_tail :: "kernel \<Rightarrow> kernel option" where
  "lock_release_tail s = (
     if \<not> thread_mlfqs s then thread_set_priority (base_priority (thread_at s (running_thread s))) s else Some s)"

section \<open>Condition variables\<close>

definition semaphore_priority_greater :: "semaphore_elem \<Rightarrow> semaphore_elem \<Rightarrow> bool" where
  "semaphore_priority_greater a b = (elem_priority b < elem_priority a)"

definition cond_init :: "nat \<Rightarrow> kernel \<Rightarrow> kernel" where
  "cond_init cond s = s\<lparr>cond_at := (cond_at s)(cond := [])\<rparr>"

definition cond_wait :: "nat \<Rightarrow> nat \<Rightarrow> kernel \<Rightarrow> kernel option" where
  "cond_wait cond lock s = do {
     ASSERT (\<not> intr_context s);
     held \<leftarrow> lock_held_by_current_thread lock s;
     ASSERT held;
     let me = running_thread s;
     let s = sema_init (WaiterSema me) 0 s;
     prio \<leftarrow> thread_get_priority s;
     let s = s\<lparr>cond_at := (cond_at s)(cond :=
       insert_ordered semaphore_priority_greater \<lparr>waiter = me, elem_priority = prio\<rparr> (cond_at s cond))\<rparr>;
     lock_release lock (push CondWaitDown (push (CondWaitAcquire lock) s))
   }"

definition cond_signal :: "nat \<Rightarrow> nat \<Rightarrow> kernel \<Rightarrow> kernel option" where
  "cond_signal cond lock s = do {
     ASSERT (\<not> intr_context s);
     held \<leftarrow> lock_held_by_current_thread lock s;
     ASSERT held;
     if cond_at s cond \<noteq> [] then do {
       let w = sort_key (\<lambda>e. - elem_priority e) (cond_at s cond);
       sema_up (WaiterSema (waiter (hd w))) (s\<lparr>cond_at := (cond_at s)(cond := tl w)\<rparr>)
     } else Some s
   }"

text \<open>One iteration of the loop of \<open>cond_broadcast\<close>; the frame stands for the next one.\<close>

definition cond_broadcast :: "nat \<Rightarrow> nat \<Rightarrow> kernel \<Rightarrow> kernel option" where
  "cond_broadcast cond lock s = (
     if cond_at s cond \<noteq> [] then cond_signal cond lock (push (CondBroadcast cond lock) s) else Some s)"

section \<open>Creation of threads\<close>

abbreviation (input) tid_lock :: nat where "tid_lock \<equiv> 0"

definition allocate_tid :: "nat \<Rightarrow> kernel \<Rightarrow> kernel option" where
  "allocate_tid t s = lock_acquire tid_lock (push (AllocateTid t) s)"

definition allocate_tid_tail :: "nat \<Rightarrow> kernel \<Rightarrow> kernel option" where
  "allocate_tid_tail t s = do {
     let s = modify_thread t (tid_update (\<lambda>_. next_tid s)) s;
     lock_release tid_lock (s\<lparr>next_tid := wrap_int (next_tid s + 1)\<rparr>)
   }"

text \<open>
  \<open>thread_create\<close> with the page that \<open>palloc_get_page\<close> returned, if any; the page is zeroed, so its stack is empty.
  The function to run is \<open>idle\<close>, given by its semaphore, or another one.
\<close>

definition thread_create :: "nat option \<Rightarrow> int \<Rightarrow> sema_ref option \<Rightarrow> kernel \<Rightarrow> kernel option" where
  "thread_create page prio idle_started s = (
     case page of
       None \<Rightarrow> Some s
     | Some t \<Rightarrow> do {
         let s = s\<lparr>frames := (frames s)(t := [])\<rparr>;
         s \<leftarrow> init_thread t prio s;
         s \<leftarrow> (if thread_mlfqs s then
                (if idle_started \<noteq> None
                 then Some (modify_thread t (\<lambda>th. th\<lparr>priority := PRI_MIN, recent_cpu := 0, nice := 0\<rparr>) s)
                 else do {
                   cur \<leftarrow> thread_current s;
                   Some (modify_thread t (\<lambda>th. th\<lparr>priority := PRI_DEFAULT, recent_cpu := recent_cpu (thread_at s cur),
                     nice := nice (thread_at s cur)\<rparr>) s)
                 })
              else Some s);
         allocate_tid t (push (ThreadCreate t idle_started) s)
       })"

definition thread_create_tail :: "nat \<Rightarrow> sema_ref option \<Rightarrow> kernel \<Rightarrow> kernel option" where
  "thread_create_tail t idle_started s = do {
     ASSERT (is_thread s (Some t));
     let s = s\<lparr>frames := (frames s)(t := [KernelThread idle_started])\<rparr>;
     s \<leftarrow> thread_unblock t s;
     cur \<leftarrow> thread_current s;
     if priority (thread_at s cur) < priority (thread_at s t) then thread_yield s else Some s
   }"

definition idle :: "sema_ref \<Rightarrow> kernel \<Rightarrow> kernel option" where
  "idle idle_started s = do {
     cur \<leftarrow> thread_current s;
     sema_up idle_started (push IdleLoop (s\<lparr>idle_thread := Some cur\<rparr>))
   }"

definition thread_start :: "nat option \<Rightarrow> sema_ref \<Rightarrow> kernel \<Rightarrow> kernel option" where
  "thread_start page idle_started s =
     thread_create page PRI_MIN (Some idle_started) (push (ThreadStart idle_started) (sema_init idle_started 0 s))"

definition thread_start_tail :: "sema_ref \<Rightarrow> kernel \<Rightarrow> kernel option" where
  "thread_start_tail idle_started s = do {
     (_, s) \<leftarrow> intr_enable s;
     sema_down idle_started s
   }"

definition thread_init :: "kernel \<Rightarrow> kernel option" where
  "thread_init s = do {
     ASSERT (\<not> intr_get_level s);
     let s = lock_init tid_lock s;
     let s = s\<lparr>ready_list := [], all_list := []\<rparr>;
     let s = s\<lparr>initial_thread := running_thread s\<rparr>;
     s \<leftarrow> init_thread (initial_thread s) PRI_DEFAULT s;
     let s = modify_thread (initial_thread s) (status_update (\<lambda>_. THREAD_RUNNING)) s;
     allocate_tid (initial_thread s) s
   }"

end
