(* ===== verification/Timer.thy ===== *)
theory Timer
  imports Synch
begin

text \<open>
  The timer (\<open>src/pintos/src/devices/timer.c\<close>): sleeping, waking the sleepers in the interrupt handler, and the
  delivery of the timer interrupt by \<open>intr_handler\<close> (\<open>src/pintos/src/threads/interrupt.c\<close>).

  Tick counts are \<open>int64_t\<close>: integers, with the reduction modulo \<open>2 ^ 64\<close> written out at the additions.
\<close>

definition wrap_long :: "int \<Rightarrow> int" where
  "wrap_long i = (i + 2 ^ 63) mod 2 ^ 64 - 2 ^ 63"

lemma wrap_long_id [simp]: "- (2 ^ 63) \<le> i \<Longrightarrow> i < 2 ^ 63 \<Longrightarrow> wrap_long i = i"
  by (simp add: wrap_long_def)

definition timer_ticks :: "kernel \<Rightarrow> (int \<times> kernel) option" where
  "timer_ticks s = do {
     let (old_level, s) = intr_disable s;
     let t = ticks s;
     s \<leftarrow> intr_set_level old_level s;
     Some (t, s)
   }"

definition timer_elapsed :: "int \<Rightarrow> kernel \<Rightarrow> (int \<times> kernel) option" where
  "timer_elapsed since s = do {
     (t, s) \<leftarrow> timer_ticks s;
     Some (wrap_long (t - since), s)
   }"

definition timer_sleep :: "int \<Rightarrow> kernel \<Rightarrow> kernel option" where
  "timer_sleep n s = (
     if n \<le> 0 then Some s
     else do {
       let (old_level, s) = intr_disable s;
       (t, s) \<leftarrow> timer_ticks s;
       s \<leftarrow> thread_set_wakeup_tick (wrap_long (t + n)) s;
       cur \<leftarrow> thread_current s;
       let s = s\<lparr>sleeping_list := insert_ordered (wakeup_tick_less s) cur (sleeping_list s)\<rparr>;
       thread_block (push (TimerSleep old_level) s)
     })"

text \<open>Busy waiting changes no state the model has; what remains of it is its assertion.\<close>

definition real_time_delay :: "int \<Rightarrow> int \<Rightarrow> kernel \<Rightarrow> kernel option" where
  "real_time_delay num denom s = do {
     ASSERT (cmod denom 1000 = 0);
     Some s
   }"

definition real_time_sleep :: "int \<Rightarrow> int \<Rightarrow> kernel \<Rightarrow> kernel option" where
  "real_time_sleep num denom s = do {
     let n = cdiv (wrap_long (num * TIMER_FREQ)) denom;
     ASSERT (intr_get_level s);
     if 0 < n then timer_sleep n s else real_time_delay num denom s
   }"

definition timer_msleep :: "int \<Rightarrow> kernel \<Rightarrow> kernel option" where
  "timer_msleep ms s = real_time_sleep ms 1000 s"

definition timer_usleep :: "int \<Rightarrow> kernel \<Rightarrow> kernel option" where
  "timer_usleep us s = real_time_sleep us (1000 * 1000) s"

definition timer_nsleep :: "int \<Rightarrow> kernel \<Rightarrow> kernel option" where
  "timer_nsleep ns s = real_time_sleep ns (1000 * 1000 * 1000) s"

definition timer_mdelay :: "int \<Rightarrow> kernel \<Rightarrow> kernel option" where
  "timer_mdelay ms s = real_time_delay ms 1000 s"

definition timer_udelay :: "int \<Rightarrow> kernel \<Rightarrow> kernel option" where
  "timer_udelay us s = real_time_delay us (1000 * 1000) s"

definition timer_ndelay :: "int \<Rightarrow> kernel \<Rightarrow> kernel option" where
  "timer_ndelay ns s = real_time_delay ns (1000 * 1000 * 1000) s"

text \<open>The loop of the interrupt handler over the sleeping list.\<close>

fun wake_sleepers :: "nat list \<Rightarrow> kernel \<Rightarrow> kernel option" where
  "wake_sleepers [] s = Some s"
| "wake_sleepers (t # ts) s = (
     if ticks s < wakeup_tick (thread_at s t) then Some s
     else do {
       s \<leftarrow> thread_unblock t (s\<lparr>sleeping_list := ts\<rparr>);
       cur \<leftarrow> thread_current s;
       s \<leftarrow> (if priority (thread_at s cur) < priority (thread_at s t) then intr_yield_on_return s else Some s);
       wake_sleepers ts s
     })"

definition timer_interrupt :: "kernel \<Rightarrow> kernel option" where
  "timer_interrupt s = do {
     let s = s\<lparr>ticks := wrap_long (ticks s + 1)\<rparr>;
     s \<leftarrow> thread_tick s;
     let (old_level, s) = intr_disable s;
     s \<leftarrow> wake_sleepers (sleeping_list s) s;
     intr_set_level old_level s
   }"

text \<open>
  An external interrupt: the processor clears the interrupt flag, \<open>intr_handler\<close> runs the registered handler, and
  the return from the interrupt sets the flag again.
\<close>

definition intr_handler :: "(kernel \<Rightarrow> kernel option) \<Rightarrow> kernel \<Rightarrow> kernel option" where
  "intr_handler handler s = do {
     ASSERT (\<not> intr_get_level s);
     ASSERT (\<not> intr_context s);
     let s = s\<lparr>in_external_intr := True, yield_on_return := False\<rparr>;
     s \<leftarrow> handler s;
     ASSERT (\<not> intr_get_level s);
     ASSERT (intr_context s);
     let s = s\<lparr>in_external_intr := False\<rparr>;
     if yield_on_return s then thread_yield s else Some s
   }"

definition external_interrupt :: "(kernel \<Rightarrow> kernel option) \<Rightarrow> kernel \<Rightarrow> kernel option" where
  "external_interrupt handler s = intr_handler handler (push IntrReturn (s\<lparr>intr_on := False\<rparr>))"

definition intr_return :: "kernel \<Rightarrow> kernel" where
  "intr_return s = s\<lparr>intr_on := True\<rparr>"

text \<open>\<open>timer_calibrate\<close>, for what \<open>too_many_loops\<close> answers.\<close>

partial_function (option) calibrate_double :: "(nat \<Rightarrow> bool) \<Rightarrow> nat \<Rightarrow> nat option" where
  "calibrate_double too_many loops = (
     if too_many (loops * 2 mod 2 ^ 32) then Some loops
     else do {
       ASSERT (loops * 2 mod 2 ^ 32 \<noteq> 0);
       calibrate_double too_many (loops * 2 mod 2 ^ 32)
     })"

fun calibrate_refine :: "(nat \<Rightarrow> bool) \<Rightarrow> nat \<Rightarrow> nat \<Rightarrow> nat \<Rightarrow> nat \<Rightarrow> nat" where
  "calibrate_refine too_many high_bit test_bit 0 loops = loops"
| "calibrate_refine too_many high_bit test_bit (Suc n) loops =
     calibrate_refine too_many high_bit (test_bit div 2) n
       (if \<not> too_many (high_bit OR test_bit) then loops OR test_bit else loops)"

text \<open>From \<open>high_bit >> 1\<close> down to \<open>high_bit >> 10\<close>, exclusive, the test bit takes nine values.\<close>

definition timer_calibrate :: "(nat \<Rightarrow> bool) \<Rightarrow> kernel \<Rightarrow> nat option" where
  "timer_calibrate too_many s = do {
     ASSERT (intr_get_level s);
     high_bit \<leftarrow> calibrate_double too_many (2 ^ 10);
     Some (calibrate_refine too_many high_bit (high_bit div 2) 9 high_bit)
   }"

lemma or_low_bit: "2 ^ Suc m dvd a \<Longrightarrow> a OR 2 ^ m = a + (2 ^ m :: nat)"
proof -
  assume d: "2 ^ Suc m dvd a"
  have "a AND 2 ^ m = 0"
  proof (rule bit_eqI)
    fix i
    have "take_bit (Suc m) a = 0" using d by (simp only: take_bit_eq_0_iff)
    then have "\<not> bit a m" by (metis bit_0_eq bit_take_bit_iff bot_apply bot_bool_def lessI)
    then show "bit (a AND 2 ^ m) i = bit 0 i" by (auto simp: bit_and_iff bit_exp_iff)
  qed
  then show ?thesis by (simp add: disjunctive_add_eq_or)
qed


lemma calibrate_refine_range:
  assumes "\<And>t. t < k \<Longrightarrow> too_many (2 ^ k OR 2 ^ t) \<longleftrightarrow> m < t" "m < k" "e + n < k"
  shows "calibrate_refine too_many (2 ^ k) (2 ^ (e + n)) n (2 ^ k + (2 ^ Suc m - 2 ^ Suc (e + n))) = 2 ^ k + (2 ^ Suc m - 2 ^ Suc e)"
  using assms(3)
proof (induction n)
  case (Suc n)
  let ?t = "Suc (e + n)"
  let ?l = "2 ^ k + (2 ^ Suc m - 2 ^ Suc ?t) :: nat"
  have "(if \<not> too_many (2 ^ k OR 2 ^ ?t) then ?l OR 2 ^ ?t else ?l) = 2 ^ k + (2 ^ Suc m - 2 ^ ?t)"
  proof (cases "?t \<le> m")
    case True
    have d: "(2 :: nat) ^ Suc ?t dvd 2 ^ k" "(2 :: nat) ^ Suc ?t dvd 2 ^ Suc m" using Suc.prems True
      by (simp_all only: le_imp_power_dvd Suc_le_mono Suc_leI)
    have le: "(2 :: nat) ^ Suc ?t \<le> 2 ^ Suc m" by (rule power_increasing) (use True in auto)
    have "2 ^ Suc ?t dvd ?l" using d by (simp del: power_Suc)
    then have "?l OR 2 ^ ?t = ?l + 2 ^ ?t" by (rule or_low_bit)
    then show ?thesis using assms(1) [of ?t] Suc.prems True le by simp
  next
    case False
    then have "(2 :: nat) ^ Suc m \<le> 2 ^ ?t" "(2 :: nat) ^ Suc m \<le> 2 ^ Suc ?t" by (auto intro!: power_increasing simp del: power_Suc)
    then show ?thesis using assms(1) [of ?t] Suc.prems False by (simp del: power_Suc)
  qed
  moreover have "2 ^ ?t div 2 = (2 :: nat) ^ (e + n)" by simp
  ultimately show ?case using Suc unfolding add_Suc_right calibrate_refine.simps by simp
qed simp

lemma calibrate_double_limit:
  assumes "2 ^ k \<le> limit" "limit < 2 ^ Suc k" "k \<le> 30" "d \<le> k"
  shows "calibrate_double (\<lambda>n. limit < n) (2 ^ (k - d)) = Some (2 ^ k)"
  using assms(4)
proof (induction d)
  case 0
  have "(2 :: nat) ^ Suc k \<le> 2 ^ 31" by (rule power_increasing) (use assms in auto)
  then have "2 ^ k * 2 mod 2 ^ 32 = (2 :: nat) ^ Suc k" by simp
  then show ?case using assms(2) by (subst calibrate_double.simps) simp
next
  case (Suc d)
  have e: "k - d = Suc (k - Suc d)" using Suc.prems by simp
  have "(2 :: nat) ^ (k - d) \<le> 2 ^ 30" by (rule power_increasing) (use assms in auto)
  then have m: "2 ^ (k - Suc d) * 2 mod 2 ^ 32 = (2 :: nat) ^ (k - d)" unfolding e by simp
  have "(2 :: nat) ^ (k - d) \<le> 2 ^ k" by (rule power_increasing) auto
  then have "\<not> limit < 2 ^ (k - d)" using assms(1) by linarith
  then show ?case using Suc unfolding calibrate_double.simps [of _ "2 ^ (k - Suc d)"] m by simp
qed

end
