(* ===== verification/Kernel_Steps.thy ===== *)
theory Kernel_Steps
  imports Timer
begin

text \<open>
  The kernel as a transition system.  A transition is one of

    \<^item> a call of a kernel function by the running thread, when it is in none,
    \<^item> the execution of the top frame of the running thread, that is, of the kernel function it is in
      up to the point where it calls another one that may block, or returns,
    \<^item> a timer interrupt, whenever interrupts are on.

  A transition whose function panics does not exist, and one theorem below says that no transition of the last two
  kinds ever panics.  What a thread runs with interrupts on inside one part of a function is one transition;
  interrupts come between the parts.
\<close>

fun run_frame :: "frame \<Rightarrow> kernel \<Rightarrow> kernel option" where
  "run_frame (SetLevel old_level) s = intr_set_level old_level s"
| "run_frame (SemaDown sema old_level) s = sema_down_loop sema old_level s"
| "run_frame (LockAcquire lock old_level) s = lock_acquire_tail lock old_level s"
| "run_frame (LockReleaseUp lock) s = sema_up (LockSema lock) s"
| "run_frame LockReleasePriority s = lock_release_tail s"
| "run_frame (SetPriority old_priority old_level) s = set_priority_tail old_priority old_level s"
| "run_frame CondWaitDown s = sema_down (WaiterSema (running_thread s)) s"
| "run_frame (CondWaitAcquire lock) s = lock_acquire lock s"
| "run_frame (CondBroadcast cond lock) s = cond_broadcast cond lock s"
| "run_frame (TimerSleep old_level) s = intr_set_level old_level s"
| "run_frame IntrReturn s = Some (intr_return s)"
| "run_frame (KernelThread idle_started) s = kernel_thread idle_started s"
| "run_frame (IdleStart sema) s = idle sema s"
| "run_frame IdleLoop s = idle_block s"
| "run_frame IdleWait s = Some (idle_wait s)"
| "run_frame (AllocateTid t) s = allocate_tid_tail t s"
| "run_frame (ThreadCreate t idle_started) s = thread_create_tail t idle_started s"
| "run_frame (ThreadStart sema) s = thread_start_tail sema s"

definition pop :: "kernel \<Rightarrow> kernel" where
  "pop s = s\<lparr>frames := (frames s)(current s := tl (frames s (current s)))\<rparr>"

definition resume :: "kernel \<Rightarrow> kernel option" where
  "resume s = (case frames s (current s) of [] \<Rightarrow> None | f # fs \<Rightarrow> run_frame f (pop s))"

text \<open>The calls a thread may make.\<close>

datatype call =
    CallSemaDown nat | CallSemaTryDown nat | CallSemaUp nat
  | CallLockAcquire nat | CallLockTryAcquire nat | CallLockRelease nat
  | CallCondWait nat nat | CallCondSignal nat nat | CallCondBroadcast nat nat
  | CallThreadCreate "nat option" int | CallThreadExit | CallThreadYield
  | CallThreadSetPriority int | CallThreadSetNice int | CallTimerSleep int

fun perform :: "call \<Rightarrow> kernel \<Rightarrow> kernel option" where
  "perform (CallSemaDown sema) s = sema_down (Sema sema) s"
| "perform (CallSemaTryDown sema) s = map_option snd (sema_try_down (Sema sema) s)"
| "perform (CallSemaUp sema) s = sema_up (Sema sema) s"
| "perform (CallLockAcquire lock) s = lock_acquire lock s"
| "perform (CallLockTryAcquire lock) s = map_option snd (lock_try_acquire lock s)"
| "perform (CallLockRelease lock) s = lock_release lock s"
| "perform (CallCondWait cond lock) s = cond_wait cond lock s"
| "perform (CallCondSignal cond lock) s = cond_signal cond lock s"
| "perform (CallCondBroadcast cond lock) s = cond_broadcast cond lock s"
| "perform (CallThreadCreate page prio) s = thread_create page prio None s"
| "perform CallThreadExit s = thread_exit s"
| "perform CallThreadYield s = thread_yield s"
| "perform (CallThreadSetPriority prio) s = thread_set_priority prio s"
| "perform (CallThreadSetNice n) s = thread_set_nice n s"
| "perform (CallTimerSleep n) s = timer_sleep n s"

text \<open>
  What the environment of the thread system guarantees: \<open>palloc_get_page\<close> returns a page that is not in use as a
  thread, the static \<open>tid_lock\<close> is used in \<open>thread.c\<close> only, and \<open>thread_set_nice\<close> is used with the
  feedback queue scheduler only.  Tick counts stay below \<open>2 ^ 63\<close>.
\<close>

fun permitted :: "call \<Rightarrow> kernel \<Rightarrow> bool" where
  "permitted (CallThreadCreate (Some t) _) s = (\<not> magic (thread_at s t))"
| "permitted (CallLockAcquire lock) s = (lock \<noteq> tid_lock)"
| "permitted (CallLockTryAcquire lock) s = (lock \<noteq> tid_lock)"
| "permitted (CallLockRelease lock) s = (lock \<noteq> tid_lock)"
| "permitted (CallCondWait cond lock) s = (lock \<noteq> tid_lock)"
| "permitted (CallThreadSetNice n) s = thread_mlfqs s"
| "permitted (CallTimerSleep n) s = (ticks s + n < 2 ^ 63)"
| "permitted _ s = True"

text \<open>
  Booting: \<open>thread_init\<close> and \<open>thread_start\<close>, run until the initial thread is back in \<open>main\<close>.  \<open>main_page\<close> and
  \<open>idle_page\<close> are the pages of the first two threads.
\<close>

definition blank_thread :: thread where
  "blank_thread = \<lparr>tid = 0, status = THREAD_DYING, priority = 0, wakeup_tick = 0, nice = 0, recent_cpu = 0,
     base_priority = 0, donated_priority = 0, waiting_lock = None, locks = [], has_pagedir = False, magic = False\<rparr>"

text \<open>
  Every semaphore of the program has been initialized with some value, every lock and condition is free.
\<close>

definition power_on :: "bool \<Rightarrow> (nat \<Rightarrow> nat) \<Rightarrow> kernel" where
  "power_on mlfqs vals = \<lparr>thread_at = (\<lambda>_. blank_thread),
     sema_at = (\<lambda>sema. case sema of Sema n \<Rightarrow> \<lparr>sema_value = vals n, waiters = []\<rparr>
       | LockSema _ \<Rightarrow> \<lparr>sema_value = 1, waiters = []\<rparr> | WaiterSema _ \<Rightarrow> \<lparr>sema_value = 0, waiters = []\<rparr>),
     lock_at = (\<lambda>_. \<lparr>holder = None, max_priority = PRI_MIN\<rparr>), cond_at = (\<lambda>_. []),
     ready_list = [], all_list = [], sleeping_list = [], idle_thread = None, initial_thread = 0, current = 1,
     frames = (\<lambda>_. []), intr_on = False, in_external_intr = False, yield_on_return = False,
     ticks = 0, thread_ticks = 0, idle_ticks = 0, kernel_ticks = 0, user_ticks = 0,
     load_avg = 0, thread_mlfqs = mlfqs, next_tid = 1\<rparr>"

fun resume_times :: "nat \<Rightarrow> kernel \<Rightarrow> kernel option" where
  "resume_times 0 s = Some s"
| "resume_times (Suc n) s = do { s \<leftarrow> resume s; resume_times n s }"

definition boot :: "bool \<Rightarrow> (nat \<Rightarrow> nat) \<Rightarrow> kernel option" where
  "boot mlfqs vals = do {
     s \<leftarrow> thread_init (power_on mlfqs vals);
     s \<leftarrow> resume_times 4 s;
     s \<leftarrow> thread_start (Some 2) (Sema 0) s;
     resume_times 9 s
   }"

text \<open>One transition, and the states that can be reached.\<close>

inductive kstep :: "kernel \<Rightarrow> kernel \<Rightarrow> bool" where
  call: "frames s (current s) = [] \<Longrightarrow> permitted c s \<Longrightarrow> perform c s = Some s' \<Longrightarrow> kstep s s'"
| run: "resume s = Some s' \<Longrightarrow> kstep s s'"
| timer: "intr_on s \<Longrightarrow> ticks s + 1 < 2 ^ 63 \<Longrightarrow> external_interrupt timer_interrupt s = Some s' \<Longrightarrow> kstep s s'"

inductive reachable :: "bool \<Rightarrow> kernel \<Rightarrow> bool" for mlfqs where
  boot: "boot mlfqs vals = Some s \<Longrightarrow> reachable mlfqs s"
| step: "reachable mlfqs s \<Longrightarrow> kstep s s' \<Longrightarrow> reachable mlfqs s'"

lemma resume_times_numeral: "resume_times (numeral k) s = do { s \<leftarrow> resume s; resume_times (pred_numeral k) s }"
  by (simp add: numeral_eq_Suc)

lemmas kernel_defs = modify_thread_def modify_sema_def modify_lock_def push_def pop_def
  intr_context_def intr_get_level_def intr_enable_def intr_disable_def intr_set_level_def intr_yield_on_return_def
  thread_priority_greater_def insert_by_priority_def sort_by_priority_def is_thread_def running_thread_def
  thread_current_def next_thread_to_run_def thread_schedule_tail_def schedule_def thread_block_def
  thread_unblock_def thread_yield_def

lemmas boot_defs = kernel_defs thread_set_priority_def set_priority_tail_def
  boot_def power_on_def blank_thread_def thread_init_def thread_start_def resume_def resume_times_numeral
  init_thread_def sema_init_def sema_down_def sema_down_loop_def sema_up_def sema_wake_def
  lock_init_def lock_acquire_def lock_acquire_tail_def lock_donate_def lock_held_by_current_thread_def 
  lock_settle_def lock_withdraw_def lock_release_def lock_release_tail_def allocate_tid_def allocate_tid_tail_def thread_create_def thread_create_tail_def
  idle_def kernel_thread_def thread_start_tail_def insert_ordered_def

text \<open>The state after booting.\<close>

definition main_thread :: thread where
  "main_thread = \<lparr>tid = 1, status = THREAD_RUNNING, priority = 31, wakeup_tick = 0, nice = 0, recent_cpu = 0,
     base_priority = 31, donated_priority = 0, waiting_lock = None, locks = [], has_pagedir = False, magic = True\<rparr>"

definition booted :: "bool \<Rightarrow> (nat \<Rightarrow> nat) \<Rightarrow> kernel" where
  "booted mlfqs vals = \<lparr>thread_at = (\<lambda>_. blank_thread)
       (2 := main_thread\<lparr>tid := 2, status := THREAD_READY, priority := 0, base_priority := 0\<rparr>, 1 := main_thread),
     sema_at = (\<lambda>sema. case sema of Sema n \<Rightarrow> \<lparr>sema_value = (if n = 0 then 0 else vals n), waiters = []\<rparr>
       | LockSema _ \<Rightarrow> \<lparr>sema_value = 1, waiters = []\<rparr> | WaiterSema _ \<Rightarrow> \<lparr>sema_value = 0, waiters = []\<rparr>),
     lock_at = (\<lambda>_. \<lparr>holder = None, max_priority = PRI_MIN\<rparr>), cond_at = (\<lambda>_. []),
     ready_list = [], all_list = [1, 2], sleeping_list = [], idle_thread = Some 2, initial_thread = 1, current = 1,
     frames = (\<lambda>_. [])(2 := [SetLevel True, IdleLoop]), intr_on = True, in_external_intr = False,
     yield_on_return = False, ticks = 0, thread_ticks = 0, idle_ticks = 0, kernel_ticks = 0, user_ticks = 0,
     load_avg = 0, thread_mlfqs = mlfqs, next_tid = 3\<rparr>"

lemma boot_booted: "boot mlfqs vals = Some (booted mlfqs vals)"
  by (cases mlfqs)
     (simp_all add: boot_defs Let_def booted_def main_thread_def fun_eq_iff split: sema_ref.split)

text \<open>
  (C36) The refinement of \<open>timer_calibrate\<close> tests each bit together with the highest one only and not with the bits already set.
  For a machine on which \<open>limit\<close> loops still fit into a timer tick and \<open>limit + 1\<close> do not, with \<open>2 ^ k\<close> and \<open>2 ^ m\<close> the two highest bits
  of \<open>limit\<close>, it sets all the tested bits from \<open>2 ^ m\<close> down: the result is above \<open>limit\<close> unless \<open>limit\<close> has all these bits set,
  and a third more than the loops that fit when \<open>limit\<close> is \<open>2 ^ k + 2 ^ (k - 1)\<close>.
\<close>

theorem timer_calibrate_overshoots:
  assumes "intr_on s" "10 \<le> k" "k \<le> 30" "k - 10 \<le> m" "m < k" "2 ^ k + 2 ^ m \<le> limit" "limit < 2 ^ k + 2 ^ Suc m"
  shows "timer_calibrate (\<lambda>n. limit < n) s = Some (2 ^ k + 2 ^ Suc m - 2 ^ (k - 9))"
proof -
  let ?P = "\<lambda>n. limit < n"
  have "(2 :: nat) ^ Suc m \<le> 2 ^ k" by (rule power_increasing) (use assms in auto)
  then have "limit < 2 ^ Suc k" using assms(7) by simp
  then have d: "calibrate_double ?P (2 ^ 10) = Some (2 ^ k)"
    using calibrate_double_limit [of k limit "k - 10"] assms by simp
  have P: "?P (2 ^ k OR 2 ^ t) \<longleftrightarrow> m < t" if "t < k" for t
  proof -
    have "2 ^ k OR 2 ^ t = 2 ^ k + (2 :: nat) ^ t" 
      by (rule or_low_bit) (rule le_imp_power_dvd, use that in simp)
    moreover have "(2 :: nat) ^ t \<le> 2 ^ m" if "t \<le> m" by (rule power_increasing) (use that in auto)
    moreover have "(2 :: nat) ^ Suc m \<le> 2 ^ t" if "m < t" by (rule power_increasing) (use that in auto)
    moreover have "(m < t) \<noteq> (t \<le> m)" by auto
    ultimately show ?thesis using assms(6,7) by (smt (verit) add_le_cancel_left leD le_trans not_less order_less_le_trans)
  qed
  have e: "k - 10 + 9 = k - 1" "Suc (k - 1) = k" "Suc (k - 10) = k - 9" using assms(2) by auto
  have z: "(2 :: nat) ^ Suc m - 2 ^ k = 0" using \<open>2 ^ Suc m \<le> 2 ^ k\<close> by simp
  have h: "2 ^ k div 2 = (2 :: nat) ^ (k - 1)" using assms(2) by (cases k) auto
  have "calibrate_refine ?P (2 ^ k) (2 ^ k div 2) 9 (2 ^ k) = 2 ^ k + (2 ^ Suc m - 2 ^ (k - 9))"
    using calibrate_refine_range [of k ?P m "k - 10" 9, OF P] assms(2,5) unfolding e h z by simp
  moreover have "(2 :: nat) ^ (k - 9) \<le> 2 ^ Suc m" by (rule power_increasing) (use assms in auto)
  ultimately show ?thesis using d assms(1) by (simp add: timer_calibrate_def intr_get_level_def)
qed

theorem timer_calibrate_overshoots_witness:
  "timer_calibrate (\<lambda>n. 1536 < n) ((power_on False (\<lambda>_. 0))\<lparr>intr_on := True\<rparr>) = Some 2046"
  using timer_calibrate_overshoots [of "(power_on False (\<lambda>_. 0))\<lparr>intr_on := True\<rparr>" 10 9 1536] by simp

end
