(* ===== verification/Kernel_Invariant.thy ===== *)
theory Kernel_Invariant
  imports Kernel_Steps
begin

text \<open>
  The invariant of the thread system, and that every transition keeps it.

  \<open>sched_inv\<close> says where each thread is: the running thread, the ready list, the waiters of a semaphore, the sleeping
  list, or under construction.  What a blocked thread waits for is the top frame of its stack, so the
  invariant says that no thread is ever lost and none is on two lists, which share the list element.
  \<open>lock_inv\<close> says that a lock is free, about to change hands, or held.
\<close>

section \<open>Shapes of the stack of a thread\<close>

text \<open>The functions \<open>lock_release\<close> and \<open>lock_acquire\<close> return to.\<close>

definition release_ret :: "frame list \<Rightarrow> bool" where
  "release_ret fs \<longleftrightarrow> fs = [] \<or> (\<exists>t. fs = [ThreadCreate t None]) \<or> (\<exists>l. fs = [CondWaitDown, CondWaitAcquire l])"

definition acquire_ret :: "nat \<Rightarrow> frame list \<Rightarrow> bool" where
  "acquire_ret l fs \<longleftrightarrow> fs = [] \<or> l = tid_lock \<and> (\<exists>t. fs = [AllocateTid t, ThreadCreate t None])"

text \<open>The stacks of thread \<open>c\<close> at points where interrupts are on; \<open>i\<close> is the idle thread.\<close>

definition on_stack :: "nat option \<Rightarrow> nat \<Rightarrow> frame list \<Rightarrow> bool" where
  "on_stack i c fs = (case fs of [] \<Rightarrow> i \<noteq> Some c | f # gs \<Rightarrow> (case f of
     IdleLoop \<Rightarrow> i = Some c \<and> gs = []
   | CondWaitAcquire l \<Rightarrow> i \<noteq> Some c \<and> gs = []
   | CondWaitDown \<Rightarrow> i \<noteq> Some c \<and> (\<exists>l. gs = [CondWaitAcquire l])
   | CondBroadcast k l \<Rightarrow> i \<noteq> Some c \<and> gs = []
   | ThreadCreate t x \<Rightarrow> i \<noteq> Some c \<and> x = None \<and> gs = []
   | AllocateTid t \<Rightarrow> i \<noteq> Some c \<and> gs = [ThreadCreate t None]
   | LockReleasePriority \<Rightarrow> i \<noteq> Some c \<and> release_ret gs
   | LockReleaseUp l \<Rightarrow> i \<noteq> Some c \<and> (\<exists>hs. gs = LockReleasePriority # hs \<and> release_ret hs)
   | _ \<Rightarrow> False))"

text \<open>The stacks at points where interrupts are off.\<close>

fun off_stack :: "nat option \<Rightarrow> nat \<Rightarrow> frame list \<Rightarrow> bool" where
  "off_stack i c [] = False"
| "off_stack i c (f # fs) = (case f of
     SetLevel old \<Rightarrow> (if old then on_stack i c fs else off_stack i c fs)
   | IntrReturn \<Rightarrow> on_stack i c fs
   | SetPriority p old \<Rightarrow> old \<and> i \<noteq> Some c \<and> on_stack i c fs
   | SemaDown sm old \<Rightarrow> i \<noteq> Some c \<and> (case sm of
       Sema _ \<Rightarrow> old \<and> fs = []
     | LockSema l \<Rightarrow> \<not> old \<and> (\<exists>gs. fs = LockAcquire l True # gs \<and> acquire_ret l gs)
     | WaiterSema w \<Rightarrow> w = c \<and> old \<and> (\<exists>l. fs = [CondWaitAcquire l]))
   | LockAcquire l old \<Rightarrow> i \<noteq> Some c \<and> old \<and> acquire_ret l fs
   | TimerSleep old \<Rightarrow> i \<noteq> Some c \<and> old \<and> fs = []
   | KernelThread x \<Rightarrow> i \<noteq> Some c \<and> x = None \<and> fs = []
   | IdleWait \<Rightarrow> i = Some c \<and> fs = []
   | _ \<Rightarrow> False)"

definition stack_ok :: "bool \<Rightarrow> nat option \<Rightarrow> nat \<Rightarrow> frame list \<Rightarrow> bool" where
  "stack_ok level i c fs = (if level then on_stack i c fs else off_stack i c fs)"

lemma off_stack_SetLevel [simp]: "off_stack i c (SetLevel level # fs) = stack_ok level i c fs"
  by (simp add: stack_ok_def)

text \<open>The thread whose creation is the outermost function \<open>c\<close> is in.\<close>

definition creating :: "frame list \<Rightarrow> nat option" where
  "creating fs = (if fs = [] then None else case last fs of ThreadCreate t x \<Rightarrow> Some t | _ \<Rightarrow> None)"

lemma creating_Cons [simp]: "fs \<noteq> [] \<Longrightarrow> creating (f # fs) = creating fs"
  by (simp add: creating_def)

lemma creating_Nil [simp]: "creating [] = None"
  by (simp add: creating_def)

section \<open>Where the threads are\<close>

definition live :: "kernel \<Rightarrow> nat \<Rightarrow> bool" where
  "live s t = magic (thread_at s t)"

definition blocked :: "kernel \<Rightarrow> nat \<Rightarrow> bool" where
  "blocked s t = (live s t \<and> status (thread_at s t) = THREAD_BLOCKED)"

text \<open>\<open>r\<close> is the running thread, or \<open>None\<close> in the middle of a thread switch.\<close>

definition runs :: "nat option \<Rightarrow> kernel \<Rightarrow> bool" where
  "runs r s \<longleftrightarrow> (\<forall>t. r = Some t \<longrightarrow> live s t) \<and>
     (\<forall>t. live s t \<longrightarrow> (status (thread_at s t) = THREAD_RUNNING \<longleftrightarrow> r = Some t))"

definition queues :: "kernel \<Rightarrow> bool" where
  "queues s \<longleftrightarrow>
     distinct (ready_list s) \<and>
     (\<forall>t. t \<in> set (ready_list s) \<longleftrightarrow> live s t \<and> status (thread_at s t) = THREAD_READY \<and> idle_thread s \<noteq> Some t) \<and>
     (\<forall>sm. distinct (waiters (sema_at s sm))) \<and>
     (\<forall>sm t. t \<in> set (waiters (sema_at s sm)) \<longleftrightarrow> blocked s t \<and> (\<exists>old fs. frames s t = SemaDown sm old # fs)) \<and>
     distinct (sleeping_list s) \<and>
     (\<forall>t. t \<in> set (sleeping_list s) \<longleftrightarrow> blocked s t \<and> (\<exists>old fs. frames s t = TimerSleep old # fs))"

definition stacks :: "nat option \<Rightarrow> kernel \<Rightarrow> bool" where
  "stacks r s \<longleftrightarrow>
     (\<forall>c. live s c \<and> r \<noteq> Some c \<and> frames s c \<noteq> [] \<longrightarrow> off_stack (idle_thread s) c (frames s c)) \<and>
     (\<forall>c. live s c \<and> status (thread_at s c) = THREAD_READY \<longrightarrow> frames s c \<noteq> []) \<and>
     (\<forall>c. live s c \<and> status (thread_at s c) = THREAD_DYING \<longrightarrow> frames s c = []) \<and>
     (\<forall>c. blocked s c \<longrightarrow> (frames s c = [] \<and> (\<exists>d. live s d \<and> creating (frames s d) = Some c)) \<or>
       (\<exists>sm old fs. frames s c = SemaDown sm old # fs) \<or> (\<exists>old fs. frames s c = TimerSleep old # fs) \<or>
       frames s c = [IdleWait] \<and> idle_thread s = Some c)"

definition creations :: "kernel \<Rightarrow> bool" where
  "creations s \<longleftrightarrow> (\<forall>c t. live s c \<and> creating (frames s c) = Some t \<longrightarrow> blocked s t \<and> frames s t = [] \<and>
     (\<forall>d. live s d \<and> creating (frames s d) = Some t \<longrightarrow> d = c))"

definition idles :: "nat option \<Rightarrow> kernel \<Rightarrow> bool" where
  "idles r s \<longleftrightarrow> (\<exists>i. idle_thread s = Some i \<and> live s i \<and> (r \<noteq> Some i \<longrightarrow> frames s i \<noteq> []))"

definition sleeps :: "kernel \<Rightarrow> bool" where
  "sleeps s \<longleftrightarrow> sorted (map (\<lambda>t. wakeup_tick (thread_at s t)) (sleeping_list s)) \<and>
     (\<forall>t \<in> set (sleeping_list s). ticks s < wakeup_tick (thread_at s t)) \<and> 0 \<le> ticks s"

definition sched_inv :: "nat option \<Rightarrow> kernel \<Rightarrow> bool" where
  "sched_inv r s \<longleftrightarrow> runs r s \<and> queues s \<and> stacks r s \<and> creations s \<and> idles r s"

lemmas sched_defs = sched_inv_def runs_def queues_def stacks_def creations_def idles_def blocked_def live_def

lemma sched_invD:
  assumes "sched_inv r s"
  shows "runs r s" "queues s" "stacks r s" "creations s" "idles r s"
  using assms unfolding sched_inv_def by iprover+

lemma runsD:
  assumes "runs r s"
  shows "r = Some t \<Longrightarrow> live s t" "live s t \<Longrightarrow> status (thread_at s t) = THREAD_RUNNING \<longleftrightarrow> r = Some t"
  using assms unfolding runs_def by iprover+

lemma queuesD:
  assumes "queues s"
  shows "distinct (ready_list s)"
    "t \<in> set (ready_list s) \<longleftrightarrow> live s t \<and> status (thread_at s t) = THREAD_READY \<and> idle_thread s \<noteq> Some t"
    "distinct (waiters (sema_at s sm))"
    "t \<in> set (waiters (sema_at s sm)) \<longleftrightarrow> blocked s t \<and> (\<exists>old fs. frames s t = SemaDown sm old # fs)"
    "distinct (sleeping_list s)"
    "t \<in> set (sleeping_list s) \<longleftrightarrow> blocked s t \<and> (\<exists>old fs. frames s t = TimerSleep old # fs)"
  using assms unfolding queues_def by iprover+

lemma queuesI:
  assumes "distinct (ready_list s)"
    "\<And>t. t \<in> set (ready_list s) \<longleftrightarrow> live s t \<and> status (thread_at s t) = THREAD_READY \<and> idle_thread s \<noteq> Some t"
    "\<And>sm. distinct (waiters (sema_at s sm))"
    "\<And>sm t. t \<in> set (waiters (sema_at s sm)) \<longleftrightarrow> blocked s t \<and> (\<exists>old fs. frames s t = SemaDown sm old # fs)"
    "distinct (sleeping_list s)"
    "\<And>t. t \<in> set (sleeping_list s) \<longleftrightarrow> blocked s t \<and> (\<exists>old fs. frames s t = TimerSleep old # fs)"
  shows "queues s"
  unfolding queues_def using assms by iprover

text \<open>What a blocked thread waits for.\<close>

definition waits :: "kernel \<Rightarrow> nat \<Rightarrow> bool" where
  "waits s c \<longleftrightarrow> (frames s c = [] \<and> (\<exists>d. live s d \<and> creating (frames s d) = Some c)) \<or>
       (\<exists>sm old fs. frames s c = SemaDown sm old # fs) \<or> (\<exists>old fs. frames s c = TimerSleep old # fs) \<or>
       frames s c = [IdleWait] \<and> idle_thread s = Some c"

lemma stacksD:
  assumes "stacks r s"
  shows "live s c \<Longrightarrow> r \<noteq> Some c \<Longrightarrow> frames s c \<noteq> [] \<Longrightarrow> off_stack (idle_thread s) c (frames s c)"
    "live s c \<Longrightarrow> status (thread_at s c) = THREAD_READY \<Longrightarrow> frames s c \<noteq> []"
    "live s c \<Longrightarrow> status (thread_at s c) = THREAD_DYING \<Longrightarrow> frames s c = []"
    "blocked s c \<Longrightarrow> waits s c"
  using assms unfolding stacks_def waits_def [symmetric] by iprover+

lemma stacksI:
  assumes "\<And>c. live s c \<Longrightarrow> r \<noteq> Some c \<Longrightarrow> frames s c \<noteq> [] \<Longrightarrow> off_stack (idle_thread s) c (frames s c)"
    "\<And>c. live s c \<Longrightarrow> status (thread_at s c) = THREAD_READY \<Longrightarrow> frames s c \<noteq> []"
    "\<And>c. live s c \<Longrightarrow> status (thread_at s c) = THREAD_DYING \<Longrightarrow> frames s c = []"
    "\<And>c. blocked s c \<Longrightarrow> waits s c"
  shows "stacks r s"
  unfolding stacks_def waits_def [symmetric] using assms by iprover

lemma creationsD:
  assumes "creations s" "live s c" "creating (frames s c) = Some t"
  shows "blocked s t" "frames s t = []" "live s d \<Longrightarrow> creating (frames s d) = Some t \<Longrightarrow> d = c"
  using assms unfolding creations_def by iprover+

lemma creationsI:
  assumes "\<And>c t. live s c \<Longrightarrow> creating (frames s c) = Some t \<Longrightarrow> blocked s t \<and> frames s t = []"
    "\<And>c d t. live s c \<Longrightarrow> creating (frames s c) = Some t \<Longrightarrow> live s d \<Longrightarrow> creating (frames s d) = Some t \<Longrightarrow> d = c"
  shows "creations s"
  unfolding creations_def using assms by iprover

lemma idlesD:
  assumes "idles r s"
  obtains i where "idle_thread s = Some i" "live s i" "r \<noteq> Some i \<Longrightarrow> frames s i \<noteq> []"
  using assms unfolding idles_def by iprover

text \<open>The whole state between two transitions.\<close>

definition kernel_inv :: "kernel \<Rightarrow> bool" where
  "kernel_inv s \<longleftrightarrow> sched_inv (Some (current s)) s \<and> \<not> in_external_intr s \<and>
     stack_ok (intr_on s) (idle_thread s) (current s) (frames s (current s))"

text \<open>Everything \<open>sched_inv\<close> reads.\<close>

definition control :: "kernel \<Rightarrow> (nat \<Rightarrow> thread_status \<times> bool) \<times> (sema_ref \<Rightarrow> nat list) \<times>
    nat list \<times> nat list \<times> nat option \<times> (nat \<Rightarrow> frame list)" where
  "control s = (\<lambda>t. (status (thread_at s t), magic (thread_at s t)), \<lambda>sm. waiters (sema_at s sm),
     ready_list s, sleeping_list s, idle_thread s, frames s)"

lemma sched_inv_control:
  assumes "control s' = control s"
  shows "sched_inv r s' = sched_inv r s"
proof -
  have "\<And>t. status (thread_at s' t) = status (thread_at s t)" "\<And>t. magic (thread_at s' t) = magic (thread_at s t)"
    "\<And>sm. waiters (sema_at s' sm) = waiters (sema_at s sm)" "ready_list s' = ready_list s"
    "sleeping_list s' = sleeping_list s" "idle_thread s' = idle_thread s" "frames s' = frames s"
    using assms by (auto simp: control_def fun_eq_iff)
  then show ?thesis by (simp add: sched_defs)
qed

text \<open>Reordering the lists.\<close>

lemma sched_inv_permute:
  assumes "\<And>t. status (thread_at s' t) = status (thread_at s t)" "\<And>t. magic (thread_at s' t) = magic (thread_at s t)"
    "\<And>sm. mset (waiters (sema_at s' sm)) = mset (waiters (sema_at s sm))" "mset (ready_list s') = mset (ready_list s)"
    "sleeping_list s' = sleeping_list s" "idle_thread s' = idle_thread s" "frames s' = frames s"
  shows "sched_inv r s' = sched_inv r s"
proof -
  have "\<And>sm. set (waiters (sema_at s' sm)) = set (waiters (sema_at s sm))"
    "\<And>sm. distinct (waiters (sema_at s' sm)) = distinct (waiters (sema_at s sm))"
    "set (ready_list s') = set (ready_list s)" "distinct (ready_list s') = distinct (ready_list s)"
    using assms(3,4) by (metis set_mset_mset, metis mset_eq_imp_distinct_iff, metis set_mset_mset, metis mset_eq_imp_distinct_iff)
  then show ?thesis using assms by (simp add: sched_defs)
qed

text \<open>The frames of the running thread matter only for the creation of a thread.\<close>

lemma sched_inv_frames:
  assumes "sched_inv (Some c) s" "creating fs = creating (frames s c)"
  shows "sched_inv (Some c) (s\<lparr>frames := (frames s)(c := fs)\<rparr>)" (is "sched_inv _ ?s")
proof -
  note D = sched_invD [OF assms(1)]
  have rc: "live s c" using runsD(1) [OF D(1)] by simp
  then have st: "status (thread_at s c) = THREAD_RUNNING" using runsD(2) [OF D(1)] by simp
  have cr: "creating (frames ?s d) = creating (frames s d)" for d using assms(2) by simp
  have [simp]: "live ?s d = live s d" "blocked ?s d = blocked s d" for d by (simp_all add: live_def blocked_def)
  have b: "d \<noteq> c" if "blocked s d" for d using that st by (auto simp: blocked_def)
  then have fr: "frames ?s d = frames s d" if "blocked s d" for d using that by auto
  have nb: "\<not> blocked s c" using st by (simp add: blocked_def)
  have "runs (Some c) ?s" using D(1) unfolding runs_def by simp
  moreover have "queues ?s"
    by (rule queuesI) (use queuesD [OF D(2)] nb in auto)
  moreover have "stacks (Some c) ?s"
  proof (rule stacksI)
    show "waits ?s d" if "blocked ?s d" for d
      using stacksD(4) [OF D(3), of d] that fr [of d] cr unfolding waits_def by simp
  qed (use stacksD [OF D(3)] st in \<open>auto split: if_splits\<close>)
  moreover have "creations ?s"
  proof (rule creationsI)
    fix d t assume a: "live ?s d" "creating (frames ?s d) = Some t"
    then have d: "live s d" "creating (frames s d) = Some t" unfolding cr by simp_all
    from creationsD(1,2) [OF D(4) this] show "blocked ?s t \<and> frames ?s t = []" using fr by simp
    fix e assume "live ?s e" "creating (frames ?s e) = Some t"
    then have "live s e" "creating (frames s e) = Some t" unfolding cr by simp_all
    then show "e = d" by (rule creationsD(3) [OF D(4) d])
  qed
  moreover have "idles (Some c) ?s" using D(5) unfolding idles_def by auto
  ultimately show ?thesis by (simp add: sched_inv_def)
qed

section \<open>Switching threads\<close>

text \<open>The state after a switch to thread \<open>n\<close>, with the ready list \<open>l\<close>.\<close>

definition switched :: "nat \<Rightarrow> nat list \<Rightarrow> kernel \<Rightarrow> kernel" where
  "switched n l s = (
     let s' = (modify_thread n (status_update (\<lambda>_. THREAD_RUNNING)) (s\<lparr>ready_list := l, current := n\<rparr>))\<lparr>thread_ticks := 0\<rparr>
     in if current s \<noteq> n \<and> status (thread_at s (current s)) = THREAD_DYING \<and> current s \<noteq> initial_thread s
        then modify_thread (current s) (magic_update (\<lambda>_. False)) s' else s')"

lemma switched_simps [simp]:
  "frames (switched n l s) = frames s" "idle_thread (switched n l s) = idle_thread s" "sema_at (switched n l s) = sema_at s"
  "sleeping_list (switched n l s) = sleeping_list s" "ready_list (switched n l s) = l" "current (switched n l s) = n"
  "in_external_intr (switched n l s) = in_external_intr s" "intr_on (switched n l s) = intr_on s"
  "lock_at (switched n l s) = lock_at s" "ticks (switched n l s) = ticks s" "thread_mlfqs (switched n l s) = thread_mlfqs s"
  "status (thread_at (switched n l s) t) = (if t = n then THREAD_RUNNING else status (thread_at s t))"
  "priority (thread_at (switched n l s) t) = priority (thread_at s t)"
  "wakeup_tick (thread_at (switched n l s) t) = wakeup_tick (thread_at s t)"
  "magic (thread_at (switched n l s) t) \<longleftrightarrow> magic (thread_at s t) \<and>
     \<not> (t \<noteq> n \<and> t = current s \<and> status (thread_at s t) = THREAD_DYING \<and> t \<noteq> initial_thread s)"
  unfolding switched_def Let_def modify_thread_def by simp_all

lemma sort_by_priority_props [simp]:
  "mset (sort_by_priority s l) = mset l" "set (sort_by_priority s l) = set l"
  "distinct (sort_by_priority s l) = distinct l" "sort_by_priority s l = [] \<longleftrightarrow> l = []"
  unfolding sort_by_priority_def by simp_all (metis length_0_conv length_sort)

text \<open>The thread that is chosen.\<close>

definition chosen :: "kernel \<Rightarrow> nat \<Rightarrow> nat list \<Rightarrow> bool" where
  "chosen s n l \<longleftrightarrow> ready_list s = [] \<and> idle_thread s = Some n \<and> l = [] \<or>
     ready_list s \<noteq> [] \<and> n # l = (if thread_mlfqs s then ready_list s else sort_by_priority s (ready_list s))"

lemma chosen_mem: "chosen s n l \<Longrightarrow> n \<in> set (ready_list s) \<or> idle_thread s = Some n"
proof -
  assume c: "chosen s n l"
  have "n \<in> set (ready_list s)" if "n # l = (if thread_mlfqs s then ready_list s else sort_by_priority s (ready_list s))"
    using arg_cong [OF that, of set] by (auto split: if_splits)
  with c show ?thesis unfolding chosen_def by blast
qed

lemma schedule_switched:
  assumes "sched_inv None s" "\<not> intr_on s" "live s (current s)"
  shows "\<exists>n l. schedule s = Some (switched n l s) \<and> chosen s n l"
proof -
  note D = sched_invD [OF assms(1)]
  obtain i where i: "idle_thread s = Some i" "live s i" "frames s i \<noteq> []" using idlesD [OF D(5)] by auto
  obtain n l where nl: "chosen s n l" "next_thread_to_run s = (Some n, s\<lparr>ready_list := l\<rparr>)"
  proof (cases "ready_list s")
    case Nil
    then have "next_thread_to_run s = (Some i, s\<lparr>ready_list := []\<rparr>)" using i by (simp add: next_thread_to_run_def)
    then show thesis using that Nil i unfolding chosen_def by blast
  next
    case (Cons a b)
    let ?l = "if \<not> thread_mlfqs s then sort_by_priority s (ready_list s) else ready_list s"
    have "?l \<noteq> []" using Cons by simp
    then have e: "hd ?l # tl ?l = ?l" by simp
    have "next_thread_to_run s = (Some (hd ?l), s\<lparr>ready_list := tl ?l\<rparr>)"
      using Cons unfolding next_thread_to_run_def by (simp add: Let_def)
    moreover have "chosen s (hd ?l) (tl ?l)" unfolding chosen_def e using Cons by simp
    ultimately show thesis using that by blast
  qed
  have n: "live s n" "status (thread_at s n) \<noteq> THREAD_DYING"
  proof -
    have "n \<in> set (ready_list s) \<or> n = i" using chosen_mem [OF nl(1)] i by auto
    then show "live s n" "status (thread_at s n) \<noteq> THREAD_DYING"
      using i queuesD(2) [OF D(2), of n] stacksD(3) [OF D(3), of n] by auto
  qed
  have c: "status (thread_at s (current s)) \<noteq> THREAD_RUNNING" using runsD(2) [OF D(1) assms(3)] by simp
  have "schedule s = (if current s \<noteq> n then thread_schedule_tail (Some (current s)) (s\<lparr>ready_list := l, current := n\<rparr>)
      else thread_schedule_tail None (s\<lparr>ready_list := l\<rparr>))"
    using n c assms(2) nl(2) by (simp add: schedule_def running_thread_def intr_get_level_def is_thread_def live_def)
  also have "\<dots> = Some (switched n l s)"
    using n c assms(2) by (simp add: thread_schedule_tail_def switched_def running_thread_def intr_get_level_def
         modify_thread_def Let_def)
  finally have "schedule s = Some (switched n l s)" .
  with nl(1) show ?thesis by blast
qed

lemma chosenD:
  assumes "chosen s n l" "sched_inv None s"
  shows "live s n" "frames s n \<noteq> []" "status (thread_at s n) \<noteq> THREAD_DYING" "distinct l"
    "set l = set (ready_list s) - {n}" "blocked s n \<Longrightarrow> frames s n = [IdleWait]"
proof -
  note D = sched_invD [OF assms(2)]
  obtain i where i: "idle_thread s = Some i" "live s i" "frames s i \<noteq> []" using idlesD [OF D(5)] by auto
  have n: "n \<in> set (ready_list s) \<or> n = i" using chosen_mem [OF assms(1)] i by auto
  then show "live s n" "frames s n \<noteq> []" "status (thread_at s n) \<noteq> THREAD_DYING"
    using i queuesD(2) [OF D(2), of n] stacksD(2,3) [OF D(3), of n] by auto
  then show "frames s n = [IdleWait]" if "blocked s n"
    using that n i queuesD(2) [OF D(2), of n] stacksD(1,4) [OF D(3), of n]
    by (auto simp: blocked_def waits_def split: sema_ref.splits)
  let ?l = "if thread_mlfqs s then ready_list s else sort_by_priority s (ready_list s)"
  have dl: "distinct ?l" "set ?l = set (ready_list s)" using queuesD(1) [OF D(2)] by simp_all
  show "distinct l" "set l = set (ready_list s) - {n}"
  proof (atomize (full), cases "ready_list s = []")
    case True
    then show "distinct l \<and> set l = set (ready_list s) - {n}" using assms(1) by (simp add: chosen_def)
  next
    case False
    then have e: "?l = n # l" using assms(1) by (simp add: chosen_def)
    have "distinct (n # l)" "set (n # l) = set (ready_list s)" using dl unfolding e by (iprover, iprover)
    then show "distinct l \<and> set l = set (ready_list s) - {n}" by auto
  qed
qed

lemma switched_sched_inv:
  assumes "sched_inv None s" "chosen s n l"
  shows "sched_inv (Some n) (switched n l s)" (is "sched_inv _ ?s")
proof -
  note D = sched_invD [OF assms(1)] and n = chosenD [OF assms(2,1)]
  note fr = switched_simps(1-5)
  have live_eq: "live ?s t \<longleftrightarrow> live s t \<and> \<not> (t \<noteq> n \<and> t = current s \<and> status (thread_at s t) = THREAD_DYING \<and> t \<noteq> initial_thread s)" for t
    by (simp add: live_def)
  have st: "status (thread_at ?s t) = (if t = n then THREAD_RUNNING else status (thread_at s t))" for t
    by simp
  have lv: "live ?s t \<Longrightarrow> live s t" "live s t \<Longrightarrow> \<not> live ?s t \<Longrightarrow> status (thread_at s t) = THREAD_DYING" for t
    unfolding live_eq by auto
  have ln: "live ?s n" using n(1) unfolding live_eq by simp
  have bl: "blocked ?s t \<longleftrightarrow> blocked s t \<and> t \<noteq> n" for t
    unfolding blocked_def live_eq st by auto
  have cr: "live s d \<Longrightarrow> creating (frames s d) = Some t \<Longrightarrow> live ?s d" for d t
    using lv(2) [of d] stacksD(3) [OF D(3), of d] by fastforce
  have nw: "blocked s n \<Longrightarrow> frames s n \<noteq> SemaDown sm old # fs" "blocked s n \<Longrightarrow> frames s n \<noteq> TimerSleep old # fs" for sm old fs
    using n(6) by force+
  have r: "runs (Some n) ?s" unfolding runs_def using ln lv(1) runsD(2) [OF D(1)] st by auto
  have q: "queues ?s"
  proof (rule queuesI)
    show "distinct (ready_list ?s)" using n by simp
    show "t \<in> set (ready_list ?s) \<longleftrightarrow> live ?s t \<and> status (thread_at ?s t) = THREAD_READY \<and> idle_thread ?s \<noteq> Some t" for t
      unfolding fr n(5) Diff_iff queuesD(2) [OF D(2)] live_eq st by auto
    show "distinct (waiters (sema_at ?s sm))" "distinct (sleeping_list ?s)" for sm
      using queuesD(3,5) [OF D(2)] by simp_all
    show "t \<in> set (waiters (sema_at ?s sm)) \<longleftrightarrow> blocked ?s t \<and> (\<exists>old fs. frames ?s t = SemaDown sm old # fs)" for sm t
      unfolding fr queuesD(4) [OF D(2)] bl using nw(1) by blast
    show "t \<in> set (sleeping_list ?s) \<longleftrightarrow> blocked ?s t \<and> (\<exists>old fs. frames ?s t = TimerSleep old # fs)" for t
      unfolding fr queuesD(6) [OF D(2)] bl using nw(2) by blast
  qed
  have k: "stacks (Some n) ?s"
  proof (rule stacksI)
    show "off_stack (idle_thread ?s) c (frames ?s c)" if "live ?s c" "frames ?s c \<noteq> []" for c
      using stacksD(1) [OF D(3), of c] lv that by simp
    show "frames ?s c \<noteq> []" if "live ?s c" "status (thread_at ?s c) = THREAD_READY" for c
      using stacksD(2) [OF D(3), of c] lv that st [of c] by (simp split: if_splits)
    show "frames ?s c = []" if "live ?s c" "status (thread_at ?s c) = THREAD_DYING" for c
      using stacksD(3) [OF D(3), of c] lv that st [of c] by (simp split: if_splits)
    show "waits ?s c" if "blocked ?s c" for c
      using stacksD(4) [OF D(3), of c] that cr unfolding bl waits_def fr by blast
  qed
  have c: "creations ?s"
  proof (rule creationsI)
    fix d t assume "live ?s d" "creating (frames ?s d) = Some t"
    then show "blocked ?s t \<and> frames ?s t = []" using creationsD(1,2) [OF D(4) lv(1)] n(2) unfolding bl fr by blast
  next
    fix d e t assume "live ?s d" "creating (frames ?s d) = Some t" "live ?s e" "creating (frames ?s e) = Some t"
    then show "e = d" using creationsD(3) [OF D(4) lv(1) _ lv(1)] unfolding fr by blast
  qed
  have "idles (Some n) ?s"
  proof (rule idlesD [OF D(5)])
    fix i assume i: "idle_thread s = Some i" "live s i" "None \<noteq> Some i \<Longrightarrow> frames s i \<noteq> []"
    then have "live ?s i" using lv(2) [of i] stacksD(3) [OF D(3), of i] by blast
    then show ?thesis using i unfolding idles_def by simp
  qed
  with r q k c show ?thesis by (simp add: sched_inv_def)
qed

text \<open>The running thread \<open>c\<close> gives up the processor: its status becomes \<open>st\<close> and its stack \<open>fs\<close>.\<close>

lemma off_stack_not_Nil: "off_stack i c fs \<Longrightarrow> fs \<noteq> []"
  by auto

lemma leave_common:
  assumes inv: "sched_inv (Some c) s"
    and eq: "\<And>t. t \<noteq> c \<Longrightarrow> status (thread_at s' t) = status (thread_at s t)" "\<And>t. magic (thread_at s' t) = magic (thread_at s t)"
      "frames s' = (frames s)(c := fs)" "idle_thread s' = idle_thread s"
    and st: "status (thread_at s' c) = st" "st \<noteq> THREAD_RUNNING"
    and cr: "creating fs = creating (frames s c)"
    and dy: "st = THREAD_DYING \<Longrightarrow> fs = [] \<and> idle_thread s \<noteq> Some c"
    and off: "st \<noteq> THREAD_DYING \<Longrightarrow> off_stack (idle_thread s) c fs"
    and bl: "st = THREAD_BLOCKED \<Longrightarrow> (\<exists>sm old gs. fs = SemaDown sm old # gs) \<or> (\<exists>old gs. fs = TimerSleep old # gs) \<or>
      fs = [IdleWait] \<and> idle_thread s = Some c"
  shows "runs None s'" "stacks None s'" "creations s'" "idles None s'"
proof -
  note D = sched_invD [OF inv]
  have lc: "live s c" using runsD(1) [OF D(1)] by simp
  then have rc: "status (thread_at s c) = THREAD_RUNNING" using runsD(2) [OF D(1)] by simp
  have lv: "live s' t = live s t" for t using eq(2) by (simp add: live_def)
  have fr: "frames s' t = (if t = c then fs else frames s t)" for t using eq(3) by simp
  have crs: "creating (frames s' t) = creating (frames s t)" for t using cr fr by simp
  have bs: "blocked s' t = blocked s t" if "t \<noteq> c" for t using that eq(1) lv by (simp add: blocked_def)
  have nb: "\<not> blocked s c" using rc by (simp add: blocked_def)
  show "runs None s'" unfolding runs_def lv
  proof (intro conjI allI impI)
    show "(status (thread_at s' t) = THREAD_RUNNING) = (None = Some t)" if "live s t" for t
      using runsD(2) [OF D(1) that] st eq(1) [of t] by (cases "t = c") auto
  qed simp
  show "stacks None s'"
  proof (rule stacksI)
    show "off_stack (idle_thread s') d (frames s' d)" if "live s' d" "frames s' d \<noteq> []" for d
      using stacksD(1) [OF D(3), of d] that off dy unfolding lv fr eq(4) by (cases "d = c") auto
    show "frames s' d \<noteq> []" if "live s' d" "status (thread_at s' d) = THREAD_READY" for d
    proof (cases "d = c")
      case True
      then have "st \<noteq> THREAD_DYING" using that(2) st(1) by auto
      then show ?thesis using off off_stack_not_Nil True unfolding fr by auto
    next
      case False
      then show ?thesis using stacksD(2) [OF D(3), of d] that eq(1) [of d] unfolding lv fr by simp
    qed
    show "frames s' d = []" if "live s' d" "status (thread_at s' d) = THREAD_DYING" for d
      using stacksD(3) [OF D(3), of d] that dy st(1) eq(1) [of d] unfolding lv fr by (cases "d = c") auto
    show "waits s' d" if "blocked s' d" for d
    proof (cases "d = c")
      case True
      then have "st = THREAD_BLOCKED" using that st(1) by (simp add: blocked_def)
      from bl [OF this] show ?thesis using True unfolding waits_def fr eq(4) by auto
    next
      case False
      then show ?thesis using stacksD(4) [OF D(3), of d] bs [of d] that unfolding waits_def crs lv eq(4) by (simp add: fr)
    qed
  qed
  show "creations s'"
  proof (rule creationsI)
    fix d t assume "live s' d" "creating (frames s' d) = Some t"
    then have d: "live s d" "creating (frames s d) = Some t" unfolding crs lv by simp_all
    note b = creationsD(1,2) [OF D(4) d]
    then have "t \<noteq> c" using nb by auto
    then show "blocked s' t \<and> frames s' t = []" using b bs fr by simp
    fix e assume "live s' e" "creating (frames s' e) = Some t"
    then have "live s e" "creating (frames s e) = Some t" unfolding crs lv by simp_all
    then show "e = d" by (rule creationsD(3) [OF D(4) d])
  qed
  show "idles None s'"
  proof (rule idlesD [OF D(5)])
    fix i assume i: "idle_thread s = Some i" "live s i" "Some c \<noteq> Some i \<Longrightarrow> frames s i \<noteq> []"
    have "frames s' i \<noteq> []"
    proof (cases "i = c")
      case True
      then have "st \<noteq> THREAD_DYING" using dy i by auto
      then show ?thesis using off off_stack_not_Nil True fr by auto
    next
      case False
      then show ?thesis using i fr by auto
    qed
    then show ?thesis using i unfolding idles_def lv eq(4) by auto
  qed
qed

lemma leave:
  assumes inv: "sched_inv (Some c) s"
    and eq: "\<And>t. t \<noteq> c \<Longrightarrow> status (thread_at s' t) = status (thread_at s t)" "\<And>t. magic (thread_at s' t) = magic (thread_at s t)"
      "frames s' = (frames s)(c := fs)" "idle_thread s' = idle_thread s"
    and st: "status (thread_at s' c) = st" "st \<noteq> THREAD_RUNNING"
    and cr: "creating fs = creating (frames s c)"
    and dy: "st = THREAD_DYING \<Longrightarrow> fs = [] \<and> idle_thread s \<noteq> Some c"
    and off: "st \<noteq> THREAD_DYING \<Longrightarrow> off_stack (idle_thread s) c fs"
    and bl: "st = THREAD_BLOCKED \<Longrightarrow> (\<exists>sm old gs. fs = SemaDown sm old # gs) \<or> (\<exists>old gs. fs = TimerSleep old # gs) \<or>
      fs = [IdleWait] \<and> idle_thread s = Some c"
    and ready: "c \<notin> set (ready_list s) \<Longrightarrow> distinct (ready_list s) \<Longrightarrow> distinct (ready_list s')"
      "set (ready_list s') = (if st = THREAD_READY \<and> idle_thread s \<noteq> Some c then {c} else {}) \<union> set (ready_list s)"
    and waiters: "\<And>sm. c \<notin> set (waiters (sema_at s sm)) \<Longrightarrow> distinct (waiters (sema_at s sm)) \<Longrightarrow> distinct (waiters (sema_at s' sm))"
      "\<And>sm. set (waiters (sema_at s' sm)) =
        (if st = THREAD_BLOCKED \<and> (\<exists>old gs. fs = SemaDown sm old # gs) then {c} else {}) \<union> set (waiters (sema_at s sm))"
    and sleeping: "c \<notin> set (sleeping_list s) \<Longrightarrow> distinct (sleeping_list s) \<Longrightarrow> distinct (sleeping_list s')"
      "set (sleeping_list s') =
        (if st = THREAD_BLOCKED \<and> (\<exists>old gs. fs = TimerSleep old # gs) then {c} else {}) \<union> set (sleeping_list s)"
  shows "sched_inv None s'"
proof -
  note D = sched_invD [OF inv]
  note common = leave_common [OF inv eq st cr dy off bl]
  have lc: "live s c" using runsD(1) [OF D(1)] by simp
  then have rc: "status (thread_at s c) = THREAD_RUNNING" using runsD(2) [OF D(1)] by simp
  have lv: "live s' t = live s t" for t using eq(2) by (simp add: live_def)
  have fr: "frames s' t = (if t = c then fs else frames s t)" for t using eq(3) by simp
  have sts: "status (thread_at s' t) = (if t = c then st else status (thread_at s t))" for t using eq(1) st by simp
  have bs: "blocked s' t = (if t = c then st = THREAD_BLOCKED else blocked s t)" for t
    unfolding blocked_def lv sts using lc by simp
  have nb: "\<not> blocked s c" using rc by (simp add: blocked_def)
  have "queues s'"
  proof (rule queuesI)
    show "t \<in> set (ready_list s') \<longleftrightarrow> live s' t \<and> status (thread_at s' t) = THREAD_READY \<and> idle_thread s' \<noteq> Some t" for t
      unfolding ready(2) lv sts eq(4) Un_iff queuesD(2) [OF D(2)] using lc rc by auto
    show "t \<in> set (waiters (sema_at s' sm)) \<longleftrightarrow> blocked s' t \<and> (\<exists>old fs. frames s' t = SemaDown sm old # fs)" for sm t
      unfolding waiters(2) bs fr Un_iff queuesD(4) [OF D(2)] using nb by auto
    show "t \<in> set (sleeping_list s') \<longleftrightarrow> blocked s' t \<and> (\<exists>old fs. frames s' t = TimerSleep old # fs)" for t
      unfolding sleeping(2) bs fr Un_iff queuesD(6) [OF D(2)] using nb by auto
    show "distinct (ready_list s')" using ready(1) queuesD(1,2) [OF D(2)] rc by simp
    show "distinct (waiters (sema_at s' sm))" for sm using waiters(1) queuesD(3,4) [OF D(2)] nb by simp
    show "distinct (sleeping_list s')" using sleeping(1) queuesD(5,6) [OF D(2)] nb by simp
  qed
  with common show ?thesis by (simp add: sched_inv_def)
qed

text \<open>A blocked thread \<open>t\<close> becomes ready.\<close>

lemma enter_ready:
  assumes inv: "sched_inv (Some c) s" and t: "blocked s t" "frames s t \<noteq> []" "idle_thread s \<noteq> Some t"
    and eq: "\<And>u. u \<noteq> t \<Longrightarrow> status (thread_at s' u) = status (thread_at s u)" "\<And>u. magic (thread_at s' u) = magic (thread_at s u)"
      "frames s' = frames s" "idle_thread s' = idle_thread s" "status (thread_at s' t) = THREAD_READY"
    and ready: "distinct (ready_list s')" "set (ready_list s') = insert t (set (ready_list s))"
    and waiters: "\<And>sm. distinct (waiters (sema_at s' sm))" "\<And>sm. set (waiters (sema_at s' sm)) = set (waiters (sema_at s sm)) - {t}"
    and sleeping: "distinct (sleeping_list s')" "set (sleeping_list s') = set (sleeping_list s) - {t}"
  shows "sched_inv (Some c) s'"
proof -
  note D = sched_invD [OF inv]
  have lt: "live s t" "status (thread_at s t) = THREAD_BLOCKED" using t by (simp_all add: blocked_def)
  have lc: "live s c" using runsD(1) [OF D(1)] by simp
  then have rc: "status (thread_at s c) = THREAD_RUNNING" using runsD(2) [OF D(1)] by simp
  then have tc: "t \<noteq> c" using lt by auto
  have lv: "live s' u = live s u" for u using eq(2) by (simp add: live_def)
  have st: "status (thread_at s' u) = (if u = t then THREAD_READY else status (thread_at s u))" for u
    using eq(1,5) by simp
  have bs: "blocked s' u \<longleftrightarrow> blocked s u \<and> u \<noteq> t" for u unfolding blocked_def lv st by auto
  have "runs (Some c) s'" using D(1) tc lt unfolding runs_def lv st by auto
  moreover have "queues s'"
  proof (rule queuesI)
    show "u \<in> set (ready_list s') \<longleftrightarrow> live s' u \<and> status (thread_at s' u) = THREAD_READY \<and> idle_thread s' \<noteq> Some u" for u
      unfolding ready(2) insert_iff queuesD(2) [OF D(2)] lv st eq(4) using t(3) lt by auto
    show "u \<in> set (waiters (sema_at s' sm)) \<longleftrightarrow> blocked s' u \<and> (\<exists>old fs. frames s' u = SemaDown sm old # fs)" for sm u
      unfolding waiters(2) Diff_iff queuesD(4) [OF D(2)] bs eq(3) by auto
    show "u \<in> set (sleeping_list s') \<longleftrightarrow> blocked s' u \<and> (\<exists>old fs. frames s' u = TimerSleep old # fs)" for u
      unfolding sleeping(2) Diff_iff queuesD(6) [OF D(2)] bs eq(3) by auto
  qed (use ready waiters sleeping in auto)
  moreover have "stacks (Some c) s'"
  proof (rule stacksI)
    show "off_stack (idle_thread s') d (frames s' d)" if "live s' d" "Some c \<noteq> Some d" "frames s' d \<noteq> []" for d
      using stacksD(1) [OF D(3), of d] that unfolding lv eq(3,4) by simp
    show "frames s' d \<noteq> []" if "live s' d" "status (thread_at s' d) = THREAD_READY" for d
      using stacksD(2) [OF D(3), of d] that t(2) unfolding lv eq(3) st by (cases "d = t") simp_all
    show "frames s' d = []" if "live s' d" "status (thread_at s' d) = THREAD_DYING" for d
      using stacksD(3) [OF D(3), of d] that unfolding lv eq(3) st by (cases "d = t") simp_all
    show "waits s' d" if "blocked s' d" for d
      using stacksD(4) [OF D(3), of d] that unfolding waits_def bs lv eq(3,4) by blast
  qed
  moreover have "creations s'"
  proof (rule creationsI)
    fix d u assume "live s' d" "creating (frames s' d) = Some u"
    then have d: "live s d" "creating (frames s d) = Some u" unfolding lv eq(3) by simp_all
    from creationsD(1,2) [OF D(4) this] t(2) show "blocked s' u \<and> frames s' u = []" unfolding bs eq(3) by auto
    fix e assume "live s' e" "creating (frames s' e) = Some u"
    then have "live s e" "creating (frames s e) = Some u" unfolding lv eq(3) by simp_all
    then show "e = d" by (rule creationsD(3) [OF D(4) d])
  qed
  moreover have "idles (Some c) s'" using D(5) unfolding idles_def lv eq(3,4) .
  ultimately show ?thesis by (simp add: sched_inv_def)
qed

section \<open>The scheduler's functions\<close>

lemma creating_push [simp]: "(\<And>t x. f \<noteq> ThreadCreate t x) \<Longrightarrow> creating (f # fs) = creating fs"
  by (cases "fs = []") (auto simp: creating_def split: frame.split)

text \<open>What the locks depend on: the frames of the live threads that concern locks, the values of the locks'
  semaphores and the holders.\<close>

definition lock_frame :: "frame \<Rightarrow> bool" where
  "lock_frame f = (case f of SemaDown sm _ \<Rightarrow> (case sm of LockSema _ \<Rightarrow> True | _ \<Rightarrow> False)
     | LockAcquire _ _ \<Rightarrow> True | LockReleaseUp _ \<Rightarrow> True | CondWaitAcquire _ \<Rightarrow> True | CondBroadcast _ _ \<Rightarrow> True
     | AllocateTid _ \<Rightarrow> True | _ \<Rightarrow> False)"

lemma lock_frame_simps [simp]:
  "\<not> lock_frame (SetLevel old)" "lock_frame (SemaDown (LockSema l) old)" "\<not> lock_frame (SemaDown (Sema n) old)"
  "\<not> lock_frame (SemaDown (WaiterSema w) old)" "lock_frame (LockAcquire l old)" "lock_frame (LockReleaseUp l)"
  "\<not> lock_frame LockReleasePriority" "\<not> lock_frame (SetPriority p old)" "\<not> lock_frame CondWaitDown"
  "lock_frame (CondWaitAcquire l)" "lock_frame (CondBroadcast k l)" "\<not> lock_frame (TimerSleep old)" "\<not> lock_frame IntrReturn"
  "\<not> lock_frame (KernelThread x)" "\<not> lock_frame IdleLoop" "\<not> lock_frame IdleWait" "lock_frame (AllocateTid t)"
  "\<not> lock_frame (ThreadCreate t x)"
  by (simp_all add: lock_frame_def)

definition lock_frames :: "kernel \<Rightarrow> nat \<Rightarrow> frame list" where
  "lock_frames s t = (if live s t then filter lock_frame (frames s t) else [])"

definition lock_view :: "kernel \<Rightarrow> (nat \<Rightarrow> frame list) \<times> (nat \<Rightarrow> nat) \<times> (nat \<Rightarrow> nat option)" where
  "lock_view s = (lock_frames s, \<lambda>l. sema_value (sema_at s (LockSema l)), \<lambda>l. holder (lock_at s l))"

lemma lock_frames_upd [simp]:
  "lock_frames (s\<lparr>intr_on := b\<rparr>) = lock_frames s" "lock_frames (modify_sema sm f s) = lock_frames s"
  "lock_frames (modify_lock l g s) = lock_frames s" "lock_frames (s\<lparr>cond_at := k\<rparr>) = lock_frames s"
  by (auto simp: lock_frames_def live_def modify_sema_def modify_lock_def fun_eq_iff)

lemma lock_view_cong:
  assumes "\<And>t. magic (thread_at s' t) = magic (thread_at s t)" "frames s' = frames s"
    "\<And>l. sema_value (sema_at s' (LockSema l)) = sema_value (sema_at s (LockSema l))"
    "\<And>l. holder (lock_at s' l) = holder (lock_at s l)"
  shows "lock_view s' = lock_view s"
  using assms by (auto simp: lock_view_def lock_frames_def live_def fun_eq_iff)

definition sleep_view :: "kernel \<Rightarrow> nat list \<times> int \<times> (nat \<Rightarrow> int)" where
  "sleep_view s = (sleeping_list s, ticks s, \<lambda>t. wakeup_tick (thread_at s t))"

lemma sleeps_view: "sleep_view s' = sleep_view s \<Longrightarrow> sleeps s' = sleeps s"
  by (auto simp: sleep_view_def sleeps_def fun_eq_iff)

text \<open>With the priority scheduler, the ready list is sorted and no ready thread has a higher priority than the running one.\<close>

definition by_priority :: "kernel \<Rightarrow> bool" where
  "by_priority s \<longleftrightarrow> sorted (map (\<lambda>t. - priority (thread_at s t)) (ready_list s))"

definition prio_inv :: "kernel \<Rightarrow> bool" where
  "prio_inv s \<longleftrightarrow> (\<not> thread_mlfqs s \<longrightarrow> by_priority s \<and>
     (\<forall>t \<in> set (ready_list s). priority (thread_at s t) \<le> priority (thread_at s (current s))))"

text \<open>The outcome of a thread switch, from the state just before it.\<close>

definition resched :: "kernel \<Rightarrow> kernel \<Rightarrow> bool" where
  "resched s s' \<longleftrightarrow> kernel_inv s' \<and> prio_inv s' \<and> thread_mlfqs s' = thread_mlfqs s \<and> lock_view s' = lock_view s \<and>
     sleep_view s' = sleep_view s"

lemma chosen_prio:
  assumes "chosen s n l" "\<not> thread_mlfqs s"
  shows "sorted (map (\<lambda>t. - priority (thread_at s t)) l) \<and> (\<forall>t \<in> set l. priority (thread_at s t) \<le> priority (thread_at s n))"
proof (cases "ready_list s = []")
  case False
  then have "n # l = sort_by_priority s (ready_list s)" using assms by (simp add: chosen_def)
  then have "sorted (map (\<lambda>t. - priority (thread_at s t)) (n # l))" by (simp add: sort_by_priority_def)
  then show ?thesis by auto
qed (use assms in \<open>simp add: chosen_def\<close>)

lemma schedule_inv:
  assumes "sched_inv None s" "\<not> intr_on s" "live s (current s)" "\<not> in_external_intr s"
  shows "\<exists>s'. schedule s = Some s' \<and> resched s s'"
proof -
  obtain n l where s: "schedule s = Some (switched n l s)" and c: "chosen s n l"
    using schedule_switched [OF assms(1-3)] by blast
  note D = sched_invD [OF assms(1)] and n = chosenD [OF c assms(1)]
  have "off_stack (idle_thread s) n (frames s n)" using stacksD(1) [OF D(3) n(1) _ n(2)] by simp
  then have "kernel_inv (switched n l s)"
    using switched_sched_inv [OF assms(1) c] assms(2,4) by (simp add: kernel_inv_def stack_ok_def)
  moreover have "prio_inv (switched n l s)"
    using chosen_prio [OF c] by (simp add: prio_inv_def by_priority_def)
  moreover have "lock_frames (switched n l s) t = lock_frames s t" for t
    using stacksD(3) [OF D(3), of t] by (auto simp: lock_frames_def live_def)
  then have "lock_view (switched n l s) = lock_view s" by (simp add: lock_view_def fun_eq_iff)
  moreover have "sleep_view (switched n l s) = sleep_view s" by (simp add: sleep_view_def)
  ultimately show ?thesis using s by (auto simp: resched_def)
qed

lemma thread_current_inv:
  assumes "sched_inv (Some (current s)) s"
  shows "thread_current s = Some (current s)" "live s (current s)" "status (thread_at s (current s)) = THREAD_RUNNING"
    "magic (thread_at s (current s))"
proof -
  show l: "live s (current s)" using runsD(1) [OF sched_invD(1) [OF assms]] by simp
  then show r: "status (thread_at s (current s)) = THREAD_RUNNING" using runsD(2) [OF sched_invD(1) [OF assms]] by simp
  show "magic (thread_at s (current s))" using l by (simp add: live_def)
  then show "thread_current s = Some (current s)" using r by (simp add: thread_current_def running_thread_def is_thread_def)
qed

lemma thread_yield_inv:
  assumes "kernel_inv s"
  shows "\<exists>s'. thread_yield s = Some s' \<and> resched s s'"
proof -
  let ?c = "current s"
  have inv: "sched_inv (Some ?c) s" and ext: "\<not> in_external_intr s"
    and st: "stack_ok (intr_on s) (idle_thread s) ?c (frames s ?c)" using assms by (simp_all add: kernel_inv_def)
  note D = sched_invD [OF inv] and c = thread_current_inv [OF inv]
  let ?l = "if Some ?c \<noteq> idle_thread s then insert_by_priority s ?c (ready_list s) else ready_list s"
  let ?fs = "SetLevel (intr_on s) # frames s ?c"
  let ?s = "s\<lparr>intr_on := False, ready_list := ?l, thread_at := (thread_at s)(?c := (thread_at s ?c)\<lparr>status := THREAD_READY\<rparr>),
    frames := (frames s)(?c := ?fs)\<rparr>"
  have y: "thread_yield s = schedule ?s"
    using c ext by (simp add: thread_yield_def intr_context_def intr_disable_def intr_get_level_def push_def modify_thread_def
        insert_by_priority_def thread_priority_greater_def [abs_def])
  have "sched_inv None ?s"
    by (rule leave [OF inv, where fs = ?fs and st = THREAD_READY]) (use st in \<open>auto simp: stack_ok_def insert_by_priority_def\<close>)
  then obtain s' where s': "schedule ?s = Some s'" "resched ?s s'"
    using schedule_inv [of ?s] c ext by (auto simp: live_def)
  have "lock_view ?s = lock_view s" by (auto simp: lock_view_def lock_frames_def live_def fun_eq_iff)
  moreover have "sleep_view ?s = sleep_view s" by (auto simp: sleep_view_def fun_eq_iff)
  ultimately have "resched s s'" using s'(2) unfolding resched_def by simp
  with y s' show ?thesis by simp
qed

text \<open>
  Blocking.  \<open>s\<close> is the state in which the function that blocks is, with the frames of its callers on the stack;
  \<open>s1\<close> is the state in which it calls \<open>thread_block\<close>, with \<open>c\<close> on a list and the frame \<open>f\<close> pushed.
\<close>

lemma thread_block_inv:
  assumes inv: "sched_inv (Some (current s)) s" and "\<not> in_external_intr s1" "\<not> intr_on s1"
    and eq: "thread_at s1 = (thread_at s)" "frames s1 = (frames s)(current s := f # frames s (current s))"
      "idle_thread s1 = idle_thread s" "current s1 = current s" "ready_list s1 = ready_list s"
    and f: "\<And>t x. f \<noteq> ThreadCreate t x" "off_stack (idle_thread s) (current s) (f # frames s (current s))"
      "(\<exists>sm old. f = SemaDown sm old) \<or> (\<exists>old. f = TimerSleep old) \<or> f = IdleWait"
    and waiters: "\<And>sm. current s \<notin> set (waiters (sema_at s sm)) \<Longrightarrow> distinct (waiters (sema_at s sm)) \<Longrightarrow> distinct (waiters (sema_at s1 sm))"
      "\<And>sm. set (waiters (sema_at s1 sm)) =
        (if \<exists>old. f = SemaDown sm old then {current s} else {}) \<union> set (waiters (sema_at s sm))"
    and sleeping: "current s \<notin> set (sleeping_list s) \<Longrightarrow> distinct (sleeping_list s) \<Longrightarrow> distinct (sleeping_list s1)"
      "set (sleeping_list s1) = (if \<exists>old. f = TimerSleep old then {current s} else {}) \<union> set (sleeping_list s)"
  shows "\<exists>s'. thread_block s1 = Some s' \<and> resched s1 s'"
proof -
  let ?c = "current s"
  note c = thread_current_inv [OF inv]
  let ?s = "modify_thread ?c (status_update (\<lambda>_. THREAD_BLOCKED)) s1"
  have "thread_current s1 = Some ?c" using c eq by (simp add: thread_current_def running_thread_def is_thread_def)
  then have b: "thread_block s1 = schedule ?s" using assms(2,3) by (simp add: thread_block_def intr_context_def intr_get_level_def)
  have "sched_inv None ?s"
  proof (rule leave [OF inv, where fs = "f # frames s ?c" and st = THREAD_BLOCKED])
    show "(\<exists>sm old gs. f # frames s ?c = SemaDown sm old # gs) \<or> (\<exists>old gs. f # frames s ?c = TimerSleep old # gs) \<or>
      f # frames s ?c = [IdleWait] \<and> idle_thread s = Some ?c" using f(2,3) by auto
  qed (use eq f(1,2) waiters sleeping in \<open>simp_all add: modify_thread_def\<close>)
  then obtain s' where s': "schedule ?s = Some s'" "resched ?s s'"
    using schedule_inv [of ?s] c assms(2,3) eq by (auto simp: live_def modify_thread_def)
  have "lock_view ?s = lock_view s1" "sleep_view ?s = sleep_view s1" "thread_mlfqs ?s = thread_mlfqs s1"
    by (auto simp: lock_view_def lock_frames_def sleep_view_def live_def fun_eq_iff modify_thread_def)
  then have "resched s1 s'" using s'(2) unfolding resched_def by simp
  with b s' show ?thesis by simp
qed

lemma off_stack_SemaDown: "off_stack i c (SemaDown sm old # fs) \<Longrightarrow> stack_ok old i c fs"
  by (auto simp: stack_ok_def on_stack_def split: sema_ref.splits)

text \<open>The loop of \<open>sema_down\<close>: the thread blocks, or it takes the semaphore and returns.\<close>

definition sema_taken :: "sema_ref \<Rightarrow> bool \<Rightarrow> kernel \<Rightarrow> kernel" where
  "sema_taken sm old s = (modify_sema sm (sema_value_update (\<lambda>v. v - 1)) s)\<lparr>intr_on := old\<rparr>"

lemma sema_down_loop_inv:
  assumes inv: "sched_inv (Some (current s)) s" and s: "\<not> in_external_intr s" "\<not> intr_on s"
    and f: "off_stack (idle_thread s) (current s) (SemaDown sm old # frames s (current s))"
  shows "sema_value (sema_at s sm) = 0 \<Longrightarrow> \<exists>s'. sema_down_loop sm old s = Some s' \<and> resched (push (SemaDown sm old) s) s'"
    "sema_value (sema_at s sm) \<noteq> 0 \<Longrightarrow> sema_down_loop sm old s = Some (sema_taken sm old s) \<and> kernel_inv (sema_taken sm old s)"
proof -
  let ?c = "current s"
  let ?s1 = "push (SemaDown sm old) (modify_sema sm (waiters_update (insert_by_priority s ?c)) s)"
  assume z: "sema_value (sema_at s sm) = 0"
  have "\<exists>s'. thread_block ?s1 = Some s' \<and> resched ?s1 s'"
    by (rule thread_block_inv [OF inv, where f = "SemaDown sm old"])
       (use s f in \<open>auto simp: push_def modify_sema_def insert_by_priority_def simp del: off_stack.simps\<close>)
  moreover have "sema_down_loop sm old s = thread_block ?s1"
    using z thread_current_inv(1) [OF inv] by (simp add: sema_down_loop_def)
  moreover have "lock_view ?s1 = lock_view (push (SemaDown sm old) s)" "sleep_view ?s1 = sleep_view (push (SemaDown sm old) s)"
    "thread_mlfqs ?s1 = thread_mlfqs (push (SemaDown sm old) s)"
    by (auto simp: lock_view_def lock_frames_def sleep_view_def live_def fun_eq_iff push_def modify_sema_def)
  ultimately show "\<exists>s'. sema_down_loop sm old s = Some s' \<and> resched (push (SemaDown sm old) s) s'" unfolding resched_def by simp
next
  assume nz: "sema_value (sema_at s sm) \<noteq> 0"
  have "sched_inv (Some (current s)) (sema_taken sm old s)"
    using inv by (subst sched_inv_control [of _ s]) (auto simp: control_def sema_taken_def modify_sema_def fun_eq_iff)
  then show "sema_down_loop sm old s = Some (sema_taken sm old s) \<and> kernel_inv (sema_taken sm old s)"
    using nz s off_stack_SemaDown [OF f]
    by (auto simp: sema_down_loop_def sema_taken_def intr_set_level_def intr_enable_def intr_disable_def intr_get_level_def
        intr_context_def kernel_inv_def modify_sema_def)
qed

text \<open>Waking a thread.\<close>

definition unblocked :: "nat \<Rightarrow> kernel \<Rightarrow> kernel" where
  "unblocked t s = (modify_thread t (status_update (\<lambda>_. THREAD_READY)) (s\<lparr>ready_list := insert_by_priority s t (ready_list s)\<rparr>))
     \<lparr>yield_on_return := yield_on_return s \<or> in_external_intr s \<and> priority (thread_at s (current s)) < priority (thread_at s t)\<rparr>"

lemma unblocked_simps [simp]:
  "frames (unblocked t s) = frames s" "idle_thread (unblocked t s) = idle_thread s" "sema_at (unblocked t s) = sema_at s"
  "sleeping_list (unblocked t s) = sleeping_list s" "ready_list (unblocked t s) = insert_by_priority s t (ready_list s)"
  "current (unblocked t s) = current s" "in_external_intr (unblocked t s) = in_external_intr s" "intr_on (unblocked t s) = intr_on s"
  "lock_at (unblocked t s) = lock_at s" "ticks (unblocked t s) = ticks s" "thread_mlfqs (unblocked t s) = thread_mlfqs s"
  "status (thread_at (unblocked t s) u) = (if u = t then THREAD_READY else status (thread_at s u))"
  "priority (thread_at (unblocked t s) u) = priority (thread_at s u)"
  "wakeup_tick (thread_at (unblocked t s) u) = wakeup_tick (thread_at s u)"
  "magic (thread_at (unblocked t s) u) = magic (thread_at s u)"
  "yield_on_return (unblocked t s) = (yield_on_return s \<or> in_external_intr s \<and> priority (thread_at s (current s)) < priority (thread_at s t))"
  by (simp_all add: unblocked_def modify_thread_def)

lemma thread_unblock_eq:
  assumes "blocked s t" "intr_on s \<longrightarrow> \<not> in_external_intr s"
    "magic (thread_at s (current s))" "status (thread_at s (current s)) = THREAD_RUNNING"
  shows "thread_unblock t s = Some (unblocked t s)"
  using assms
  by (cases "current s = t"; cases "in_external_intr s"; cases "priority (thread_at s (current s)) < priority (thread_at s t)")
     (auto simp: thread_unblock_def unblocked_def blocked_def live_def is_thread_def intr_disable_def intr_get_level_def
      intr_context_def intr_set_level_def intr_enable_def thread_current_def running_thread_def intr_yield_on_return_def
      modify_thread_def insert_by_priority_def thread_priority_greater_def [abs_def] Let_def)

text \<open>What the transitions that do not block keep of the state.\<close>

definition same_core :: "kernel \<Rightarrow> kernel \<Rightarrow> bool" where
  "same_core s s' \<longleftrightarrow> current s' = current s \<and> frames s' = frames s \<and> idle_thread s' = idle_thread s \<and>
     in_external_intr s' = in_external_intr s \<and> thread_mlfqs s' = thread_mlfqs s \<and> lock_view s' = lock_view s \<and>
     ticks s' = ticks s \<and> (\<forall>t. wakeup_tick (thread_at s' t) = wakeup_tick (thread_at s t))"

lemma same_core_refl [simp]: "same_core s s"
  by (simp add: same_core_def)

lemma same_core_trans [trans]: "same_core s s' \<Longrightarrow> same_core s' s'' \<Longrightarrow> same_core s s''"
  by (simp add: same_core_def)

lemma unblocked_core [simp]: "same_core s (unblocked t s)"
  by (auto simp: same_core_def intro: lock_view_cong)

lemma not_idle_waiting:
  assumes "sched_inv r s" "blocked s t" "r \<noteq> Some t" "frames s t = f # fs" "(\<exists>sm old. f = SemaDown sm old) \<or> (\<exists>old. f = TimerSleep old)"
  shows "idle_thread s \<noteq> Some t"
  using stacksD(1) [OF sched_invD(3) [OF assms(1)], of t] assms by (auto simp: blocked_def)

lemma hd_tl_set: "distinct l \<Longrightarrow> l \<noteq> [] \<Longrightarrow> set (tl l) = set l - {hd l}"
  by (cases l) auto

lemma blocked_not_running: "sched_inv (Some c) s \<Longrightarrow> blocked s t \<Longrightarrow> t \<noteq> c"
  using runsD(2) [OF sched_invD(1)] by (force simp: blocked_def)

lemma sema_wake_inv:
  assumes inv: "sched_inv (Some (current s)) s" and "intr_on s \<longrightarrow> \<not> in_external_intr s"
  shows "\<exists>s'. sema_wake sm s = Some s' \<and> sched_inv (Some (current s)) s' \<and> same_core s s' \<and> sleeping_list s' = sleeping_list s \<and>
    intr_on s' = intr_on s"
proof (cases "waiters (sema_at s sm) = []")
  case True
  then show ?thesis using inv by (simp add: sema_wake_def)
next
  case False
  note Q = queuesD [OF sched_invD(2) [OF inv]]
  let ?w = "sort_by_priority s (waiters (sema_at s sm))"
  let ?t = "hd ?w"
  let ?s1 = "modify_sema sm (waiters_update (\<lambda>_. tl ?w)) s"
  have dw: "distinct ?w" "?w \<noteq> []" using Q(3) [of sm] False by simp_all
  have "?t \<in> set (waiters (sema_at s sm))" using hd_in_set [OF dw(2)] by simp
  then obtain old fs where t: "blocked s ?t" "frames s ?t = SemaDown sm old # fs" using Q(4) by blast
  have ti: "idle_thread s \<noteq> Some ?t"
    by (rule not_idle_waiting [OF inv t(1) _ t(2)]) (use blocked_not_running [OF inv t(1)] in auto)
  have e: "sema_wake sm s = Some (unblocked ?t ?s1)"
    using False thread_unblock_eq [of ?s1 ?t] t(1) assms(2) thread_current_inv [OF inv]
    by (simp add: sema_wake_def Let_def modify_sema_def blocked_def live_def)
  have "sched_inv (Some (current s)) (unblocked ?t ?s1)"
  proof (rule enter_ready [OF inv t(1) _ ti])
    show "distinct (ready_list (unblocked ?t ?s1))"
      using Q(1) Q(2) [of ?t] t(1) by (simp add: insert_by_priority_def modify_sema_def blocked_def)
    show "set (ready_list (unblocked ?t ?s1)) = insert ?t (set (ready_list s))"
      by (simp add: insert_by_priority_def modify_sema_def)
    show "distinct (waiters (sema_at (unblocked ?t ?s1) sm'))" for sm'
      using Q(3) [of sm'] dw by (simp add: modify_sema_def distinct_tl)
    show "set (waiters (sema_at (unblocked ?t ?s1) sm')) = set (waiters (sema_at s sm')) - {?t}" for sm'
      using hd_tl_set [OF dw] Q(4) [of ?t sm'] t(2) by (auto simp: modify_sema_def)
    show "distinct (sleeping_list (unblocked ?t ?s1))" using Q(5) by (simp add: modify_sema_def)
    show "set (sleeping_list (unblocked ?t ?s1)) = set (sleeping_list s) - {?t}"
      using Q(6) [of ?t] t(2) by (auto simp: modify_sema_def)
  qed (use t(2) in \<open>simp_all add: modify_sema_def\<close>)
  moreover have "same_core s ?s1" by (auto simp: same_core_def modify_sema_def intro: lock_view_cong)
  then have "same_core s (unblocked ?t ?s1)" using unblocked_core same_core_trans by blast
  ultimately show ?thesis using e by (simp add: modify_sema_def)
qed

definition sema_raised :: "sema_ref \<Rightarrow> kernel \<Rightarrow> kernel" where
  "sema_raised sm s = modify_sema sm (sema_value_update (\<lambda>v. (v + 1) mod 2 ^ 32)) s"

lemma lock_view_values:
  "lock_view s' = lock_view s \<Longrightarrow> sema_value (sema_at s' (LockSema l)) = sema_value (sema_at s (LockSema l))"
  "lock_view s' = lock_view s \<Longrightarrow> holder (lock_at s' l) = holder (lock_at s l)"
  "lock_view s' = lock_view s \<Longrightarrow> lock_frames s' = lock_frames s"
  by (auto simp: lock_view_def fun_eq_iff)

lemma sema_up_inv:
  assumes "kernel_inv s" "intr_on s"
  shows "\<exists>s'. sema_up sm s = Some s' \<and> resched (sema_raised sm s) s'"
proof -
  let ?s0 = "s\<lparr>intr_on := False\<rparr>"
  have inv: "sched_inv (Some (current s)) s" and ext: "\<not> in_external_intr s"
    and st: "on_stack (idle_thread s) (current s) (frames s (current s))"
    using assms by (simp_all add: kernel_inv_def stack_ok_def)
  have "sched_inv (Some (current ?s0)) ?s0" using inv by (subst sched_inv_control [of _ s]) (simp_all add: control_def)
  from sema_wake_inv [OF this, of sm] obtain s1 where s1: "sema_wake sm ?s0 = Some s1" "sched_inv (Some (current s)) s1"
    "same_core ?s0 s1" "sleeping_list s1 = sleeping_list s" "\<not> intr_on s1" by auto
  have core: "current s1 = current s" "frames s1 = frames s" "idle_thread s1 = idle_thread s" "\<not> in_external_intr s1"
    "thread_mlfqs s1 = thread_mlfqs s" "lock_view s1 = lock_view s" "ticks s1 = ticks s"
    "\<forall>t. wakeup_tick (thread_at s1 t) = wakeup_tick (thread_at s t)"
    using s1(3) ext lock_view_cong [of ?s0 s] by (simp_all add: same_core_def)
  let ?s2 = "(sema_raised sm s1)\<lparr>intr_on := True\<rparr>"
  have up: "sema_up sm s = thread_yield ?s2"
    using s1 core assms(2)
    by (simp add: sema_up_def intr_disable_def intr_get_level_def intr_context_def sema_raised_def intr_set_level_def
        intr_enable_def modify_sema_def)
  have "sched_inv (Some (current s)) ?s2"
    using s1(2) by (subst sched_inv_control [of _ s1]) (auto simp: control_def sema_raised_def modify_sema_def)
  then have "kernel_inv ?s2" using core st by (simp add: kernel_inv_def stack_ok_def sema_raised_def modify_sema_def)
  from thread_yield_inv [OF this] obtain s' where s': "thread_yield ?s2 = Some s'" "resched ?s2 s'" by blast
  have "lock_view ?s2 = lock_view (sema_raised sm s)"
    using lock_view_values [OF core(6)]
    by (auto simp: lock_view_def sema_raised_def) (auto simp: modify_sema_def fun_eq_iff)
  moreover have "sleep_view ?s2 = sleep_view (sema_raised sm s)"
    using core s1(4) by (simp add: sleep_view_def sema_raised_def modify_sema_def)
  moreover have "thread_mlfqs ?s2 = thread_mlfqs (sema_raised sm s)" using core by (simp add: sema_raised_def modify_sema_def)
  ultimately have "resched (sema_raised sm s) s'" using s'(2) by (simp add: resched_def)
  with s' up show ?thesis by simp
qed

end
