(* ===== verification/Kernel_Functions.thy ===== *)
theory Kernel_Functions
  imports Kernel_Invariant
begin

text \<open>
  What the kernel functions do to a state that satisfies the invariant: each returns, and the state after it satisfies
  the invariant again.
\<close>

section \<open>Priorities, sleeping, exit\<close>

lemma on_stack_not_idle: "on_stack i c fs \<Longrightarrow> fs \<noteq> [IdleLoop] \<Longrightarrow> i \<noteq> Some c"
  by (cases fs) (auto simp: on_stack_def split: frame.splits)

lemma kernel_invD:
  assumes "kernel_inv s"
  shows "sched_inv (Some (current s)) s" "\<not> in_external_intr s"
    "intr_on s \<Longrightarrow> on_stack (idle_thread s) (current s) (frames s (current s))"
    "\<not> intr_on s \<Longrightarrow> off_stack (idle_thread s) (current s) (frames s (current s))"
  using assms by (simp_all add: kernel_inv_def stack_ok_def)

lemma resched_refl: "kernel_inv s \<Longrightarrow> prio_inv s \<Longrightarrow> resched s s"
  by (simp add: resched_def)

lemma sched_inv_push:
  assumes "sched_inv (Some (current s)) s" "\<And>t x. f \<noteq> ThreadCreate t x"
  shows "sched_inv (Some (current s)) (push f s)"
  unfolding push_def by (rule sched_inv_frames [OF assms(1)]) (use assms(2) in simp)

lemma push_simps [simp]:
  "current (push f s) = current s" "thread_at (push f s) = thread_at s" "sema_at (push f s) = sema_at s"
  "lock_at (push f s) = lock_at s" "ready_list (push f s) = ready_list s" "sleeping_list (push f s) = sleeping_list s"
  "idle_thread (push f s) = idle_thread s" "intr_on (push f s) = intr_on s" "in_external_intr (push f s) = in_external_intr s"
  "ticks (push f s) = ticks s" "thread_mlfqs (push f s) = thread_mlfqs s"
  "frames (push f s) = (frames s)(current s := f # frames s (current s))"
  by (simp_all add: push_def)

lemma lock_view_push: "\<not> lock_frame f \<Longrightarrow> lock_view (push f s) = lock_view s"
  by (auto simp: lock_view_def lock_frames_def live_def push_def fun_eq_iff)

lemma sleep_view_push [simp]: "sleep_view (push f s) = sleep_view s"
  by (simp add: sleep_view_def)

text \<open>The second half of \<open>thread_set_priority\<close>, with interrupts off.\<close>

lemma set_priority_tail_inv:
  assumes inv: "sched_inv (Some (current s)) s" and s: "\<not> in_external_intr s" "\<not> intr_on s"
    and st: "on_stack (idle_thread s) (current s) (frames s (current s))"
    and pr: "\<not> thread_mlfqs s \<Longrightarrow> by_priority s \<and>
      (priority (thread_at s (current s)) < p \<or> (\<forall>t \<in> set (ready_list s). priority (thread_at s t) \<le> priority (thread_at s (current s))))"
  shows "\<exists>s'. set_priority_tail p True s = Some s' \<and> resched s s'"
proof (cases "priority (thread_at s (current s)) < p \<and> ready_list s \<noteq> [] \<and>
       priority (thread_at s (current s)) < priority (thread_at s (hd (ready_list s)))")
  case True
  let ?s = "push (SetLevel True) s"
  have "kernel_inv ?s"
    using sched_inv_push [OF inv, of "SetLevel True"] s st by (simp add: kernel_inv_def stack_ok_def)
  then obtain s' where s': "thread_yield ?s = Some s'" "resched ?s s'" using thread_yield_inv by blast
  have "resched s s'" using s'(2) by (simp add: resched_def lock_view_push)
  then show ?thesis using s'(1) True by (simp add: set_priority_tail_def running_thread_def)
next
  case False
  let ?s = "s\<lparr>intr_on := True\<rparr>"
  have "sched_inv (Some (current s)) ?s" using inv by (subst sched_inv_control [of _ s]) (simp_all add: control_def)
  then have k: "kernel_inv ?s" using s st by (simp add: kernel_inv_def stack_ok_def)
  have "prio_inv ?s"
  proof -
    have "priority (thread_at s t) \<le> priority (thread_at s (current s))"
      if m: "\<not> thread_mlfqs s" and t: "t \<in> set (ready_list s)" for t
    proof (rule ccontr)
      assume n: "\<not> ?thesis"
      then have lt: "priority (thread_at s (current s)) < p" using pr [OF m] t by auto
      obtain a l where l: "ready_list s = a # l" using t by (cases "ready_list s") auto
      then have "priority (thread_at s t) \<le> priority (thread_at s a)" using pr [OF m] t by (auto simp: by_priority_def)
      then show False using False lt n l by simp
    qed
    then show ?thesis using pr by (simp add: prio_inv_def by_priority_def)
  qed
  then have "resched s ?s" using k by (simp add: resched_def sleep_view_def lock_view_def)
  moreover have "set_priority_tail p True s = Some ?s"
    using False s by (auto simp: set_priority_tail_def running_thread_def intr_set_level_def intr_enable_def intr_context_def)
  ultimately show ?thesis by blast
qed

text \<open>Changes of a thread that concern neither the scheduler's lists nor the priorities in them.\<close>

lemma modify_thread_simps [simp]:
  "current (modify_thread t f s) = current s" "sema_at (modify_thread t f s) = sema_at s"
  "lock_at (modify_thread t f s) = lock_at s" "ready_list (modify_thread t f s) = ready_list s"
  "sleeping_list (modify_thread t f s) = sleeping_list s" "idle_thread (modify_thread t f s) = idle_thread s"
  "intr_on (modify_thread t f s) = intr_on s" "in_external_intr (modify_thread t f s) = in_external_intr s"
  "ticks (modify_thread t f s) = ticks s" "thread_mlfqs (modify_thread t f s) = thread_mlfqs s"
  "frames (modify_thread t f s) = frames s" "thread_at (modify_thread t f s) t = f (thread_at s t)"
  "u \<noteq> t \<Longrightarrow> thread_at (modify_thread t f s) u = thread_at s u"
  by (simp_all add: modify_thread_def)

lemma modify_lock_simps [simp]:
  "current (modify_lock l g s) = current s" "sema_at (modify_lock l g s) = sema_at s" "thread_at (modify_lock l g s) = thread_at s"
  "ready_list (modify_lock l g s) = ready_list s" "sleeping_list (modify_lock l g s) = sleeping_list s"
  "idle_thread (modify_lock l g s) = idle_thread s" "intr_on (modify_lock l g s) = intr_on s"
  "in_external_intr (modify_lock l g s) = in_external_intr s" "ticks (modify_lock l g s) = ticks s"
  "thread_mlfqs (modify_lock l g s) = thread_mlfqs s" "frames (modify_lock l g s) = frames s"
  by (simp_all add: modify_lock_def)

lemma modify_sema_simps [simp]:
  "current (modify_sema l g s) = current s" "lock_at (modify_sema l g s) = lock_at s" "thread_at (modify_sema l g s) = thread_at s"
  "ready_list (modify_sema l g s) = ready_list s" "sleeping_list (modify_sema l g s) = sleeping_list s"
  "idle_thread (modify_sema l g s) = idle_thread s" "intr_on (modify_sema l g s) = intr_on s"
  "in_external_intr (modify_sema l g s) = in_external_intr s" "ticks (modify_sema l g s) = ticks s"
  "thread_mlfqs (modify_sema l g s) = thread_mlfqs s" "frames (modify_sema l g s) = frames s"
  by (simp_all add: modify_sema_def)

lemma sched_inv_modify:
  assumes "\<And>th. status (f th) = status th" "\<And>th. magic (f th) = magic th"
  shows "sched_inv r (modify_thread t f s) = sched_inv r s"
  by (rule sched_inv_control) (use assms in \<open>auto simp: control_def modify_thread_def fun_eq_iff\<close>)

lemma lock_view_modify:
  assumes "\<And>th. magic (f th) = magic th"
  shows "lock_view (modify_thread t f s) = lock_view s"
  by (rule lock_view_cong) (use assms in \<open>auto simp: modify_thread_def\<close>)

lemma sleep_view_modify:
  assumes "\<And>th. wakeup_tick (f th) = wakeup_tick th"
  shows "sleep_view (modify_thread t f s) = sleep_view s"
  using assms by (auto simp: sleep_view_def modify_thread_def fun_eq_iff)

lemma thread_set_priority_inv:
  assumes k: "kernel_inv s" and on: "intr_on s" and pr: "prio_inv s" and i: "idle_thread s \<noteq> Some (current s)"
  shows "\<exists>s'. thread_set_priority p s = Some s' \<and> resched s s'"
proof (cases "thread_mlfqs s")
  case True
  then show ?thesis using resched_refl [OF k pr] by (simp add: thread_set_priority_def)
next
  case False
  let ?c = "current s"
  let ?o = "priority (thread_at s ?c)"
  let ?new = "\<lambda>th. (th\<lparr>base_priority := p\<rparr>)\<lparr>priority := (if ?o < p then p else if p < ?o then max p (donated_priority th) else priority th)\<rparr>"
  let ?s = "modify_thread ?c ?new (s\<lparr>intr_on := False\<rparr>)"
  note K = kernel_invD [OF k] and c = thread_current_inv [OF kernel_invD(1) [OF k]]
  have inv0: "sched_inv (Some ?c) (s\<lparr>intr_on := False\<rparr>)" using K(1) by (subst sched_inv_control [of _ s]) (simp_all add: control_def)
  then have inv: "sched_inv (Some ?c) ?s" by (subst sched_inv_modify) simp_all
  have views: "lock_view ?s = lock_view s" "sleep_view ?s = sleep_view s"
    by (subst lock_view_modify; simp add: lock_view_def) (subst sleep_view_modify; simp add: sleep_view_def)
  have e: "thread_set_priority p s =
      (if ?o < priority (thread_at ?s ?c) then thread_yield (push (SetPriority ?o True) ?s) else set_priority_tail ?o True ?s)"
  proof -
    have "thread_current (s\<lparr>intr_on := False\<rparr>) = Some ?c" using c by (simp add: thread_current_def running_thread_def is_thread_def)
    then show ?thesis using False on
      by (auto simp: thread_set_priority_def intr_disable_def intr_get_level_def modify_thread_def Let_def fun_upd_def [symmetric])
  qed
  show ?thesis
  proof (cases "?o < priority (thread_at ?s ?c)")
    case True
    let ?t = "push (SetPriority ?o True) ?s"
    have "kernel_inv ?t"
      using sched_inv_push [of ?s "SetPriority ?o True"] inv K(2) K(3) [OF on] i
      by (simp add: kernel_inv_def stack_ok_def)
    then obtain s' where s': "thread_yield ?t = Some s'" "resched ?t s'" using thread_yield_inv by blast
    have "resched s s'" using s'(2) views by (simp add: resched_def lock_view_push)
    then show ?thesis using s'(1) e True by simp
  next
    case F: False
    have nr: "?c \<notin> set (ready_list s)" using queuesD(2) [OF sched_invD(2) [OF K(1)], of ?c] c by simp
    have pe: "priority (thread_at ?s t) = priority (thread_at s t)" if "t \<in> set (ready_list s)" for t
      using that nr by (cases "t = ?c") simp_all
    have "by_priority ?s" using pr False pe by (auto simp: prio_inv_def by_priority_def cong: map_cong)
    moreover have "priority (thread_at ?s ?c) < ?o \<or>
        (\<forall>t \<in> set (ready_list ?s). priority (thread_at ?s t) \<le> priority (thread_at ?s (current ?s)))"
      using pr False pe F by (cases "priority (thread_at ?s ?c) = ?o") (auto simp: prio_inv_def simp del: modify_thread_simps(12))
    ultimately obtain s' where s': "set_priority_tail ?o True ?s = Some s'" "resched ?s s'"
      using set_priority_tail_inv [of ?s ?o] inv K(2) K(3) [OF on] by auto
    have "resched s s'" using s'(2) views by (simp add: resched_def)
    then show ?thesis using s'(1) e F by simp
  qed
qed

text \<open>\<open>timer_sleep\<close>.\<close>

lemma timer_sleep_inv:
  assumes k: "kernel_inv s" and on: "intr_on s" and fr: "frames s (current s) = []" and sl: "sleeps s"
    and n: "0 < n" "ticks s + n < 2 ^ 63"
  shows "\<exists>s'. timer_sleep n s = Some s' \<and> kernel_inv s' \<and> prio_inv s' \<and> thread_mlfqs s' = thread_mlfqs s \<and>
    lock_view s' = lock_view s \<and> sleeps s'"
proof -
  let ?c = "current s"
  note K = kernel_invD [OF k] and c = thread_current_inv [OF kernel_invD(1) [OF k]]
  have i: "idle_thread s \<noteq> Some ?c" using K(3) [OF on] fr by (simp add: on_stack_def)
  let ?s = "modify_thread ?c (wakeup_tick_update (\<lambda>_. ticks s + n)) (s\<lparr>intr_on := False\<rparr>)"
  let ?l = "insert_ordered (wakeup_tick_less ?s) ?c (sleeping_list s)"
  let ?s1 = "push (TimerSleep True) (?s\<lparr>sleeping_list := ?l\<rparr>)"
  have "sched_inv (Some ?c) (s\<lparr>intr_on := False\<rparr>)" using K(1) by (subst sched_inv_control [of _ s]) (simp_all add: control_def)
  then have inv: "sched_inv (Some (current ?s)) ?s" by (subst sched_inv_modify) simp_all
  have w: "wrap_long (ticks s + n) = ticks s + n" using sl n by (intro wrap_long_id) (auto simp: sleeps_def)
  have e: "timer_sleep n s = thread_block ?s1"
    using n(1) w c on K(2)
    by (simp add: timer_sleep_def timer_ticks_def intr_disable_def intr_get_level_def intr_set_level_def thread_set_wakeup_tick_def
        thread_current_def running_thread_def is_thread_def modify_thread_def Let_def)
  have "\<exists>s'. thread_block ?s1 = Some s' \<and> resched ?s1 s'"
    by (rule thread_block_inv [OF inv, where f = "TimerSleep True"]) (use K(2) fr i in auto)
  then obtain s' where s': "thread_block ?s1 = Some s'" "resched ?s1 s'" by blast
  have nc: "?c \<notin> set (sleeping_list s)" using queuesD(6) [OF sched_invD(2) [OF K(1)], of ?c] c by (simp add: blocked_def)
  have we: "wakeup_tick (thread_at ?s t) = wakeup_tick (thread_at s t)" if "t \<in> set (sleeping_list s)" for t
    using that nc by (cases "t = ?c") auto
  have "sorted (map (\<lambda>t. wakeup_tick (thread_at ?s t)) (sleeping_list s))"
    using sl we by (auto simp: sleeps_def cong: map_cong)
  then have "sorted (map (\<lambda>t. wakeup_tick (thread_at ?s t)) ?l)"
    unfolding wakeup_tick_less_def [abs_def] by (rule insert_ordered_sort_key)
  moreover have "\<forall>t \<in> set ?l. ticks s < wakeup_tick (thread_at ?s t)"
    using sl we n(1) by (auto simp: sleeps_def)
  ultimately have "sleeps ?s1" using sl by (simp add: sleeps_def)
  then have "sleeps s'" using s'(2) sleeps_view unfolding resched_def by blast
  moreover have "lock_view ?s1 = lock_view s"
    by (auto simp: lock_view_push) (rule lock_view_cong; auto simp: modify_thread_def)
  ultimately show ?thesis using s' e by (auto simp: resched_def)
qed

text \<open>\<open>thread_exit\<close>.\<close>

lemma thread_exit_inv:
  assumes k: "kernel_inv s" and on: "intr_on s" and fr: "frames s (current s) = []"
  shows "\<exists>s'. thread_exit s = Some s' \<and> resched s s'"
proof -
  let ?c = "current s"
  note K = kernel_invD [OF k] and c = thread_current_inv [OF kernel_invD(1) [OF k]]
  have i: "idle_thread s \<noteq> Some ?c" using K(3) [OF on] fr by (simp add: on_stack_def)
  let ?s = "modify_thread ?c (status_update (\<lambda>_. THREAD_DYING)) (s\<lparr>intr_on := False, all_list := remove1 ?c (all_list s)\<rparr>)"
  have e: "thread_exit s = schedule ?s"
    using c K(2) by (simp add: thread_exit_def intr_disable_def intr_get_level_def intr_context_def
        thread_current_def running_thread_def is_thread_def Let_def)
  have "sched_inv None ?s"
    by (rule leave [OF K(1), where fs = "[]" and st = THREAD_DYING]) (use fr i in \<open>auto simp: modify_thread_def\<close>)
  then obtain s' where s': "schedule ?s = Some s'" "resched ?s s'"
    using schedule_inv [of ?s] c K(2) by (auto simp: live_def)
  have "lock_view ?s = lock_view s" "sleep_view ?s = sleep_view s"
    by (auto simp: sleep_view_def modify_thread_def fun_eq_iff intro!: lock_view_cong split: if_splits)
  then show ?thesis using s' e by (auto simp: resched_def)
qed

text \<open>The idle thread.\<close>

lemma idle_block_inv:
  assumes k: "sched_inv (Some (current s)) s" "\<not> in_external_intr s" and i: "idle_thread s = Some (current s)"
    and fr: "frames s (current s) = []"
  shows "\<exists>s'. idle_block s = Some s' \<and> resched s s'"
proof -
  let ?s = "s\<lparr>intr_on := False\<rparr>"
  have inv: "sched_inv (Some (current ?s)) ?s" using k(1) by (subst sched_inv_control [of _ s]) (simp_all add: control_def)
  let ?s1 = "push IdleWait ?s"
  have "\<exists>s'. thread_block ?s1 = Some s' \<and> resched ?s1 s'"
    by (rule thread_block_inv [OF inv, where f = IdleWait]) (use k fr i in auto)
  moreover have "lock_view ?s1 = lock_view s" "sleep_view ?s1 = sleep_view s"
    by (simp_all add: lock_view_push) (simp_all add: lock_view_def sleep_view_def)
  ultimately show ?thesis by (auto simp: idle_block_def intr_disable_def resched_def)
qed

section \<open>Locks\<close>

text \<open>Donation changes priorities and which lock a thread waits for, and nothing else.\<close>

definition same_but_prio :: "kernel \<Rightarrow> kernel \<Rightarrow> bool" where
  "same_but_prio s s' \<longleftrightarrow> (\<forall>t. status (thread_at s' t) = status (thread_at s t) \<and> magic (thread_at s' t) = magic (thread_at s t) \<and>
       wakeup_tick (thread_at s' t) = wakeup_tick (thread_at s t)) \<and> sema_at s' = sema_at s \<and>
     (\<forall>l. holder (lock_at s' l) = holder (lock_at s l)) \<and> ready_list s' = ready_list s \<and> sleeping_list s' = sleeping_list s \<and>
     idle_thread s' = idle_thread s \<and> current s' = current s \<and> frames s' = frames s \<and> intr_on s' = intr_on s \<and>
     in_external_intr s' = in_external_intr s \<and> ticks s' = ticks s \<and> thread_mlfqs s' = thread_mlfqs s"

lemma same_but_prio_refl [simp]: "same_but_prio s s"
  by (simp add: same_but_prio_def)

lemma same_but_prio_trans: "same_but_prio s s' \<Longrightarrow> same_but_prio s' s'' \<Longrightarrow> same_but_prio s s''"
  by (simp add: same_but_prio_def)

lemma same_but_prio_thread:
  "(\<And>th. status (f th) = status th \<and> magic (f th) = magic th \<and> wakeup_tick (f th) = wakeup_tick th) \<Longrightarrow>
    same_but_prio s (modify_thread t f s)"
  by (simp add: same_but_prio_def modify_thread_def)

lemma same_but_prio_lock:
  "(\<And>k. holder (f k) = holder k) \<Longrightarrow> same_but_prio s (modify_lock l f s)"
  by (simp add: same_but_prio_def modify_lock_def)

lemma same_but_prio_views:
  assumes "same_but_prio s s'"
  shows "sched_inv r s' = sched_inv r s" "lock_view s' = lock_view s" "sleep_view s' = sleep_view s" "thread_mlfqs s' = thread_mlfqs s"
    "frames s' = frames s" "current s' = current s" "idle_thread s' = idle_thread s" "intr_on s' = intr_on s"
    "in_external_intr s' = in_external_intr s" "sema_at s' = sema_at s"
  using assms
  by (auto simp: same_but_prio_def sleep_view_def control_def fun_eq_iff intro!: lock_view_cong sched_inv_control)

lemma donate_same: "same_but_prio s (donate h p s)"
  unfolding donate_def by (rule same_but_prio_thread) simp

lemma donate_chain_same: "same_but_prio s (donate_chain d t s)"
proof (induction d t s rule: donate_chain.induct)
  case (2 d t s)
  show ?case
  proof (cases "waiting_lock (thread_at s t)")
    case None
    then show ?thesis by simp
  next
    case (Some l)
    let ?p = "priority (thread_at s t)"
    let ?s = "modify_lock l (max_priority_update (\<lambda>m. max m ?p)) s"
    have l: "same_but_prio s ?s" by (rule same_but_prio_lock) simp
    show ?thesis
    proof (cases "holder (lock_at ?s l)")
      case None
      then show ?thesis using Some l by simp
    next
      case h: (Some h)
      have "same_but_prio (donate h ?p ?s) (donate_chain d h (donate h ?p ?s))"
        using 2 Some h by simp
      then have "same_but_prio s (donate_chain d h (donate h ?p ?s))"
        using l donate_same same_but_prio_trans by blast
      then show ?thesis using Some h by (simp add: Let_def)
    qed
  qed
qed simp

lemma lock_donate_same: "same_but_prio s (lock_donate c l s)"
proof -
  let ?s0 = "modify_thread c (waiting_lock_update (\<lambda>_. Some l)) s"
  have 0: "same_but_prio s ?s0" by (rule same_but_prio_thread) simp
  show ?thesis
  proof (cases "holder (lock_at ?s0 l)")
    case None
    then show ?thesis using 0 by (simp add: lock_donate_def)
  next
    case (Some h)
    let ?p = "priority (thread_at ?s0 c)"
    let ?s1 = "modify_lock l (max_priority_update (\<lambda>m. max m ?p)) ?s0"
    have "same_but_prio ?s0 ?s1" by (rule same_but_prio_lock) simp
    then have "same_but_prio s (donate_chain 8 h (donate h ?p ?s1))"
      using 0 donate_same donate_chain_same same_but_prio_trans by meson
    then show ?thesis using Some by (simp add: lock_donate_def Let_def)
  qed
qed

text \<open>Without a holder nothing is donated.\<close>

lemma lock_donate_free:
  "holder (lock_at s l) = None \<Longrightarrow> priority (thread_at (lock_donate c l s) t) = priority (thread_at s t)"
  by (simp add: lock_donate_def modify_thread_def)

lemma sema_down_off: "\<not> in_external_intr s \<Longrightarrow> \<not> intr_on s \<Longrightarrow> sema_down sm s = sema_down_loop sm False s"
  by (cases s) (simp add: sema_down_def intr_context_def intr_disable_def intr_get_level_def)

lemma prio_inv_cong:
  assumes "\<And>t. priority (thread_at s' t) = priority (thread_at s t)" "ready_list s' = ready_list s" "current s' = current s"
    "thread_mlfqs s' = thread_mlfqs s"
  shows "prio_inv s' = prio_inv s"
  using assms by (simp add: prio_inv_def by_priority_def)

definition acquiring :: "nat \<Rightarrow> kernel \<Rightarrow> kernel" where
  "acquiring l s = push (LockAcquire l True) s"

lemma lock_acquire_inv:
  assumes k: "kernel_inv s" and on: "intr_on s" and h: "holder (lock_at s l) \<noteq> Some (current s)"
    and i: "idle_thread s \<noteq> Some (current s)" and ar: "acquire_ret l (frames s (current s))"
  shows "\<exists>s'. lock_acquire l s = Some s' \<and> kernel_inv s' \<and> thread_mlfqs s' = thread_mlfqs s \<and> sleep_view s' = sleep_view s \<and>
    lock_view s' = (if sema_value (sema_at s (LockSema l)) = 0 then lock_view (push (SemaDown (LockSema l) False) (acquiring l s))
      else lock_view (sema_taken (LockSema l) False (acquiring l s))) \<and>
    (sema_value (sema_at s (LockSema l)) = 0 \<or> holder (lock_at s l) = None \<and> prio_inv s \<longrightarrow> prio_inv s')"
proof -
  let ?c = "current s"
  note K = kernel_invD [OF k] and c = thread_current_inv [OF kernel_invD(1) [OF k]]
  let ?s0 = "s\<lparr>intr_on := False\<rparr>"
  let ?s1 = "if \<not> thread_mlfqs s then lock_donate ?c l ?s0 else ?s0"
  have d: "same_but_prio ?s0 ?s1" using lock_donate_same by simp
  note V = same_but_prio_views [OF d]
  let ?s2 = "push (LockAcquire l True) ?s1"
  have "sched_inv (Some ?c) ?s0" using K(1) by (subst sched_inv_control [of _ s]) (simp_all add: control_def)
  then have "sched_inv (Some (current ?s1)) ?s1" using V(1,6) by simp
  then have inv: "sched_inv (Some (current ?s2)) ?s2" using sched_inv_push [of ?s1 "LockAcquire l True"] by simp
  have f: "off_stack (idle_thread ?s2) (current ?s2) (SemaDown (LockSema l) False # frames ?s2 (current ?s2))"
    using V(5,6,7) i ar by simp
  have off: "\<not> in_external_intr ?s2" "\<not> intr_on ?s2" using K(2) V(8,9) by simp_all
  have "lock_acquire l s = sema_down (LockSema l) ?s2"
    using c K(2) on h
    by (simp add: lock_acquire_def lock_held_by_current_thread_def intr_context_def intr_disable_def intr_get_level_def Let_def)
  then have e: "lock_acquire l s = sema_down_loop (LockSema l) False ?s2" using sema_down_off [OF off] by simp
  have sv: "sema_value (sema_at ?s2 (LockSema l)) = sema_value (sema_at s (LockSema l))" using V(10) by simp
  have lf: "lock_frames ?s1 = lock_frames s" using lock_view_values(3) [OF V(2)] by simp
  have mg: "\<And>t. magic (thread_at ?s1 t) = magic (thread_at s t)" using d by (simp add: same_but_prio_def)
  have hd: "\<And>l. holder (lock_at ?s1 l) = holder (lock_at s l)" using d by (simp add: same_but_prio_def)
  show ?thesis
  proof (cases "sema_value (sema_at s (LockSema l)) = 0")
    case True
    from sema_down_loop_inv(1) [OF inv off f] True sv obtain s' where
      s': "sema_down_loop (LockSema l) False ?s2 = Some s'" "resched (push (SemaDown (LockSema l) False) ?s2) s'" by auto
    have "lock_view (push (SemaDown (LockSema l) False) ?s2) = lock_view (push (SemaDown (LockSema l) False) (acquiring l s))"
      by (rule lock_view_cong) (use mg hd V(5,6,10) in \<open>simp_all add: acquiring_def\<close>)
    moreover have "sleep_view ?s2 = sleep_view s" using V(3) by (simp add: sleep_view_def)
    ultimately show ?thesis using s' e True V(4) by (auto simp: resched_def)
  next
    case False
    let ?s' = "sema_taken (LockSema l) False ?s2"
    from sema_down_loop_inv(2) [OF inv off f] False sv have s': "sema_down_loop (LockSema l) False ?s2 = Some ?s'" "kernel_inv ?s'"
      by auto
    have "lock_view ?s' = lock_view (sema_taken (LockSema l) False (acquiring l s))"
      by (rule lock_view_cong) (use mg hd V(5,6,10) in \<open>simp_all add: acquiring_def sema_taken_def modify_sema_def\<close>)
    moreover have "sleep_view ?s' = sleep_view s" using V(3) by (simp add: sleep_view_def sema_taken_def modify_sema_def)
    moreover have "prio_inv ?s'" if "holder (lock_at s l) = None" "prio_inv s"
    proof -
      have "priority (thread_at ?s1 t) = priority (thread_at s t)" for t using lock_donate_free [of ?s0] that(1) by simp
      moreover have "ready_list ?s1 = ready_list s" using d by (simp add: same_but_prio_def)
      ultimately have "prio_inv ?s1" using that(2) V(4,6) prio_inv_cong [of ?s1 s] by simp
      then show ?thesis by (subst prio_inv_cong [of _ ?s1]) (simp_all add: sema_taken_def modify_sema_def)
    qed
    ultimately show ?thesis using s' e False V(4) by (simp add: sema_taken_def modify_sema_def)
  qed
qed

text \<open>Updates that keep the threads' places and priorities and may change locks and the order of waiters.\<close>

definition same_places :: "kernel \<Rightarrow> kernel \<Rightarrow> bool" where
  "same_places s s' \<longleftrightarrow> (\<forall>t. status (thread_at s' t) = status (thread_at s t) \<and> magic (thread_at s' t) = magic (thread_at s t) \<and>
       wakeup_tick (thread_at s' t) = wakeup_tick (thread_at s t) \<and> priority (thread_at s' t) = priority (thread_at s t)) \<and>
     (\<forall>sm. mset (waiters (sema_at s' sm)) = mset (waiters (sema_at s sm))) \<and> ready_list s' = ready_list s \<and>
     sleeping_list s' = sleeping_list s \<and> idle_thread s' = idle_thread s \<and> current s' = current s \<and> frames s' = frames s \<and>
     in_external_intr s' = in_external_intr s \<and> ticks s' = ticks s \<and> thread_mlfqs s' = thread_mlfqs s"

lemma same_places_refl [simp]: "same_places s s"
  by (simp add: same_places_def)

lemma same_placesD:
  assumes "same_places s s'"
  shows "sched_inv r s' = sched_inv r s" "sleep_view s' = sleep_view s" "prio_inv s' = prio_inv s" "thread_mlfqs s' = thread_mlfqs s"
    "lock_frames s' = lock_frames s" "current s' = current s" "frames s' = frames s" "idle_thread s' = idle_thread s"
    "in_external_intr s' = in_external_intr s" "\<And>t. magic (thread_at s' t) = magic (thread_at s t)"
proof -
  show "sched_inv r s' = sched_inv r s" by (rule sched_inv_permute) (use assms in \<open>simp_all add: same_places_def\<close>)
  show "prio_inv s' = prio_inv s" by (rule prio_inv_cong) (use assms in \<open>simp_all add: same_places_def\<close>)
qed (use assms in \<open>auto simp: same_places_def sleep_view_def lock_frames_def live_def fun_eq_iff\<close>)

lemma lock_settle_places: "same_places s (lock_settle c l s)"
  by (simp add: lock_settle_def Let_def same_places_def) (simp add: modify_thread_def modify_sema_def)

lemma lock_settle_holder: "holder (lock_at (lock_settle c l s) k) = holder (lock_at s k)"
  by (simp add: lock_settle_def Let_def) (simp add: modify_lock_def)

lemma lock_settle_value: "sema_value (sema_at (lock_settle c l s) sm) = sema_value (sema_at s sm)"
  by (simp add: lock_settle_def Let_def) (simp add: modify_sema_def)

lemma lock_withdraw_places: "same_places s (lock_withdraw c l s)"
  by (simp add: lock_withdraw_def Let_def same_places_def) (simp add: modify_thread_def)

lemma lock_withdraw_locks:
  "lock_at (lock_withdraw c l s) = lock_at s" "sema_at (lock_withdraw c l s) = sema_at s" "intr_on (lock_withdraw c l s) = intr_on s"
  by (simp_all add: lock_withdraw_def Let_def)

lemma lock_acquire_tail_inv:
  assumes inv: "sched_inv (Some (current s)) s" and s: "\<not> in_external_intr s"
    and i: "idle_thread s \<noteq> Some (current s)" and ar: "acquire_ret l (frames s (current s))"
  shows "\<exists>s'. lock_acquire_tail l True s = Some s' \<and> kernel_inv s' \<and> thread_mlfqs s' = thread_mlfqs s \<and> sleep_view s' = sleep_view s \<and>
    lock_view s' = lock_view (modify_lock l (holder_update (\<lambda>_. Some (current s))) s) \<and> prio_inv s' = prio_inv s"
proof -
  let ?c = "current s"
  note c = thread_current_inv [OF inv]
  let ?s1 = "if \<not> thread_mlfqs s then lock_settle ?c l s else s"
  let ?s' = "(modify_lock l (holder_update (\<lambda>_. Some ?c)) ?s1)\<lparr>intr_on := True\<rparr>"
  have p1: "same_places s ?s1" using lock_settle_places [of s] by simp
  have pl: "same_places s ?s'" using p1 by (simp add: same_places_def)
  note V = same_placesD [OF pl]
  have "thread_current ?s1 = Some ?c" "\<not> in_external_intr ?s1"
    using c s p1 by (simp_all add: same_places_def thread_current_def running_thread_def is_thread_def)
  then have e: "lock_acquire_tail l True s = Some ?s'"
    by (cases "thread_mlfqs s") (simp_all add: lock_acquire_tail_def running_thread_def intr_set_level_def intr_enable_def
        intr_context_def Let_def)
  have "on_stack (idle_thread s) ?c (frames s ?c)" using ar i by (auto simp: acquire_ret_def on_stack_def)
  then have "kernel_inv ?s'" using V(1,6,7,8,9) inv s by (simp add: kernel_inv_def stack_ok_def)
  moreover have "lock_view ?s' = lock_view (modify_lock l (holder_update (\<lambda>_. Some ?c)) s)"
    by (rule lock_view_cong) (use V(7,10) in \<open>simp_all add: modify_lock_def lock_settle_holder lock_settle_value\<close>)
  ultimately show ?thesis using e V(2,3,4) by blast
qed

text \<open>Release: the lock's state changes at once, the thread goes on with \<open>sema_up\<close>.\<close>

definition releasing :: "nat \<Rightarrow> kernel \<Rightarrow> kernel" where
  "releasing l s = push (LockReleaseUp l) (push LockReleasePriority (modify_lock l (holder_update (\<lambda>_. None)) s))"

lemma lock_release_inv:
  assumes k: "sched_inv (Some (current s)) s" "\<not> in_external_intr s" and on: "intr_on s"
    and h: "holder (lock_at s l) = Some (current s)"
    and i: "idle_thread s \<noteq> Some (current s)" and rr: "release_ret (frames s (current s))"
  shows "\<exists>s'. lock_release l s = Some s' \<and> kernel_inv s' \<and> thread_mlfqs s' = thread_mlfqs s \<and> sleep_view s' = sleep_view s \<and>
    lock_view s' = lock_view (releasing l s) \<and> prio_inv s' = prio_inv s"
proof -
  let ?c = "current s"
  note c = thread_current_inv [OF k(1)]
  let ?s1 = "if \<not> thread_mlfqs s then lock_withdraw ?c l s else s"
  let ?s2 = "modify_lock l (holder_update (\<lambda>_. None)) ?s1"
  let ?s' = "push (LockReleaseUp l) (push LockReleasePriority ?s2)"
  have "same_places s ?s1" using lock_withdraw_places [of s] by simp
  then have pl: "same_places s ?s2" by (simp add: same_places_def)
  note V = same_placesD [OF pl]
  have on2: "intr_on ?s2" using on by (simp add: lock_withdraw_locks)
  have e: "lock_release l s = Some ?s'"
    using c h by (simp add: lock_release_def lock_held_by_current_thread_def Let_def)
  have "sched_inv (Some (current ?s2)) ?s2" using V(1,6) k by simp
  then have "sched_inv (Some (current ?s')) ?s'"
    using sched_inv_push [of ?s2 LockReleasePriority] sched_inv_push [of "push LockReleasePriority ?s2" "LockReleaseUp l"] by simp
  then have "kernel_inv ?s'" using V(6,7,8,9) k on2 i rr by (simp add: kernel_inv_def stack_ok_def on_stack_def)
  moreover have "lock_view ?s' = lock_view (releasing l s)"
    by (rule lock_view_cong) (use V(6,7,10) in \<open>simp_all add: releasing_def modify_lock_def lock_withdraw_locks\<close>)
  moreover have "prio_inv ?s' = prio_inv ?s2" by (rule prio_inv_cong) simp_all
  ultimately show ?thesis using e V(2,3,4) by simp
qed

lemma sema_try_down_inv:
  assumes k: "kernel_inv s" and on: "intr_on s"
  shows "sema_try_down sm s = (if 0 < sema_value (sema_at s sm) then Some (True, sema_taken sm True s) else Some (False, s))"
    "kernel_inv (sema_taken sm True s)"
proof -
  have s: "s\<lparr>intr_on := True\<rparr> = s" using on by (cases s) simp
  show "sema_try_down sm s = (if 0 < sema_value (sema_at s sm) then Some (True, sema_taken sm True s) else Some (False, s))"
    using kernel_invD(2) [OF k] on s
    by (simp add: sema_try_down_def intr_disable_def intr_get_level_def intr_set_level_def intr_enable_def intr_context_def
        sema_taken_def modify_sema_def)
  have "sched_inv (Some (current s)) (sema_taken sm True s)"
    using kernel_invD(1) [OF k] by (subst sched_inv_control [of _ s]) (auto simp: control_def sema_taken_def modify_sema_def fun_eq_iff)
  then show "kernel_inv (sema_taken sm True s)"
    using k on by (simp add: kernel_inv_def sema_taken_def modify_sema_def)
qed

lemma lock_try_acquire_inv:
  assumes k: "kernel_inv s" and on: "intr_on s" and h: "holder (lock_at s l) \<noteq> Some (current s)" and v: "0 < sema_value (sema_at s (LockSema l))"
  shows "\<exists>s'. lock_try_acquire l s = Some (True, s') \<and> kernel_inv s' \<and> thread_mlfqs s' = thread_mlfqs s \<and> sleep_view s' = sleep_view s \<and>
    lock_view s' = lock_view (modify_lock l (holder_update (\<lambda>_. Some (current s))) (sema_taken (LockSema l) True s)) \<and> prio_inv s' = prio_inv s"
proof -
  let ?c = "current s"
  note K = kernel_invD [OF k] and c = thread_current_inv [OF kernel_invD(1) [OF k]]
  let ?s0 = "sema_taken (LockSema l) True s"
  let ?s1 = "modify_lock l (holder_update (\<lambda>_. Some ?c)) ?s0"
  let ?s' = "if \<not> thread_mlfqs s then modify_thread ?c (locks_update (insert_ordered (lock_priority_greater ?s1) l)) ?s1 else ?s1"
  have pl: "same_places s ?s'" by (simp add: same_places_def modify_thread_def modify_lock_def modify_sema_def sema_taken_def)
  note V = same_placesD [OF pl]
  have "thread_current ?s0 = Some ?c" "thread_mlfqs ?s0 = thread_mlfqs s"
    using c by (simp_all add: thread_current_def running_thread_def is_thread_def sema_taken_def modify_sema_def)
  moreover have "thread_mlfqs ?s1 = thread_mlfqs s" by (simp add: modify_lock_def sema_taken_def modify_sema_def)
  ultimately have e: "lock_try_acquire l s = Some (True, ?s')"
    using c h v sema_try_down_inv(1) [OF k on, of "LockSema l"]
    by (simp add: lock_try_acquire_def lock_held_by_current_thread_def Let_def)
  have "intr_on ?s'" by (simp add: modify_lock_def sema_taken_def)
  then have "kernel_inv ?s'" using V(1,6,7,8,9) K on by (simp add: kernel_inv_def stack_ok_def)
  moreover have "lock_view ?s' = lock_view ?s1"
    by (rule lock_view_cong) (simp_all add: modify_thread_def modify_lock_def modify_sema_def sema_taken_def)
  ultimately show ?thesis using e V(2,3,4) by blast
qed

section \<open>Semaphores and conditions\<close>

text \<open>\<open>sema_down\<close> with interrupts on.\<close>

lemma sema_down_inv:
  assumes k: "sched_inv (Some (current s)) s" "\<not> in_external_intr s" and on: "intr_on s" and pr: "prio_inv s"
    and f: "off_stack (idle_thread s) (current s) (SemaDown sm True # frames s (current s))"
    and sm: "\<And>l. sm \<noteq> LockSema l"
  shows "\<exists>s'. sema_down sm s = Some s' \<and> resched s s'"
proof -
  let ?s = "s\<lparr>intr_on := False\<rparr>"
  have inv: "sched_inv (Some (current ?s)) ?s" using k(1) by (subst sched_inv_control [of _ s]) (simp_all add: control_def)
  have e: "sema_down sm s = sema_down_loop sm True ?s"
    using k(2) on by (simp add: sema_down_def intr_context_def intr_disable_def intr_get_level_def)
  have nl: "\<not> lock_frame (SemaDown sm True)" using sm by (cases sm) auto
  show ?thesis
  proof (cases "sema_value (sema_at s sm) = 0")
    case True
    then obtain s' where s': "sema_down_loop sm True ?s = Some s'" "resched (push (SemaDown sm True) ?s) s'"
      using sema_down_loop_inv(1) [OF inv, of sm True] k f by auto
    have "lock_view (push (SemaDown sm True) ?s) = lock_view s" unfolding lock_view_push [OF nl] by (simp add: lock_view_def)
    then show ?thesis using s' e by (simp add: resched_def sleep_view_def)
  next
    case False
    let ?t = "sema_taken sm True ?s"
    have t: "sema_down_loop sm True ?s = Some ?t" "kernel_inv ?t"
      using sema_down_loop_inv(2) [OF inv, of sm True] k f False by auto
    have "prio_inv ?t = prio_inv s" by (rule prio_inv_cong) (simp_all add: sema_taken_def)
    moreover have "lock_view ?t = lock_view s"
      by (rule lock_view_cong) (use sm in \<open>auto simp: sema_taken_def modify_sema_def\<close>)
    ultimately have "resched s ?t" using t pr by (simp add: resched_def sleep_view_def sema_taken_def)
    then show ?thesis using t e by simp
  qed
qed

lemma sema_raised_views:
  assumes "\<And>l. sm \<noteq> LockSema l"
  shows "resched (sema_raised sm s) s' = resched s s'"
proof -
  have "lock_view (sema_raised sm s) = lock_view s"
    by (rule lock_view_cong) (use assms in \<open>auto simp: sema_raised_def modify_sema_def\<close>)
  then show ?thesis by (simp add: resched_def sema_raised_def sleep_view_def)
qed

lemma no_waiter:
  assumes "sched_inv (Some (current s)) s"
  shows "waiters (sema_at s (WaiterSema (current s))) = []"
proof -
  note D = sched_invD [OF assms]
  have "t \<notin> set (waiters (sema_at s (WaiterSema (current s))))" for t
  proof
    assume "t \<in> set (waiters (sema_at s (WaiterSema (current s))))"
    then obtain old fs where t: "blocked s t" "frames s t = SemaDown (WaiterSema (current s)) old # fs" using queuesD(4) [OF D(2)] by blast
    have "t \<noteq> current s" using blocked_not_running [OF assms t(1)] .
    then show False using stacksD(1) [OF D(3), of t] t by (simp add: blocked_def)
  qed
  then show ?thesis by (metis list.set_intros(1) neq_Nil_conv)
qed

lemma cond_wait_inv:
  assumes k: "kernel_inv s" and on: "intr_on s" and fr: "frames s (current s) = []" and h: "holder (lock_at s l) = Some (current s)"
  shows "\<exists>s'. cond_wait cd l s = Some s' \<and> kernel_inv s' \<and> thread_mlfqs s' = thread_mlfqs s \<and> sleep_view s' = sleep_view s \<and>
    lock_view s' = lock_view (releasing l (push CondWaitDown (push (CondWaitAcquire l) s))) \<and> prio_inv s' = prio_inv s"
proof -
  let ?c = "current s"
  note K = kernel_invD [OF k] and c = thread_current_inv [OF kernel_invD(1) [OF k]]
  have i: "idle_thread s \<noteq> Some ?c" using K(3) [OF on] fr by (simp add: on_stack_def)
  let ?s1 = "sema_init (WaiterSema ?c) 0 s"
  let ?e = "\<lparr>waiter = ?c, elem_priority = priority (thread_at s ?c)\<rparr>"
  let ?s2 = "?s1\<lparr>cond_at := (cond_at ?s1)(cd := insert_ordered semaphore_priority_greater ?e (cond_at ?s1 cd))\<rparr>"
  let ?s3 = "push CondWaitDown (push (CondWaitAcquire l) ?s2)"
  have "sched_inv (Some ?c) ?s2"
    using K(1) no_waiter [OF K(1)]
    by (subst sched_inv_control [of _ s]) (auto simp: control_def sema_init_def modify_sema_def fun_eq_iff)
  then have inv: "sched_inv (Some (current ?s3)) ?s3"
    using sched_inv_push [of ?s2 "CondWaitAcquire l"] sched_inv_push [of "push (CondWaitAcquire l) ?s2" CondWaitDown]
    by (simp add: sema_init_def)
  have e: "cond_wait cd l s = lock_release l ?s3"
    using c K(2) h by (simp add: cond_wait_def intr_context_def lock_held_by_current_thread_def running_thread_def
        thread_get_priority_def thread_current_def is_thread_def sema_init_def Let_def)
  have "\<exists>s'. lock_release l ?s3 = Some s' \<and> kernel_inv s' \<and> thread_mlfqs s' = thread_mlfqs ?s3 \<and> sleep_view s' = sleep_view ?s3 \<and>
      lock_view s' = lock_view (releasing l ?s3) \<and> prio_inv s' = prio_inv ?s3"
    by (rule lock_release_inv [OF inv]) (use K(2) on h i fr in \<open>simp_all add: sema_init_def release_ret_def\<close>)
  moreover have "lock_view (releasing l ?s3) = lock_view (releasing l (push CondWaitDown (push (CondWaitAcquire l) s)))"
    by (rule lock_view_cong) (simp_all add: releasing_def sema_init_def modify_lock_def modify_sema_def)
  moreover have "prio_inv ?s3 = prio_inv s" by (rule prio_inv_cong) (simp_all add: sema_init_def)
  ultimately show ?thesis using e by (simp add: sleep_view_def sema_init_def)
qed

text \<open>\<open>cond_signal\<close> wakes the waiter of highest recorded priority, if there is one.\<close>

lemma cond_signal_inv:
  assumes k: "kernel_inv s" and on: "intr_on s" and h: "holder (lock_at s l) = Some (current s)" and pr: "prio_inv s"
  shows "\<exists>s'. cond_signal cd l s = Some s' \<and> resched s s'"
proof (cases "cond_at s cd = []")
  case True
  then show ?thesis using resched_refl [OF k pr] h kernel_invD(2) [OF k] thread_current_inv [OF kernel_invD(1) [OF k]]
    by (simp add: cond_signal_def intr_context_def lock_held_by_current_thread_def)
next
  case False
  let ?w = "sort_key (\<lambda>e. - elem_priority e) (cond_at s cd)"
  let ?s = "s\<lparr>cond_at := (cond_at s)(cd := tl ?w)\<rparr>"
  have "sched_inv (Some (current s)) ?s"
    using kernel_invD(1) [OF k] by (subst sched_inv_control [of _ s]) (simp_all add: control_def)
  then have "kernel_inv ?s" using k by (simp add: kernel_inv_def)
  then obtain s' where s': "sema_up (WaiterSema (waiter (hd ?w))) ?s = Some s'" "resched (sema_raised (WaiterSema (waiter (hd ?w))) ?s) s'"
    using sema_up_inv [of ?s] on by auto
  have "lock_view ?s = lock_view s" by (rule lock_view_cong) simp_all
  then have "resched s s'" using s'(2) by (simp add: sema_raised_views) (simp add: resched_def sleep_view_def)
  then show ?thesis using False s'(1) h kernel_invD(2) [OF k] thread_current_inv [OF kernel_invD(1) [OF k]]
    by (simp add: cond_signal_def intr_context_def lock_held_by_current_thread_def)
qed

lemma cond_broadcast_inv:
  assumes k: "kernel_inv s" and on: "intr_on s" and fr: "frames s (current s) = []" and pr: "prio_inv s"
    and h: "cond_at s cd \<noteq> [] \<longrightarrow> holder (lock_at s l) = Some (current s)"
  shows "\<exists>s'. cond_broadcast cd l s = Some s' \<and>
    (if cond_at s cd \<noteq> [] then resched (push (CondBroadcast cd l) s) s' else s' = s)"
proof (cases "cond_at s cd = []")
  case True
  then show ?thesis by (simp add: cond_broadcast_def)
next
  case False
  let ?s = "push (CondBroadcast cd l) s"
  have i: "idle_thread s \<noteq> Some (current s)" using kernel_invD(3) [OF k on] fr by (simp add: on_stack_def)
  have "kernel_inv ?s"
    using sched_inv_push [OF kernel_invD(1) [OF k], of "CondBroadcast cd l"] kernel_invD(2) [OF k] on i fr
    by (simp add: kernel_inv_def stack_ok_def on_stack_def)
  moreover have "prio_inv ?s" using pr by (subst prio_inv_cong [of _ s]) simp_all
  ultimately have "\<exists>s'. cond_signal cd l ?s = Some s' \<and> resched ?s s'" using cond_signal_inv [of ?s l cd] on h False by simp
  then show ?thesis using False by (simp add: cond_broadcast_def)
qed

section \<open>Creation of threads\<close>

lemma creating_base [simp]: "creating [ThreadCreate t x] = Some t" "creating [AllocateTid u, ThreadCreate t x] = Some t"
  by (simp_all add: creating_def)

text \<open>The state in which \<open>thread_create\<close> calls \<open>allocate_tid\<close>.\<close>

lemma created_inv:
  assumes k: "kernel_inv s" and on: "intr_on s" and fr: "frames s (current s) = []" and t: "\<not> live s t"
    and eq: "thread_at s' = (thread_at s)(t := th)" "status th = THREAD_BLOCKED" "magic th"
      "frames s' = (frames s)(t := [], current s := [AllocateTid t, ThreadCreate t None])"
      "sema_at s' = sema_at s" "lock_at s' = lock_at s" "ready_list s' = ready_list s" "sleeping_list s' = sleeping_list s"
      "idle_thread s' = idle_thread s" "current s' = current s" "intr_on s'" "in_external_intr s' = in_external_intr s"
      "ticks s' = ticks s" "thread_mlfqs s' = thread_mlfqs s"
  shows "kernel_inv s'" "prio_inv s' = prio_inv s" "sleeps s' = sleeps s"
proof -
  let ?c = "current s"
  note K = kernel_invD [OF k] and c = thread_current_inv [OF kernel_invD(1) [OF k]]
  note D = sched_invD [OF K(1)]
  have tc: "t \<noteq> ?c" using t c by auto
  have i: "idle_thread s \<noteq> Some ?c" using K(3) [OF on] fr by (simp add: on_stack_def)
  have it: "idle_thread s \<noteq> Some t" using idlesD [OF D(5)] t by (metis option.inject)
  have lv: "live s' u \<longleftrightarrow> live s u \<or> u = t" for u using eq by (simp add: live_def)
  have st: "status (thread_at s' u) = (if u = t then THREAD_BLOCKED else status (thread_at s u))" for u using eq by simp
  have bl: "blocked s' u \<longleftrightarrow> blocked s u \<or> u = t" for u unfolding blocked_def lv st using t by auto
  have fs: "frames s' u = (if u = ?c then [AllocateTid t, ThreadCreate t None] else if u = t then [] else frames s u)" for u
    using eq by simp
  have nbt: "\<not> blocked s t" "\<not> blocked s ?c" using t c by (auto simp: blocked_def)
  have cr: "creating (frames s' u) = (if u = ?c then Some t else if u = t then None else creating (frames s u))" for u
    unfolding fs by simp
  have r: "runs (Some ?c) s'"
    unfolding runs_def lv st using D(1) tc c unfolding runs_def by auto
  have q: "queues s'"
  proof (rule queuesI)
    show "u \<in> set (ready_list s') \<longleftrightarrow> live s' u \<and> status (thread_at s' u) = THREAD_READY \<and> idle_thread s' \<noteq> Some u" for u
      unfolding eq lv queuesD(2) [OF D(2)] using t by (simp add: eq)
    show "u \<in> set (waiters (sema_at s' sm)) \<longleftrightarrow> blocked s' u \<and> (\<exists>old fs. frames s' u = SemaDown sm old # fs)" for sm u
      unfolding eq(5) bl queuesD(4) [OF D(2)] fs using nbt by auto
    show "u \<in> set (sleeping_list s') \<longleftrightarrow> blocked s' u \<and> (\<exists>old fs. frames s' u = TimerSleep old # fs)" for u
      unfolding eq(8) bl queuesD(6) [OF D(2)] fs using nbt by auto
  qed (use queuesD(1,3,5) [OF D(2)] eq in simp_all)
  have kst: "stacks (Some ?c) s'"
  proof (rule stacksI)
    show "off_stack (idle_thread s') u (frames s' u)" if "live s' u" "Some ?c \<noteq> Some u" "frames s' u \<noteq> []" for u
      using stacksD(1) [OF D(3), of u] that unfolding lv fs eq(9) by (auto split: if_splits)
    show "frames s' u \<noteq> []" if "live s' u" "status (thread_at s' u) = THREAD_READY" for u
      using stacksD(2) [OF D(3), of u] that unfolding lv fs st by (auto split: if_splits)
    show "frames s' u = []" if "live s' u" "status (thread_at s' u) = THREAD_DYING" for u
      using stacksD(3) [OF D(3), of u] that c unfolding lv fs st by (auto split: if_splits)
    show "waits s' u" if "blocked s' u" for u
    proof (cases "u = t")
      case True
      then show ?thesis using tc c cr [of ?c] lv [of ?c] unfolding waits_def fs by auto
    next
      case False
      then have bu: "blocked s u" using that bl by simp
      then have "u \<noteq> ?c" using nbt by auto
      then have fu: "frames s' u = frames s u" using False by (simp add: fs)
      have "live s' d \<and> creating (frames s' d) = Some u" if "live s d" "creating (frames s d) = Some u" for d
        using that t fr unfolding cr lv by auto
      then show ?thesis using stacksD(4) [OF D(3) bu] unfolding waits_def eq(9) fu by blast
    qed
  qed
  have crs: "creations s'"
  proof (rule creationsI)
    fix d u assume d: "live s' d" "creating (frames s' d) = Some u"
    show "blocked s' u \<and> frames s' u = []"
    proof (cases "d = ?c")
      case True
      then show ?thesis using d(2) tc unfolding cr bl fs by auto
    next
      case False
      then have "live s d" "creating (frames s d) = Some u" using d unfolding cr lv by (auto split: if_splits)
      note b = creationsD(1,2) [OF D(4) this]
      then have "u \<noteq> ?c" using nbt by auto
      then show ?thesis using b unfolding bl fs by simp
    qed
    fix e assume e: "live s' e" "creating (frames s' e) = Some u"
    have old: "live s x \<and> creating (frames s x) = Some u \<and> u \<noteq> t" if "x \<noteq> ?c" "live s' x" "creating (frames s' x) = Some u" for x
      using that creationsD(1) [OF D(4), of x u] nbt unfolding cr lv by (auto split: if_splits)
    show "e = d"
    proof (cases "d = ?c")
      case True
      then have "u = t" using d(2) unfolding cr by simp
      then show ?thesis using old [of e] e True by auto
    next
      case False
      then have o: "live s d" "creating (frames s d) = Some u" "u \<noteq> t" using old d by auto
      then have "e \<noteq> ?c" using e unfolding cr by auto
      then have "live s e" "creating (frames s e) = Some u" using old e by auto
      then show ?thesis by (rule creationsD(3) [OF D(4) o(1,2)])
    qed
  qed
  have "idles (Some ?c) s'"
  proof (rule idlesD [OF D(5)])
    fix j assume "idle_thread s = Some j" "live s j" "Some ?c \<noteq> Some j \<Longrightarrow> frames s j \<noteq> []"
    then show ?thesis using it unfolding idles_def eq(9) lv fs by auto
  qed
  with r q kst crs have "sched_inv (Some (current s')) s'" by (simp add: sched_inv_def eq(10))
  then show "kernel_inv s'" using K(2) i eq fs [of ?c] by (simp add: kernel_inv_def stack_ok_def on_stack_def)
  have nr: "t \<notin> set (ready_list s)" "t \<notin> set (sleeping_list s)"
    using queuesD(2,6) [OF D(2), of t] t nbt by auto
  then have "map (\<lambda>u. - priority (thread_at s' u)) (ready_list s) = map (\<lambda>u. - priority (thread_at s u)) (ready_list s)"
    "\<forall>u \<in> set (ready_list s). priority (thread_at s' u) = priority (thread_at s u)"
    "map (\<lambda>u. wakeup_tick (thread_at s' u)) (sleeping_list s) = map (\<lambda>u. wakeup_tick (thread_at s u)) (sleeping_list s)"
    "\<forall>u \<in> set (sleeping_list s). wakeup_tick (thread_at s' u) = wakeup_tick (thread_at s u)"
    unfolding eq(1) by (auto intro!: map_cong)
  moreover have "priority (thread_at s' ?c) = priority (thread_at s ?c)" using tc by (simp add: eq(1))
  ultimately show "prio_inv s' = prio_inv s" "sleeps s' = sleeps s"
    by (simp_all add: prio_inv_def by_priority_def sleeps_def eq(7,8,10,13,14) cong: map_cong)
qed

lemma thread_create_inv:
  assumes k: "kernel_inv s" and on: "intr_on s" and fr: "frames s (current s) = []" and t: "\<not> live s t" and pr: "prio_inv s"
    and sl: "sleeps s" and cr: "thread_create (Some t) p None s = Some s1"
  obtains s0 where "kernel_inv s0" "prio_inv s0" "sleeps s0" "intr_on s0" "thread_mlfqs s0 = thread_mlfqs s"
    "current s0 = current s" "idle_thread s0 \<noteq> Some (current s0)"
    "frames s0 (current s0) = [AllocateTid t, ThreadCreate t None]" "lock_view s0 = lock_view (push (AllocateTid t) s)"
    "lock_acquire tid_lock s0 = Some s1"
proof -
  let ?c = "current s"
  note K = kernel_invD [OF k] and c = thread_current_inv [OF kernel_invD(1) [OF k]]
  have tc: "t \<noteq> ?c" using t c by auto
  let ?new = "\<lparr>tid = 0, status = THREAD_BLOCKED, priority = p, wakeup_tick = 0, nice = 0, recent_cpu = 0, base_priority = p,
    donated_priority = 0, waiting_lock = None, locks = [], has_pagedir = False, magic = True\<rparr>"
  let ?th = "if thread_mlfqs s then ?new\<lparr>priority := 31, recent_cpu := recent_cpu (thread_at s ?c), nice := nice (thread_at s ?c)\<rparr>
    else ?new"
  let ?s0 = "s\<lparr>thread_at := (thread_at s)(t := ?th), all_list := all_list s @ [t],
    frames := (frames s)(t := [], ?c := [AllocateTid t, ThreadCreate t None])\<rparr>"
  have io: "s\<lparr>intr_on := True\<rparr> = s" using on by (cases s) simp
  have e: "thread_create (Some t) p None s = (if 0 \<le> p \<and> p \<le> 63 then lock_acquire tid_lock ?s0 else None)"
    using on K(2) c tc fr
    by (auto simp: thread_create_def init_thread_def allocate_tid_def push_def modify_thread_def intr_disable_def intr_get_level_def
        intr_set_level_def intr_enable_def intr_context_def thread_current_def running_thread_def is_thread_def Let_def ASSERT_def
        fun_upd_twist intro!: arg_cong [where f = "lock_acquire 0"])
  have s0: "kernel_inv ?s0" "prio_inv ?s0 = prio_inv s" "sleeps ?s0 = sleeps s"
    by (rule created_inv [OF k on fr t, where th = ?th]; use on in simp)+
  have "lock_view ?s0 = lock_view (push (AllocateTid t) s)"
    using t fr c by (auto simp: lock_view_def lock_frames_def live_def push_def fun_eq_iff)
  moreover have "idle_thread s \<noteq> Some ?c" using K(3) [OF on] fr by (simp add: on_stack_def)
  ultimately show thesis using that [of ?s0] s0 pr sl on e cr by (simp split: if_splits)
qed

text \<open>The end of \<open>thread_create\<close>: the new thread becomes ready.\<close>

lemma unblocked_by_priority:
  assumes "by_priority s"
  shows "by_priority (unblocked t s)"
proof -
  have "thread_priority_greater s = (\<lambda>a b. - priority (thread_at s a) < - priority (thread_at s b))"
    by (auto simp: thread_priority_greater_def fun_eq_iff)
  then show ?thesis
    using insert_ordered_sort_key [of "\<lambda>t. - priority (thread_at s t)" "ready_list s" t] assms
    by (simp add: by_priority_def insert_by_priority_def)
qed

lemma started_inv:
  assumes k: "kernel_inv s" and on: "intr_on s" and fr: "frames s (current s) = [ThreadCreate t None]"
    and s1: "s1 = s\<lparr>frames := (frames s)(current s := [], t := [KernelThread None])\<rparr>"
  shows "kernel_inv (unblocked t s1)" "blocked s1 t"
proof -
  let ?c = "current s" and ?s = "unblocked t s1"
  note K = kernel_invD [OF k] and c = thread_current_inv [OF kernel_invD(1) [OF k]]
  note D = sched_invD [OF K(1)]
  have b: "blocked s t" "frames s t = []" using creationsD(1,2) [OF D(4) c(2)] fr by simp_all
  have u: "d = ?c" if "live s d" "creating (frames s d) = Some t" for d using creationsD(3) [OF D(4) c(2) _ that] fr by simp
  have tc: "t \<noteq> ?c" using blocked_not_running [OF K(1) b(1)] .
  have i: "idle_thread s \<noteq> Some ?c" using K(3) [OF on] fr by (simp add: on_stack_def)
  have it: "idle_thread s \<noteq> Some t" using idlesD [OF D(5)] b(2) tc by (metis option.inject)
  show "blocked s1 t" using b by (simp add: s1 blocked_def live_def)
  have lv: "live ?s d = live s d" for d by (simp add: live_def s1)
  have st: "status (thread_at ?s d) = (if d = t then THREAD_READY else status (thread_at s d))" for d by (simp add: s1)
  have fs: "frames ?s d = (if d = t then [KernelThread None] else if d = ?c then [] else frames s d)" for d by (simp add: s1)
  have same: "idle_thread ?s = idle_thread s" "sema_at ?s = sema_at s" "sleeping_list ?s = sleeping_list s"
    "set (ready_list ?s) = insert t (set (ready_list s))" by (simp_all add: s1 insert_by_priority_def)
  have bl: "blocked ?s d \<longleftrightarrow> blocked s d \<and> d \<noteq> t" for d unfolding blocked_def lv st by auto
  have nbc: "\<not> blocked s ?c" using c by (simp add: blocked_def)
  have cr: "creating (frames ?s d) = (if d = t \<or> d = ?c then None else creating (frames s d))" for d
    unfolding fs by (simp add: creating_def)
  have r: "runs (Some ?c) ?s" using D(1) tc b(1) unfolding runs_def lv st by (auto simp: blocked_def)
  have q: "queues ?s"
  proof (rule queuesI)
    show "distinct (ready_list ?s)"
      using queuesD(1) [OF D(2)] queuesD(2) [OF D(2), of t] b(1) by (simp add: s1 insert_by_priority_def blocked_def)
    show "d \<in> set (ready_list ?s) \<longleftrightarrow> live ?s d \<and> status (thread_at ?s d) = THREAD_READY \<and> idle_thread ?s \<noteq> Some d" for d
      unfolding same(1,4) insert_iff lv st queuesD(2) [OF D(2)] using b(1) it by (auto simp: blocked_def)
    show "d \<in> set (waiters (sema_at ?s sm)) \<longleftrightarrow> blocked ?s d \<and> (\<exists>old fs. frames ?s d = SemaDown sm old # fs)" for sm d
      unfolding same bl queuesD(4) [OF D(2)] fs using nbc b by auto
    show "d \<in> set (sleeping_list ?s) \<longleftrightarrow> blocked ?s d \<and> (\<exists>old fs. frames ?s d = TimerSleep old # fs)" for d
      unfolding same bl queuesD(6) [OF D(2)] fs using nbc b by auto
    show "distinct (waiters (sema_at ?s sm))" "distinct (sleeping_list ?s)" for sm
      unfolding same using queuesD(3,5) [OF D(2)] by simp_all
  qed
  have kst: "stacks (Some ?c) ?s"
  proof (rule stacksI)
    show "off_stack (idle_thread ?s) d (frames ?s d)" if "live ?s d" "Some ?c \<noteq> Some d" "frames ?s d \<noteq> []" for d
      using stacksD(1) [OF D(3), of d] that it unfolding lv fs same by (auto split: if_splits)
    show "frames ?s d \<noteq> []" if "live ?s d" "status (thread_at ?s d) = THREAD_READY" for d
      using stacksD(2) [OF D(3), of d] that c unfolding lv fs st by (auto split: if_splits)
    show "frames ?s d = []" if "live ?s d" "status (thread_at ?s d) = THREAD_DYING" for d
      using stacksD(3) [OF D(3), of d] that c unfolding lv fs st by (auto split: if_splits)
    show "waits ?s d" if d: "blocked ?s d" for d
    proof -
      have bd: "blocked s d" "d \<noteq> t" "d \<noteq> ?c" using d nbc unfolding bl by auto
      then have fd: "frames ?s d = frames s d" unfolding fs by simp
      have "live ?s e \<and> creating (frames ?s e) = Some d" if e: "live s e" "creating (frames s e) = Some d" for e
      proof -
        have "e \<noteq> ?c" using e fr bd(2) by auto
        moreover have "e \<noteq> t" using e b(2) by auto
        ultimately show ?thesis using e unfolding lv cr by simp
      qed
      then show ?thesis using stacksD(4) [OF D(3) bd(1)] unfolding waits_def fd same by blast
    qed
  qed
  have crs: "creations ?s"
  proof (rule creationsI)
    fix d x assume d: "live ?s d" "creating (frames ?s d) = Some x"
    then have o: "live s d" "creating (frames s d) = Some x" "d \<noteq> ?c" unfolding lv cr by (auto split: if_splits)
    have x: "blocked s x" "frames s x = []" using creationsD(1,2) [OF D(4) o(1,2)] by simp_all
    have "x \<noteq> t" using u [of d] o by auto
    then show "blocked ?s x \<and> frames ?s x = []" using x unfolding bl fs by simp
    fix e assume "live ?s e" "creating (frames ?s e) = Some x"
    then have "live s e" "creating (frames s e) = Some x" unfolding lv cr by (auto split: if_splits)
    then show "e = d" by (rule creationsD(3) [OF D(4) o(1,2)])
  qed
  have "idles (Some ?c) ?s"
  proof (rule idlesD [OF D(5)])
    fix j assume "idle_thread s = Some j" "live s j" "Some ?c \<noteq> Some j \<Longrightarrow> frames s j \<noteq> []"
    then show ?thesis unfolding idles_def same lv fs by auto
  qed
  with r q kst crs have "sched_inv (Some (current ?s)) ?s" by (simp add: sched_inv_def s1)
  then show "kernel_inv ?s" using K(2) i on fs [of ?c] tc by (simp add: kernel_inv_def stack_ok_def on_stack_def s1)
qed

lemma thread_create_tail_inv:
  assumes k: "kernel_inv s" and on: "intr_on s" and fr: "frames s (current s) = [ThreadCreate t None]" and pr: "prio_inv s"
  shows "\<exists>s'. thread_create_tail t None (pop s) = Some s' \<and> resched s s'"
proof -
  let ?c = "current s"
  let ?s1 = "s\<lparr>frames := (frames s)(?c := [], t := [KernelThread None])\<rparr>"
  let ?s = "unblocked t ?s1"
  note K = kernel_invD [OF k] and c = thread_current_inv [OF kernel_invD(1) [OF k]]
  have st: "kernel_inv ?s" and b: "blocked ?s1 t" using started_inv [OF k on fr refl] by simp_all
  have tc: "t \<noteq> ?c" using b c by (auto simp: blocked_def)
  have ub: "thread_unblock t ?s1 = Some ?s" by (rule thread_unblock_eq [OF b]) (use K(2) c in simp_all)
  have tl: "thread_create_tail t None (pop s) =
      (if priority (thread_at s ?c) < priority (thread_at s t) then thread_yield ?s else Some ?s)"
    using ub b thread_current_inv [OF kernel_invD(1) [OF st]] fr
    by (simp add: thread_create_tail_def pop_def is_thread_def blocked_def live_def)
  have ft: "frames s t = []" using creationsD(2) [OF sched_invD(4) [OF K(1)] c(2)] fr by simp
  have lv: "lock_view ?s = lock_view s"
    using tc fr ft by (auto simp: lock_view_def lock_frames_def live_def fun_eq_iff)
  have sv: "sleep_view ?s = sleep_view s" by (simp add: sleep_view_def)
  show ?thesis
  proof (cases "priority (thread_at s ?c) < priority (thread_at s t)")
    case True
    then obtain s' where "thread_yield ?s = Some s'" "resched ?s s'" using thread_yield_inv [OF st] by blast
    then show ?thesis using True tl lv sv by (auto simp: resched_def)
  next
    case False
    have "prio_inv ?s"
      using pr False unblocked_by_priority [of ?s1 t] by (auto simp: prio_inv_def by_priority_def insert_by_priority_def)
    then show ?thesis using False tl st lv sv by (simp add: resched_def)
  qed
qed

end
