(* ===== verification/Kernel_Timer.thy ===== *)
theory Kernel_Timer
  imports Kernel_Functions
begin

text \<open>
  The timer interrupt: it wakes exactly the sleepers whose time has come, keeps the invariant, and yields when a thread
  of higher priority has become ready.
\<close>

section \<open>The tick\<close>

text \<open>A tick may change priorities and the order of the ready list, and nothing else the invariant reads.\<close>

definition ticked :: "kernel \<Rightarrow> kernel \<Rightarrow> bool" where
  "ticked s s' \<longleftrightarrow> (\<forall>t. status (thread_at s' t) = status (thread_at s t) \<and> magic (thread_at s' t) = magic (thread_at s t) \<and>
       wakeup_tick (thread_at s' t) = wakeup_tick (thread_at s t)) \<and> sema_at s' = sema_at s \<and> lock_at s' = lock_at s \<and>
     mset (ready_list s') = mset (ready_list s) \<and> sleeping_list s' = sleeping_list s \<and>
     idle_thread s' = idle_thread s \<and> current s' = current s \<and> frames s' = frames s \<and> intr_on s' = intr_on s \<and>
     in_external_intr s' = in_external_intr s \<and> ticks s' = ticks s \<and> thread_mlfqs s' = thread_mlfqs s"

lemma ticked_refl [simp]: "ticked s s"
  by (simp add: ticked_def)

lemma ticked_trans: "ticked s s' \<Longrightarrow> ticked s' s'' \<Longrightarrow> ticked s s''"
  by (simp add: ticked_def)

lemma ticked_modify:
  "(\<And>th. status (f th) = status th \<and> magic (f th) = magic th \<and> wakeup_tick (f th) = wakeup_tick th) \<Longrightarrow> ticked s (modify_thread t f s)"
  by (simp add: ticked_def modify_thread_def)

lemma fold_bind_ticked:
  assumes "\<And>t a b. func t a = Some b \<Longrightarrow> ticked a b"
  shows "fold (\<lambda>t r. Option.bind r (func t)) ts (Some s) = Some s' \<Longrightarrow> ticked s s'"
proof (induction ts arbitrary: s)
  case (Cons t ts)
  show ?case
  proof (cases "func t s")
    case None
    have "fold (\<lambda>t r. Option.bind r (func t)) ts None = None" by (induction ts) simp_all
    then show ?thesis using Cons.prems None by simp
  next
    case (Some a)
    then show ?thesis using Cons.IH [of a] Cons.prems assms [OF Some] ticked_trans by auto
  qed
qed simp

lemma thread_foreach_ticked:
  assumes "\<And>t a b. func t a = Some b \<Longrightarrow> ticked a b" "thread_foreach func s = Some s'"
  shows "ticked s s'"
proof (rule fold_bind_ticked)
  show "fold (\<lambda>t r. Option.bind r (func t)) (all_list s) (Some s) = Some s'" using assms(2) by (simp add: thread_foreach_def panic_simps)
qed (rule assms(1))

lemma update_thread_priority_ticked: "update_thread_priority t s = Some s' \<Longrightarrow> ticked s s'"
  by (auto simp: update_thread_priority_def split: if_splits intro!: ticked_modify)

lemma update_recent_cpu_ticked: "update_recent_cpu t s = Some s' \<Longrightarrow> ticked s s'"
  by (auto simp: update_recent_cpu_def bind_eq_Some_conv split: if_splits intro!: ticked_modify)

lemma mlfqs_update_ticked:
  assumes "mlfqs_update s = Some s'"
  shows "ticked s s'"
proof (cases "cmod (ticks s) (int TIME_SLICE) = 0")
  case False
  then show ?thesis using assms by (simp add: mlfqs_update_def)
next
  case True
  then obtain s1 where s1: "thread_foreach update_thread_priority s = Some s1"
    using assms by (auto simp: mlfqs_update_def bind_eq_Some_conv)
  let ?s2 = "s1\<lparr>ready_list := sort_by_priority s1 (ready_list s1)\<rparr>"
  have "ticked s s1" using thread_foreach_ticked [OF update_thread_priority_ticked s1] .
  moreover have "ticked s1 ?s2" by (simp add: ticked_def)
  ultimately have 2: "ticked s ?s2" using ticked_trans by blast
  show ?thesis
  proof (cases "cmod (ticks ?s2) 100 = 0")
    case False
    then have "s' = ?s2" using assms True s1 by (simp add: mlfqs_update_def)
    then show ?thesis using 2 by simp
  next
    case T2: True
    then obtain s3 where s3: "update_load_avg ?s2 = Some s3" "thread_foreach update_recent_cpu s3 = Some s'"
      using assms True s1 by (auto simp: mlfqs_update_def bind_eq_Some_conv)
    have "ticked ?s2 s3" using s3(1) by (auto simp: update_load_avg_def bind_eq_Some_conv ticked_def)
    moreover have "ticked s3 s'" using thread_foreach_ticked [OF update_recent_cpu_ticked s3(2)] .
    ultimately show ?thesis using 2 ticked_trans by blast
  qed
qed

lemma mlfqs_tick_ticked:
  assumes "mlfqs_tick t s = Some s'"
  shows "ticked s s'"
proof -
  have "ticked s (if Some t \<noteq> idle_thread s then modify_thread t (recent_cpu_update (\<lambda>c. ADD_FP_INT c 1)) s else s)"
    using ticked_modify [of "recent_cpu_update (\<lambda>c. ADD_FP_INT c 1)" s t] by simp
  then show ?thesis using mlfqs_update_ticked [OF assms [unfolded mlfqs_tick_def]] ticked_trans by blast
qed

text \<open>The end of \<open>thread_tick\<close>.\<close>

definition end_tick :: "nat \<Rightarrow> kernel \<Rightarrow> kernel option" where
  "end_tick t s = (let s = count_tick t s; s = s\<lparr>thread_ticks := (thread_ticks s + 1) mod 2 ^ 32\<rparr>
     in if TIME_SLICE \<le> thread_ticks s then intr_yield_on_return s else Some s)"

lemma end_tick_ticked:
  assumes "end_tick t s = Some s'"
  shows "ticked s s'" "thread_at s' = thread_at s" "ready_list s' = ready_list s" "yield_on_return s \<Longrightarrow> yield_on_return s'"
  using assms
  by (auto simp: end_tick_def count_tick_def intr_yield_on_return_def panic_simps ticked_def Let_def split: if_splits)

lemma thread_tick_end:
  "thread_tick s = do { t \<leftarrow> thread_current s; s \<leftarrow> (if thread_mlfqs s then mlfqs_tick t s else Some s); end_tick t s }"
  by (simp add: thread_tick_def end_tick_def)

lemma thread_tick_ticked:
  assumes "thread_tick s = Some s'"
  shows "ticked s s'" "\<not> thread_mlfqs s \<Longrightarrow> thread_at s' = thread_at s \<and> ready_list s' = ready_list s"
proof -
  obtain t s1 where t: "(if thread_mlfqs s then mlfqs_tick t s else Some s) = Some s1" "end_tick t s1 = Some s'"
    using assms unfolding thread_tick_end bind_eq_Some_conv by blast
  have "ticked s s1" using t(1) mlfqs_tick_ticked by (cases "thread_mlfqs s") auto
  then show "ticked s s'" using end_tick_ticked(1) [OF t(2)] ticked_trans by blast
  show "thread_at s' = thread_at s \<and> ready_list s' = ready_list s" if "\<not> thread_mlfqs s"
    using t that end_tick_ticked [of t s s'] by simp
qed

lemma thread_tick_returns:
  assumes "\<not> thread_mlfqs s" "thread_current s = Some t" "in_external_intr s"
  shows "\<exists>s'. thread_tick s = Some s'"
  using assms by (simp add: thread_tick_end end_tick_def count_tick_def intr_yield_on_return_def intr_context_def Let_def)

lemma ticked_views:
  assumes "ticked s s'"
  shows "sched_inv r s' = sched_inv r s" "lock_view s' = lock_view s" "sleep_view s' = sleep_view s"
proof -
  show "sched_inv r s' = sched_inv r s" by (rule sched_inv_permute) (use assms in \<open>simp_all add: ticked_def\<close>)
  show "lock_view s' = lock_view s" by (rule lock_view_cong) (use assms in \<open>simp_all add: ticked_def\<close>)
qed (use assms in \<open>simp add: ticked_def sleep_view_def\<close>)

section \<open>Waking the sleepers\<close>

lemma wake_sleepers_inv:
  assumes "sched_inv (Some (current s)) s" "in_external_intr s" "\<not> intr_on s" "sleeping_list s = ts"
  shows "\<exists>s'. wake_sleepers ts s = Some s' \<and> sched_inv (Some (current s)) s' \<and> same_core s s' \<and> \<not> intr_on s' \<and>
    sleeping_list s' = dropWhile (\<lambda>t. wakeup_tick (thread_at s t) \<le> ticks s) ts \<and>
    set (ready_list s') = set (ready_list s) \<union> set (takeWhile (\<lambda>t. wakeup_tick (thread_at s t) \<le> ticks s) ts) \<and>
    (\<forall>t. priority (thread_at s' t) = priority (thread_at s t)) \<and> (by_priority s \<longrightarrow> by_priority s') \<and>
    (yield_on_return s \<longrightarrow> yield_on_return s') \<and>
    (\<not> yield_on_return s' \<longrightarrow> (\<forall>t \<in> set (ready_list s') - set (ready_list s). priority (thread_at s t) \<le> priority (thread_at s (current s))))"
  using assms
proof (induction ts s rule: wake_sleepers.induct)
  case (1 s)
  then show ?case by simp
next
  case (2 t ts s)
  show ?case
  proof (cases "ticks s < wakeup_tick (thread_at s t)")
    case True
    then show ?thesis using "2.prems" by simp
  next
    case False
    let ?c = "current s"
    let ?s1 = "s\<lparr>sleeping_list := ts\<rparr>"
    let ?s = "unblocked t ?s1"
    note inv = "2.prems"(1)
    note Q = queuesD [OF sched_invD(2) [OF inv]] and c = thread_current_inv [OF inv]
    have dt: "distinct (t # ts)" using Q(5) "2.prems"(4) by simp
    then obtain old fs where t: "blocked s t" "frames s t = TimerSleep old # fs" using Q(6) [of t] "2.prems"(4) by auto
    have tc: "t \<noteq> ?c" using blocked_not_running [OF inv t(1)] .
    have ti: "idle_thread s \<noteq> Some t" by (rule not_idle_waiting [OF inv t(1) _ t(2)]) (use tc in auto)
    have ub: "thread_unblock t ?s1 = Some ?s"
      by (rule thread_unblock_eq) (use t(1) c "2.prems" in \<open>simp_all add: blocked_def live_def\<close>)
    have inv1: "sched_inv (Some ?c) ?s"
    proof (rule enter_ready [OF inv t(1) _ ti])
      show "distinct (ready_list ?s)" using Q(1) Q(2) [of t] t(1) by (simp add: insert_by_priority_def blocked_def)
      show "set (waiters (sema_at ?s sm)) = set (waiters (sema_at s sm)) - {t}" for sm using Q(4) [of t sm] t(2) by auto
      show "distinct (waiters (sema_at ?s sm))" for sm using Q(3) [of sm] by simp
      show "set (sleeping_list ?s) = set (sleeping_list s) - {t}" using dt "2.prems"(4) by simp
    qed (use t(2) dt in \<open>simp_all add: insert_by_priority_def\<close>)
    have cur: "thread_current ?s = Some ?c"
      using c tc by (simp add: thread_current_def running_thread_def is_thread_def)
    have y: "(if priority (thread_at ?s ?c) < priority (thread_at ?s t) then intr_yield_on_return ?s else Some ?s) = Some ?s"
    proof -
      have "?s\<lparr>yield_on_return := True\<rparr> = ?s" if "yield_on_return ?s" using that by (cases ?s) simp
      then show ?thesis using "2.prems"(2) by (simp add: intr_yield_on_return_def intr_context_def)
    qed
    have w: "wake_sleepers (t # ts) s = wake_sleepers ts ?s" using False ub cur y by simp
    have "\<exists>s'. wake_sleepers ts ?s = Some s' \<and> sched_inv (Some (current ?s)) s' \<and> same_core ?s s' \<and> \<not> intr_on s' \<and>
      sleeping_list s' = dropWhile (\<lambda>t. wakeup_tick (thread_at ?s t) \<le> ticks ?s) ts \<and>
      set (ready_list s') = set (ready_list ?s) \<union> set (takeWhile (\<lambda>t. wakeup_tick (thread_at ?s t) \<le> ticks ?s) ts) \<and>
      (\<forall>t. priority (thread_at s' t) = priority (thread_at ?s t)) \<and> (by_priority ?s \<longrightarrow> by_priority s') \<and>
      (yield_on_return ?s \<longrightarrow> yield_on_return s') \<and>
      (\<not> yield_on_return s' \<longrightarrow> (\<forall>t \<in> set (ready_list s') - set (ready_list ?s). priority (thread_at ?s t) \<le> priority (thread_at ?s (current ?s))))"
      by (rule "2.IH" [OF False ub cur y]) (use inv1 "2.prems" in simp_all)
    then obtain s' where s': "wake_sleepers ts ?s = Some s'" "sched_inv (Some ?c) s'" "same_core ?s s'" "\<not> intr_on s'"
      "sleeping_list s' = dropWhile (\<lambda>t. wakeup_tick (thread_at s t) \<le> ticks s) ts"
      "set (ready_list s') = insert t (set (ready_list s)) \<union> set (takeWhile (\<lambda>t. wakeup_tick (thread_at s t) \<le> ticks s) ts)"
      "\<forall>t. priority (thread_at s' t) = priority (thread_at s t)" "by_priority ?s \<longrightarrow> by_priority s'"
      "yield_on_return ?s \<longrightarrow> yield_on_return s'"
      "\<not> yield_on_return s' \<longrightarrow> (\<forall>u \<in> set (ready_list s') - insert t (set (ready_list s)). priority (thread_at s u) \<le> priority (thread_at s ?c))"
      by (auto simp: insert_by_priority_def)
    have "same_core s ?s1" by (auto simp: same_core_def intro!: lock_view_cong)
    then have core: "same_core s s'" using s'(3) unblocked_core same_core_trans by blast
    have bp: "by_priority s \<longrightarrow> by_priority s'" using unblocked_by_priority [of ?s1 t] s'(8) by (simp add: by_priority_def)
    have pt: "\<not> yield_on_return s' \<longrightarrow> priority (thread_at s t) \<le> priority (thread_at s ?c)" using s'(9) "2.prems"(2) by auto
    then have py: "\<not> yield_on_return s' \<longrightarrow> (\<forall>u \<in> set (ready_list s') - set (ready_list s). priority (thread_at s u) \<le> priority (thread_at s ?c))"
      using s'(10) by auto
    have sl: "sleeping_list s' = dropWhile (\<lambda>t. wakeup_tick (thread_at s t) \<le> ticks s) (t # ts)"
      "set (ready_list s') = set (ready_list s) \<union> set (takeWhile (\<lambda>t. wakeup_tick (thread_at s t) \<le> ticks s) (t # ts))"
      using s'(5,6) False by auto
    have yy: "yield_on_return s \<longrightarrow> yield_on_return s'" using s'(9) by simp
    show ?thesis unfolding w using s'(1,2,4,7) core bp py sl yy by blast
  qed
qed

section \<open>The interrupt\<close>

text \<open>On a sorted sleeping list the sleepers that are woken are exactly those whose time has come.\<close>

lemma sorted_takeWhile:
  fixes key :: "'a \<Rightarrow> int"
  assumes "sorted (map key xs)"
  shows "set (takeWhile (\<lambda>x. key x \<le> k) xs) = {x \<in> set xs. key x \<le> k}"
    "set (dropWhile (\<lambda>x. key x \<le> k) xs) = {x \<in> set xs. k < key x}"
    "sorted (map key (dropWhile (\<lambda>x. key x \<le> k) xs))"
  using assms by (induction xs) auto

text \<open>
  The state in which the handler has run, before \<open>yield_on_return\<close> is looked at; \<open>due\<close> are the sleepers whose time
  has come.
\<close>

definition due :: "kernel \<Rightarrow> nat set" where
  "due s = {t \<in> set (sleeping_list s). wakeup_tick (thread_at s t) \<le> ticks s + 1}"

lemma timer_interrupt_inv:
  assumes inv: "sched_inv (Some (current s)) s" and e: "in_external_intr s" "\<not> intr_on s" and sl: "sleeps s"
    and t: "ticks s + 1 < 2 ^ 63" and ret: "thread_mlfqs s \<Longrightarrow> timer_interrupt s \<noteq> None"
  shows "\<exists>s'. timer_interrupt s = Some s' \<and> sched_inv (Some (current s')) s' \<and> sleeps s' \<and> ticks s' = ticks s + 1 \<and>
    \<not> intr_on s' \<and> in_external_intr s' \<and> frames s' = frames s \<and> current s' = current s \<and> idle_thread s' = idle_thread s \<and>
    thread_mlfqs s' = thread_mlfqs s \<and> lock_view s' = lock_view s \<and>
    set (sleeping_list s') = set (sleeping_list s) - due s \<and> set (ready_list s') = set (ready_list s) \<union> due s \<and>
    (\<not> yield_on_return s' \<longrightarrow> prio_inv s \<longrightarrow> prio_inv s')"
proof -
  let ?c = "current s"
  have wl: "wrap_long (ticks s + 1) = ticks s + 1" using sl t by (intro wrap_long_id) (auto simp: sleeps_def)
  let ?s0 = "s\<lparr>ticks := ticks s + 1\<rparr>"
  have inv0: "sched_inv (Some ?c) ?s0" using inv by (subst sched_inv_control [of _ s]) (simp_all add: control_def)
  have cur: "thread_current ?s0 = Some ?c" using thread_current_inv [of ?s0] inv0 by simp
  have "\<exists>s1. thread_tick ?s0 = Some s1"
  proof (cases "thread_mlfqs s")
    case True
    from ret [OF this] show ?thesis unfolding timer_interrupt_def wl Let_def by (cases "thread_tick ?s0") simp_all
  next
    case False
    then show ?thesis using thread_tick_returns [of ?s0] cur e by simp
  qed
  then obtain s1 where s1: "thread_tick ?s0 = Some s1" by blast
  note tk = thread_tick_ticked [OF s1] note tv = ticked_views [OF tk(1)]
  have t1: "current s1 = ?c" "frames s1 = frames s" "idle_thread s1 = idle_thread s" "in_external_intr s1" "\<not> intr_on s1"
    "ticks s1 = ticks s + 1" "thread_mlfqs s1 = thread_mlfqs s" "sleeping_list s1 = sleeping_list s" "mset (ready_list s1) = mset (ready_list s)"
    "\<And>t. wakeup_tick (thread_at s1 t) = wakeup_tick (thread_at s t)"
    using tk(1) e by (simp_all add: ticked_def)
  have io: "s1\<lparr>intr_on := False\<rparr> = s1" using t1(5) by (cases s1) simp
  have inv1: "sched_inv (Some (current s1)) s1" using inv0 tv(1) t1(1) by simp
  from wake_sleepers_inv [OF inv1 t1(4,5) refl] obtain s' where
    s': "wake_sleepers (sleeping_list s1) s1 = Some s'" "sched_inv (Some ?c) s'" "same_core s1 s'" "\<not> intr_on s'"
      "sleeping_list s' = dropWhile (\<lambda>t. wakeup_tick (thread_at s t) \<le> ticks s + 1) (sleeping_list s)"
      "set (ready_list s') = set (ready_list s1) \<union> set (takeWhile (\<lambda>t. wakeup_tick (thread_at s t) \<le> ticks s + 1) (sleeping_list s))"
      "\<forall>t. priority (thread_at s' t) = priority (thread_at s1 t)" "by_priority s1 \<longrightarrow> by_priority s'"
      "\<not> yield_on_return s' \<longrightarrow> (\<forall>t \<in> set (ready_list s') - set (ready_list s1). priority (thread_at s1 t) \<le> priority (thread_at s1 ?c))"
    unfolding t1(1,6,8,10) by blast
  have io': "s'\<lparr>intr_on := False\<rparr> = s'" using s'(4) by (cases s') simp
  have ti: "timer_interrupt s = Some s'"
    using s1 s'(1,4) t1(5) by (simp add: timer_interrupt_def wl io io' intr_disable_def intr_get_level_def intr_set_level_def)
  note co = s'(3) [unfolded same_core_def]
  have srt: "sorted (map (\<lambda>t. wakeup_tick (thread_at s t)) (sleeping_list s))" using sl by (simp add: sleeps_def)
  note tw = sorted_takeWhile [OF srt, of "ticks s + 1"]
  have wk: "wakeup_tick (thread_at s' t) = wakeup_tick (thread_at s t)" for t using co t1(10) by simp
  have "sleeps s'" unfolding sleeps_def wk s'(5) using tw(2,3) co t1(6) sl by (simp add: sleeps_def)
  moreover have "set (sleeping_list s') = set (sleeping_list s) - due s" unfolding s'(5) tw(2) due_def by auto
  moreover have r1: "set (ready_list s1) = set (ready_list s)" using t1(9) by (metis set_mset_mset)
  then have "set (ready_list s') = set (ready_list s) \<union> due s" unfolding s'(6) tw(1) due_def by simp
  moreover have "prio_inv s'" if y: "\<not> yield_on_return s'" and p: "prio_inv s"
  proof (cases "thread_mlfqs s")
    case True
    then show ?thesis using co t1(7) by (simp add: prio_inv_def)
  next
    case False
    then have eq: "thread_at s1 = thread_at s" "ready_list s1 = ready_list s" using tk(2) by simp_all
    then have "by_priority s'" using s'(8) p False by (simp add: prio_inv_def by_priority_def)
    moreover have "priority (thread_at s' t) \<le> priority (thread_at s' (current s'))" if "t \<in> set (ready_list s')" for t
    proof (cases "t \<in> set (ready_list s)")
      case True
      then show ?thesis using p False s'(7) eq co t1(1) by (simp add: prio_inv_def)
    next
      case F: False
      then show ?thesis using that s'(7,9) y eq co t1(1) by simp
    qed
    ultimately show ?thesis by (simp add: prio_inv_def)
  qed
  moreover have "lock_view s' = lock_view s"
  proof -
    have "lock_view s' = lock_view s1" using co by simp
    also have "\<dots> = lock_view ?s0" by (rule tv(2))
    also have "\<dots> = lock_view s" by (rule lock_view_cong) simp_all
    finally show ?thesis .
  qed
  ultimately show ?thesis using ti s'(2,4) co t1 by simp
qed

lemma external_interrupt_inv:
  assumes k: "kernel_inv s" and on: "intr_on s" and sl: "sleeps s" and pr: "prio_inv s" and t: "ticks s + 1 < 2 ^ 63"
    and ret: "thread_mlfqs s \<Longrightarrow> external_interrupt timer_interrupt s \<noteq> None"
  shows "\<exists>s'. external_interrupt timer_interrupt s = Some s' \<and> kernel_inv s' \<and> prio_inv s' \<and> sleeps s' \<and>
    thread_mlfqs s' = thread_mlfqs s \<and> lock_view s' = lock_view s \<and> ticks s' = ticks s + 1 \<and>
    set (sleeping_list s') = set (sleeping_list s) - due s"
proof -
  let ?c = "current s"
  note K = kernel_invD [OF k]
  let ?s0 = "push IntrReturn (s\<lparr>intr_on := False\<rparr>)"
  let ?s1 = "?s0\<lparr>in_external_intr := True, yield_on_return := False\<rparr>"
  have "sched_inv (Some ?c) (s\<lparr>intr_on := False\<rparr>)" using K(1) by (subst sched_inv_control [of _ s]) (simp_all add: control_def)
  then have "sched_inv (Some ?c) ?s0" using sched_inv_push [of "s\<lparr>intr_on := False\<rparr>" IntrReturn] by simp
  then have inv: "sched_inv (Some (current ?s1)) ?s1" by (subst sched_inv_control [of _ ?s0]) (simp_all add: control_def)
  have sl1: "sleeps ?s1" using sl by (simp add: sleeps_def)
  have ret1: "timer_interrupt ?s1 \<noteq> None" if "thread_mlfqs ?s1"
    using ret that K(2)
    by (cases "timer_interrupt ?s1") (simp_all add: external_interrupt_def intr_handler_def intr_get_level_def intr_context_def)
  have lv1: "lock_view ?s1 = lock_view s"
  proof -
    have "lock_view ?s1 = lock_view ?s0" by (rule lock_view_cong) simp_all
    also have "\<dots> = lock_view (s\<lparr>intr_on := False\<rparr>)" by (rule lock_view_push) simp
    also have "\<dots> = lock_view s" by (rule lock_view_cong) simp_all
    finally show ?thesis .
  qed
  have pr1: "prio_inv ?s1" using pr by (subst prio_inv_cong [of _ s]) simp_all
  have due1: "due ?s1 = due s" by (simp add: due_def)
  obtain s2 where s2: "timer_interrupt ?s1 = Some s2" "sched_inv (Some (current s2)) s2" "sleeps s2" "ticks s2 = ticks s + 1"
    "\<not> intr_on s2" "in_external_intr s2" "frames s2 = frames ?s0" "current s2 = ?c" "idle_thread s2 = idle_thread s"
    "thread_mlfqs s2 = thread_mlfqs s" "lock_view s2 = lock_view s" "set (sleeping_list s2) = set (sleeping_list s) - due s"
    "\<not> yield_on_return s2 \<longrightarrow> prio_inv s2"
    using timer_interrupt_inv [OF inv _ _ sl1 _ ret1] t pr1 lv1 due1 by auto
  let ?s3 = "s2\<lparr>in_external_intr := False\<rparr>"
  have e: "external_interrupt timer_interrupt s = (if yield_on_return s2 then thread_yield ?s3 else Some ?s3)"
    using s2 K(2) by (simp add: external_interrupt_def intr_handler_def intr_get_level_def intr_context_def)
  have "sched_inv (Some (current ?s3)) ?s3" using s2(2) by (subst sched_inv_control [of _ s2]) (simp_all add: control_def)
  then have k3: "kernel_inv ?s3" using s2 K(3) [OF on] by (simp add: kernel_inv_def stack_ok_def)
  have lv3: "lock_view ?s3 = lock_view s" using s2(11) lock_view_cong [of ?s3 s2] by simp
  have sv3: "sleep_view ?s3 = sleep_view s2" by (simp add: sleep_view_def)
  show ?thesis
  proof (cases "yield_on_return s2")
    case True
    obtain s' where s': "thread_yield ?s3 = Some s'" "resched ?s3 s'" using thread_yield_inv [OF k3] by blast
    have sv: "sleep_view s' = sleep_view s2" using s'(2) sv3 by (simp add: resched_def)
    then have "sleeps s'" "ticks s' = ticks s + 1" "sleeping_list s' = sleeping_list s2"
      using sleeps_view [OF sv] s2(3,4) by (simp_all add: sleep_view_def)
    then show ?thesis using True e s' lv3 s2 by (simp add: resched_def)
  next
    case False
    have "prio_inv ?s3" using s2(13) False by (subst prio_inv_cong [of _ s2]) simp_all
    moreover have "sleeps ?s3" using sleeps_view [OF sv3] s2(3) by simp
    ultimately show ?thesis using False e k3 lv3 s2 by simp
  qed
qed

end
