(* ===== verification/Kernel_Safety.thy ===== *)
theory Kernel_Safety
  imports Kernel_Timer
begin

text \<open>
  The invariant of the locks, and the theorems on the whole transition system: every transition keeps the invariant,
  no transition of the kernel itself panics, and what follows for every state that can be reached: no thread is lost, locks
  exclude each other, no ready thread has a higher priority than the running one, and no sleeper oversleeps.
\<close>

section \<open>Locks\<close>

text \<open>
  A thread claims a lock while it has taken its semaphore and is not yet the holder, or is no longer the holder and
  has not yet raised the semaphore.
\<close>

definition claims :: "nat \<Rightarrow> frame list \<Rightarrow> bool" where
  "claims l fs \<longleftrightarrow> (\<exists>old. LockAcquire l old \<in> set fs) \<and> (\<forall>old. SemaDown (LockSema l) old \<notin> set fs) \<or> LockReleaseUp l \<in> set fs"

text \<open>
  \<open>g\<close> are the lock frames of the threads, \<open>v\<close> the values of the locks' semaphores, \<open>h\<close> the holders.  A lock is
  free, or one thread claims it, or it has a holder.
\<close>

definition lock_ok :: "(nat \<Rightarrow> frame list) \<Rightarrow> (nat \<Rightarrow> nat) \<Rightarrow> (nat \<Rightarrow> nat option) \<Rightarrow> bool" where
  "lock_ok g v h \<longleftrightarrow> (\<forall>l.
     v l = 1 \<and> h l = None \<and> (\<forall>t. \<not> claims l (g t)) \<or>
     v l = 0 \<and> h l = None \<and> (\<exists>t. \<forall>u. claims l (g u) \<longleftrightarrow> u = t) \<or>
     v l = 0 \<and> h l \<noteq> None \<and> (\<forall>t. \<not> claims l (g t)))"

text \<open>What a thread inside a kernel function knows about the holder of the lock it uses.\<close>

definition knows :: "nat \<Rightarrow> frame list \<Rightarrow> (nat \<Rightarrow> nat option) \<Rightarrow> bool" where
  "knows c fs h \<longleftrightarrow> (\<forall>l. CondWaitAcquire l \<in> set fs \<longrightarrow> h l \<noteq> Some c) \<and> (\<forall>k l. CondBroadcast k l \<in> set fs \<longrightarrow> h l = Some c) \<and>
     (\<forall>t. AllocateTid t \<in> set fs \<and> (\<forall>old. LockAcquire tid_lock old \<notin> set fs) \<longrightarrow> h tid_lock = Some c)"

definition lock_inv :: "kernel \<Rightarrow> bool" where
  "lock_inv s \<longleftrightarrow> (case lock_view s of (g, v, h) \<Rightarrow> lock_ok g v h \<and> (\<forall>c. knows c (g c) h))"

lemma lock_okD:
  assumes "lock_ok g v h"
  shows "h l = Some c \<Longrightarrow> v l = 0" "v l \<noteq> 0 \<Longrightarrow> v l = 1 \<and> h l = None \<and> \<not> claims l (g t)"
    "claims l (g c) \<Longrightarrow> v l = 0 \<and> h l = None \<and> (claims l (g t) \<longrightarrow> t = c)" "h l = Some c \<Longrightarrow> \<not> claims l (g t)"
  using assms unfolding lock_ok_def by (metis option.distinct(1) zero_neq_one)+

lemma lock_ok_frames:
  assumes "lock_ok g v h" "\<And>l. claims l fs = claims l (g c)"
  shows "lock_ok (g(c := fs)) v h"
proof -
  have "claims l ((g(c := fs)) t) = claims l (g t)" for l t using assms(2) by simp
  then show ?thesis using assms(1) unfolding lock_ok_def by presburger
qed

lemma lock_ok_take:
  assumes ok: "lock_ok g v h" and v: "v l \<noteq> 0" and old: "\<And>k. \<not> claims k (g c)" and new: "\<And>k. claims k fs \<longleftrightarrow> k = l"
  shows "lock_ok (g(c := fs)) (v(l := v l - 1)) h"
  unfolding lock_ok_def
proof
  fix k
  show "(v(l := v l - 1)) k = 1 \<and> h k = None \<and> (\<forall>t. \<not> claims k ((g(c := fs)) t)) \<or>
     (v(l := v l - 1)) k = 0 \<and> h k = None \<and> (\<exists>t. \<forall>u. claims k ((g(c := fs)) u) \<longleftrightarrow> u = t) \<or>
     (v(l := v l - 1)) k = 0 \<and> h k \<noteq> None \<and> (\<forall>t. \<not> claims k ((g(c := fs)) t))"
  proof (cases "k = l")
    case True
    have "\<forall>u. claims l ((g(c := fs)) u) \<longleftrightarrow> u = c" using lock_okD(2) [OF ok v] new by auto
    then show ?thesis using True lock_okD(2) [OF ok v] by auto
  next
    case False
    have "claims k ((g(c := fs)) u) = claims k (g u)" for u using old new False by simp
    then show ?thesis using ok False unfolding lock_ok_def by simp
  qed
qed

lemma lock_ok_hold:
  assumes ok: "lock_ok g v h" and old: "\<And>k. claims k (g c) \<longleftrightarrow> k = l" and new: "\<And>k. \<not> claims k fs"
  shows "lock_ok (g(c := fs)) v (h(l := Some c))"
  unfolding lock_ok_def
proof
  fix k
  have cl: "v l = 0" "claims l (g t) \<Longrightarrow> t = c" for t using lock_okD(3) [OF ok, of l c t] old by simp_all
  show "v k = 1 \<and> (h(l := Some c)) k = None \<and> (\<forall>t. \<not> claims k ((g(c := fs)) t)) \<or>
     v k = 0 \<and> (h(l := Some c)) k = None \<and> (\<exists>t. \<forall>u. claims k ((g(c := fs)) u) \<longleftrightarrow> u = t) \<or>
     v k = 0 \<and> (h(l := Some c)) k \<noteq> None \<and> (\<forall>t. \<not> claims k ((g(c := fs)) t))"
  proof (cases "k = l")
    case True
    then show ?thesis using cl new by auto
  next
    case False
    have "claims k ((g(c := fs)) u) = claims k (g u)" for u using old new False by simp
    then show ?thesis using ok False unfolding lock_ok_def by simp
  qed
qed

lemma lock_ok_release:
  assumes ok: "lock_ok g v h" and h: "h l = Some c" and old: "\<And>k. \<not> claims k (g c)" and new: "\<And>k. claims k fs \<longleftrightarrow> k = l"
  shows "lock_ok (g(c := fs)) v (h(l := None))"
  unfolding lock_ok_def
proof
  fix k
  show "v k = 1 \<and> (h(l := None)) k = None \<and> (\<forall>t. \<not> claims k ((g(c := fs)) t)) \<or>
     v k = 0 \<and> (h(l := None)) k = None \<and> (\<exists>t. \<forall>u. claims k ((g(c := fs)) u) \<longleftrightarrow> u = t) \<or>
     v k = 0 \<and> (h(l := None)) k \<noteq> None \<and> (\<forall>t. \<not> claims k ((g(c := fs)) t))"
  proof (cases "k = l")
    case True
    have "\<forall>u. claims l ((g(c := fs)) u) \<longleftrightarrow> u = c" using lock_okD(4) [OF ok h] new by auto
    then show ?thesis using True lock_okD(1) [OF ok h] by auto
  next
    case False
    have "claims k ((g(c := fs)) u) = claims k (g u)" for u using old new False by simp
    then show ?thesis using ok False unfolding lock_ok_def by simp
  qed
qed

lemma lock_ok_raise:
  assumes ok: "lock_ok g v h" and old: "\<And>k. claims k (g c) \<longleftrightarrow> k = l" and new: "\<And>k. \<not> claims k fs"
  shows "lock_ok (g(c := fs)) (v(l := (v l + 1) mod 2 ^ 32)) h"
  unfolding lock_ok_def
proof
  fix k
  have cl: "v l = 0" "h l = None" "claims l (g t) \<Longrightarrow> t = c" for t using lock_okD(3) [OF ok, of l c t] old by simp_all
  show "(v(l := (v l + 1) mod 2 ^ 32)) k = 1 \<and> h k = None \<and> (\<forall>t. \<not> claims k ((g(c := fs)) t)) \<or>
     (v(l := (v l + 1) mod 2 ^ 32)) k = 0 \<and> h k = None \<and> (\<exists>t. \<forall>u. claims k ((g(c := fs)) u) \<longleftrightarrow> u = t) \<or>
     (v(l := (v l + 1) mod 2 ^ 32)) k = 0 \<and> h k \<noteq> None \<and> (\<forall>t. \<not> claims k ((g(c := fs)) t))"
  proof (cases "k = l")
    case True
    have "\<forall>u. \<not> claims l ((g(c := fs)) u)" using cl(3) new by auto
    then show ?thesis using True cl by simp
  next
    case False
    have "claims k ((g(c := fs)) u) = claims k (g u)" for u using old new False by simp
    then show ?thesis using ok False unfolding lock_ok_def by simp
  qed
qed

lemma lock_ok_try:
  assumes ok: "lock_ok g v h" and v: "v l \<noteq> 0"
  shows "lock_ok g (v(l := v l - 1)) (h(l := Some c))"
  unfolding lock_ok_def
proof
  fix k
  show "(v(l := v l - 1)) k = 1 \<and> (h(l := Some c)) k = None \<and> (\<forall>t. \<not> claims k (g t)) \<or>
     (v(l := v l - 1)) k = 0 \<and> (h(l := Some c)) k = None \<and> (\<exists>t. \<forall>u. claims k (g u) \<longleftrightarrow> u = t) \<or>
     (v(l := v l - 1)) k = 0 \<and> (h(l := Some c)) k \<noteq> None \<and> (\<forall>t. \<not> claims k (g t))"
    using lock_okD(2) [OF ok v] ok unfolding lock_ok_def by (cases "k = l") auto
qed

text \<open>What the other threads know stays true when \<open>c\<close> takes or leaves a lock.\<close>

lemma knows_other:
  assumes "knows d fs h" "d \<noteq> c" "h l = None \<or> h l = Some c" "x = None \<or> x = Some c"
  shows "knows d fs (h(l := x))"
  using assms unfolding knows_def by (auto split: if_splits)

lemma knows_update:
  assumes "\<And>d. d \<noteq> c \<Longrightarrow> knows d (g d) h'" "knows c fs h'"
  shows "knows d ((g(c := fs)) d) h'"
  using assms by (cases "d = c") auto

abbreviation lock_values :: "kernel \<Rightarrow> nat \<Rightarrow> nat" where
  "lock_values s \<equiv> \<lambda>l. sema_value (sema_at s (LockSema l))"

abbreviation holders :: "kernel \<Rightarrow> nat \<Rightarrow> nat option" where
  "holders s \<equiv> \<lambda>l. holder (lock_at s l)"

lemma lock_inv_view: "lock_inv s \<longleftrightarrow> lock_ok (lock_frames s) (lock_values s) (holders s) \<and> (\<forall>c. knows c (lock_frames s c) (holders s))"
  by (simp add: lock_inv_def lock_view_def)

lemma lock_inv_cong: "lock_view s' = lock_view s \<Longrightarrow> lock_inv s' = lock_inv s"
  by (simp add: lock_inv_def)

lemma lock_inv_change:
  assumes "lock_view s' = (g, v, h)" "lock_ok g v h" "\<And>c. knows c (g c) h"
  shows "lock_inv s'"
  using assms by (simp add: lock_inv_def)

lemma lock_frames_push:
  assumes "live s (current s)" "lock_frame f"
  shows "lock_frames (push f s) = (lock_frames s)(current s := f # lock_frames s (current s))"
  using assms by (auto simp: lock_frames_def live_def push_def fun_eq_iff)

lemma lock_frames_current: "live s (current s) \<Longrightarrow> lock_frames s (current s) = filter lock_frame (frames s (current s))"
  by (simp add: lock_frames_def)

lemma pop_simps [simp]:
  "current (pop s) = current s" "thread_at (pop s) = thread_at s" "sema_at (pop s) = sema_at s"
  "lock_at (pop s) = lock_at s" "ready_list (pop s) = ready_list s" "sleeping_list (pop s) = sleeping_list s"
  "idle_thread (pop s) = idle_thread s" "intr_on (pop s) = intr_on s" "in_external_intr (pop s) = in_external_intr s"
  "ticks (pop s) = ticks s" "thread_mlfqs (pop s) = thread_mlfqs s" "cond_at (pop s) = cond_at s"
  "frames (pop s) = (frames s)(current s := tl (frames s (current s)))"
  by (simp_all add: pop_def)

lemma sleep_view_pop [simp]: "sleep_view (pop s) = sleep_view s"
  by (simp add: sleep_view_def)

lemma prio_inv_pop [simp]: "prio_inv (pop s) = prio_inv s"
  by (rule prio_inv_cong) simp_all

lemma lock_frames_pop:
  assumes "frames s (current s) = f # fs"
  shows "lock_frames (pop s) = (if live s (current s) then (lock_frames s)(current s := filter lock_frame fs) else lock_frames s)"
  using assms by (auto simp: lock_frames_def live_def pop_def fun_eq_iff)

lemma lock_view_pop:
  assumes "frames s (current s) = f # fs" "\<not> lock_frame f"
  shows "lock_view (pop s) = lock_view s"
  using assms by (auto simp: lock_view_def lock_frames_def live_def pop_def fun_eq_iff)

lemma sched_inv_pop:
  assumes "sched_inv (Some (current s)) s" "frames s (current s) = f # fs" "\<And>t x. f \<noteq> ThreadCreate t x"
  shows "sched_inv (Some (current (pop s))) (pop s)"
  unfolding pop_def using sched_inv_frames [OF assms(1), of fs] assms(2,3) by simp

section \<open>One transition\<close>

definition full_inv :: "kernel \<Rightarrow> bool" where
  "full_inv s \<longleftrightarrow> kernel_inv s \<and> prio_inv s \<and> sleeps s \<and> lock_inv s"

lemma full_resched:
  assumes "full_inv s" "lock_view s1 = lock_view s" "sleep_view s1 = sleep_view s" "resched s1 s'"
  shows "full_inv s'"
  using assms sleeps_view [of s' s] lock_inv_cong [of s' s] by (simp add: full_inv_def resched_def)

text \<open>The frames that only restore the interrupt level, and similar ones.\<close>

lemma level_frame:
  assumes "full_inv s" "frames s (current s) = f # fs" "\<not> lock_frame f" "\<And>t x. f \<noteq> ThreadCreate t x"
    "stack_ok level (idle_thread s) (current s) fs"
  shows "full_inv ((pop s)\<lparr>intr_on := level\<rparr>)"
proof -
  let ?s = "(pop s)\<lparr>intr_on := level\<rparr>"
  have k: "kernel_inv s" "prio_inv s" "sleeps s" "lock_inv s" using assms(1) by (simp_all add: full_inv_def)
  have "sched_inv (Some (current s)) ?s"
    using sched_inv_pop [OF kernel_invD(1) [OF k(1)] assms(2,4)] by (subst sched_inv_control [of _ "pop s"]) (simp_all add: control_def)
  then have "kernel_inv ?s" using assms(2,5) kernel_invD(2) [OF k(1)] by (simp add: kernel_inv_def)
  moreover have "prio_inv ?s" using k(2) by (subst prio_inv_cong [of _ s]) simp_all
  moreover have "sleeps ?s" using k(3) sleeps_view [of ?s s] by (simp add: sleep_view_def)
  moreover have "lock_view ?s = lock_view s"
    using lock_view_pop [OF assms(2,3)] lock_view_cong [of ?s "pop s"] by simp
  then have "lock_inv ?s" using k(4) lock_inv_cong [of ?s s] by simp
  ultimately show ?thesis by (simp add: full_inv_def)
qed

lemma intr_set_level_eq: "\<not> in_external_intr s \<Longrightarrow> intr_set_level level s = Some (s\<lparr>intr_on := level\<rparr>)"
  by (cases level) (simp_all add: intr_set_level_def intr_enable_def intr_disable_def intr_context_def)

text \<open>The frames of \<open>lock_acquire\<close>.\<close>

lemma acquire_ret_frames:
  assumes "acquire_ret l fs"
  shows "\<not> claims k (filter lock_frame fs)" "claims k (LockAcquire l True # filter lock_frame fs) \<longleftrightarrow> k = l"
    "\<not> claims k (SemaDown (LockSema l) False # LockAcquire l True # filter lock_frame fs)"
    "knows c (LockAcquire l True # filter lock_frame fs) h"
    "knows c (SemaDown (LockSema l) False # LockAcquire l True # filter lock_frame fs) h"
    "h l = Some c \<Longrightarrow> knows c (filter lock_frame fs) h"
  using assms by (auto simp: acquire_ret_def claims_def knows_def)

lemma run_SemaDown:
  assumes F: "full_inv s" and off: "\<not> intr_on s" and fr: "frames s (current s) = SemaDown sm old # fs"
  shows "\<exists>s'. resume s = Some s' \<and> full_inv s'"
proof -
  let ?c = "current s"
  have k: "kernel_inv s" "prio_inv s" "sleeps s" "lock_inv s" using F by (simp_all add: full_inv_def)
  note K = kernel_invD [OF k(1)] and lc = thread_current_inv(2) [OF kernel_invD(1) [OF k(1)]]
  have os: "off_stack (idle_thread s) ?c (SemaDown sm old # fs)" using K(4) [OF off] fr by simp
  have inv: "sched_inv (Some (current (pop s))) (pop s)" by (rule sched_inv_pop [OF K(1) fr]) simp
  have r: "resume s = sema_down_loop sm old (pop s)" using fr by (simp add: resume_def)
  show ?thesis
  proof (cases "sema_value (sema_at s sm) = 0")
    case True
    then obtain s' where s': "sema_down_loop sm old (pop s) = Some s'" "resched (push (SemaDown sm old) (pop s)) s'"
      using sema_down_loop_inv(1) [OF inv, of sm old] K(2) off os fr by auto
    have "push (SemaDown sm old) (pop s) = s" using fr by (cases s) (simp add: push_def pop_def fun_upd_idem)
    then show ?thesis using s' full_resched [OF F refl refl] r by auto
  next
    case False
    let ?s' = "sema_taken sm old (pop s)"
    have s': "sema_down_loop sm old (pop s) = Some ?s'" "kernel_inv ?s'"
      using sema_down_loop_inv(2) [OF inv, of sm old] K(2) off os fr False by auto
    have pr: "prio_inv ?s'" using k(2) by (subst prio_inv_cong [of _ s]) (simp_all add: sema_taken_def)
    have sl: "sleeps ?s'" using k(3) sleeps_view [of ?s' s] by (simp add: sleep_view_def sema_taken_def)
    have "lock_inv ?s'"
    proof (cases "\<exists>l. sm = LockSema l")
      case n: False
      then have "\<not> lock_frame (SemaDown sm old)" by (cases sm) auto
      from lock_view_pop [OF fr this] have "lock_view (pop s) = lock_view s" .
      moreover have "lock_view ?s' = lock_view (pop s)"
        by (rule lock_view_cong) (use n in \<open>auto simp: sema_taken_def modify_sema_def\<close>)
      ultimately show ?thesis using k(4) lock_inv_cong [of ?s' s] by simp
    next
      case t: True
      then obtain l gs where l: "sm = LockSema l" "\<not> old" "fs = LockAcquire l True # gs" "acquire_ret l gs" using os by auto
      have gc: "lock_frames s ?c = SemaDown (LockSema l) False # LockAcquire l True # filter lock_frame gs"
        using lock_frames_current [OF lc] fr l by simp
      let ?g = "(lock_frames s)(?c := LockAcquire l True # filter lock_frame gs)"
      let ?v = "(lock_values s)(l := lock_values s l - 1)"
      have "lock_view ?s' = (?g, ?v, holders s)"
        using lock_frames_pop [OF fr] lc l(1,3) by (auto simp: lock_view_def sema_taken_def) (auto simp: modify_sema_def fun_eq_iff)
      moreover have "lock_ok ?g ?v (holders s)"
        by (rule lock_ok_take)
           (use k(4) False l acquire_ret_frames [OF l(4)] gc in \<open>simp_all add: lock_inv_view\<close>)
      moreover have "knows c (?g c) (holders s)" for c
        by (rule knows_update) (use k(4) acquire_ret_frames [OF l(4)] in \<open>simp_all add: lock_inv_view\<close>)
      ultimately show ?thesis by (rule lock_inv_change)
    qed
    then show ?thesis using r s' pr sl by (simp add: full_inv_def)
  qed
qed

text \<open>\<open>lock_acquire\<close>, whoever calls it.\<close>

lemma acquire_full:
  assumes k: "kernel_inv s" "prio_inv s" "sleeps s" and on: "intr_on s"
    and i: "idle_thread s \<noteq> Some (current s)" and ar: "acquire_ret l (frames s (current s))" and h: "holder (lock_at s l) \<noteq> Some (current s)"
    and ok: "lock_ok (lock_frames s) (lock_values s) (holders s)" and kn: "\<And>d. d \<noteq> current s \<Longrightarrow> knows d (lock_frames s d) (holders s)"
  shows "\<exists>s'. lock_acquire l s = Some s' \<and> full_inv s'"
proof -
  let ?c = "current s"
  have lc: "live s ?c" using thread_current_inv(2) [OF kernel_invD(1) [OF k(1)]] .
  obtain s' where s': "lock_acquire l s = Some s'" "kernel_inv s'" "sleep_view s' = sleep_view s"
    "lock_view s' = (if sema_value (sema_at s (LockSema l)) = 0 then lock_view (push (SemaDown (LockSema l) False) (acquiring l s))
      else lock_view (sema_taken (LockSema l) False (acquiring l s)))"
    "sema_value (sema_at s (LockSema l)) = 0 \<or> holder (lock_at s l) = None \<and> prio_inv s \<longrightarrow> prio_inv s'"
    using lock_acquire_inv [OF k(1) on h i ar] by blast
  have gc: "lock_frames s ?c = filter lock_frame (frames s ?c)" by (rule lock_frames_current [OF lc])
  note A = acquire_ret_frames [OF ar]
  have la: "lock_frames (acquiring l s) = (lock_frames s)(?c := LockAcquire l True # lock_frames s ?c)"
    using lock_frames_push [OF lc, of "LockAcquire l True"] by (simp add: acquiring_def)
  have lca: "live (acquiring l s) (current (acquiring l s))" using lc by (simp add: acquiring_def live_def)
  have "lock_inv s' \<and> prio_inv s'"
  proof (cases "sema_value (sema_at s (LockSema l)) = 0")
    case True
    let ?g = "(lock_frames s)(?c := SemaDown (LockSema l) False # LockAcquire l True # filter lock_frame (frames s ?c))"
    have "lock_view s' = (?g, lock_values s, holders s)"
      using s'(4) True lock_frames_push [OF lca, of "SemaDown (LockSema l) False"] la gc
      by (simp add: lock_view_def) (simp add: acquiring_def)
    moreover have "lock_ok ?g (lock_values s) (holders s)" by (rule lock_ok_frames [OF ok]) (use A gc in simp)
    moreover have "knows d (?g d) (holders s)" for d by (rule knows_update) (use kn A in auto)
    ultimately have "lock_inv s'" by (rule lock_inv_change)
    then show ?thesis using True s'(5) by simp
  next
    case False
    let ?g = "(lock_frames s)(?c := LockAcquire l True # filter lock_frame (frames s ?c))"
    let ?v = "(lock_values s)(l := lock_values s l - 1)"
    have "lock_view s' = (?g, ?v, holders s)"
      using s'(4) False la gc by (simp add: lock_view_def sema_taken_def) (auto simp: acquiring_def modify_sema_def fun_eq_iff)
    moreover have "lock_ok ?g ?v (holders s)" by (rule lock_ok_take [OF ok False]) (use A gc in simp_all)
    moreover have "knows d (?g d) (holders s)" for d by (rule knows_update) (use kn A in auto)
    ultimately have "lock_inv s'" by (rule lock_inv_change)
    moreover have "holder (lock_at s l) = None" using lock_okD(2) [OF ok False] by simp
    ultimately show ?thesis using s'(5) k(2) by simp
  qed
  then show ?thesis using s' k(3) sleeps_view [OF s'(3)] by (auto simp: full_inv_def)
qed

lemma run_LockAcquire:
  assumes F: "full_inv s" and off: "\<not> intr_on s" and fr: "frames s (current s) = LockAcquire l old # fs"
  shows "\<exists>s'. resume s = Some s' \<and> full_inv s'"
proof -
  let ?c = "current s"
  have k: "kernel_inv s" "prio_inv s" "sleeps s" "lock_inv s" using F by (simp_all add: full_inv_def)
  note K = kernel_invD [OF k(1)] and lc = thread_current_inv(2) [OF kernel_invD(1) [OF k(1)]]
  have os: "idle_thread s \<noteq> Some ?c" "old" "acquire_ret l fs" using K(4) [OF off] fr by auto
  note A = acquire_ret_frames [OF os(3)]
  have inv: "sched_inv (Some (current (pop s))) (pop s)" by (rule sched_inv_pop [OF K(1) fr]) simp
  obtain s' where s': "lock_acquire_tail l True (pop s) = Some s'" "kernel_inv s'" "sleep_view s' = sleep_view (pop s)"
    "lock_view s' = lock_view (modify_lock l (holder_update (\<lambda>_. Some ?c)) (pop s))" "prio_inv s' = prio_inv (pop s)"
    using lock_acquire_tail_inv [OF inv, of l] K(2) os fr by auto
  have gc: "lock_frames s ?c = LockAcquire l True # filter lock_frame fs" using lock_frames_current [OF lc] fr os(2) by simp
  let ?g = "(lock_frames s)(?c := filter lock_frame fs)" and ?h = "(holders s)(l := Some ?c)"
  have ok: "lock_ok (lock_frames s) (lock_values s) (holders s)" and kn: "\<And>d. knows d (lock_frames s d) (holders s)"
    using k(4) by (simp_all add: lock_inv_view)
  have hn: "holders s l = None" using lock_okD(3) [OF ok, of l ?c] gc A(2) by simp
  have "lock_view s' = (?g, lock_values s, ?h)"
    using s'(4) lock_frames_pop [OF fr] lc by (simp add: lock_view_def) (auto simp: modify_lock_def fun_eq_iff)
  moreover have "lock_ok ?g (lock_values s) ?h" by (rule lock_ok_hold [OF ok]) (use A gc in simp_all)
  moreover have "knows d (?g d) ?h" for d
  proof (rule knows_update)
    show "knows d (lock_frames s d) ?h" if "d \<noteq> ?c" for d by (rule knows_other [OF kn that]) (use hn in auto)
    show "knows ?c (filter lock_frame fs) ?h" by (rule A(6)) simp
  qed
  ultimately have "lock_inv s'" by (rule lock_inv_change)
  moreover have "resume s = Some s'" using fr s'(1) os(2) by (simp add: resume_def)
  ultimately show ?thesis using s' k sleeps_view [of s' s] by (auto simp: full_inv_def)
qed

lemma run_LockReleaseUp:
  assumes F: "full_inv s" and on: "intr_on s" and fr: "frames s (current s) = LockReleaseUp l # fs"
  shows "\<exists>s'. resume s = Some s' \<and> full_inv s'"
proof -
  let ?c = "current s"
  have k: "kernel_inv s" "prio_inv s" "sleeps s" "lock_inv s" using F by (simp_all add: full_inv_def)
  note K = kernel_invD [OF k(1)] and lc = thread_current_inv(2) [OF kernel_invD(1) [OF k(1)]]
  obtain hs where os: "idle_thread s \<noteq> Some ?c" "fs = LockReleasePriority # hs" "release_ret hs"
    using K(3) [OF on] fr by (auto simp: on_stack_def)
  have nc: "\<not> claims j (filter lock_frame fs)" "claims j (LockReleaseUp l # filter lock_frame fs) \<longleftrightarrow> j = l"
    "filter lock_frame fs = filter lock_frame hs" for j
    using os(2,3) by (auto simp: release_ret_def claims_def)
  have "sched_inv (Some (current (pop s))) (pop s)" by (rule sched_inv_pop [OF K(1) fr]) simp
  then have "kernel_inv (pop s)" using K(2) on os fr by (simp add: kernel_inv_def stack_ok_def on_stack_def)
  then obtain s' where s': "sema_up (LockSema l) (pop s) = Some s'" "resched (sema_raised (LockSema l) (pop s)) s'"
    using sema_up_inv [of "pop s" "LockSema l"] on by auto
  have gc: "lock_frames s ?c = LockReleaseUp l # filter lock_frame fs" using lock_frames_current [OF lc] fr by simp
  let ?g = "(lock_frames s)(?c := filter lock_frame fs)" and ?v = "(lock_values s)(l := (lock_values s l + 1) mod 2 ^ 32)"
  have ok: "lock_ok (lock_frames s) (lock_values s) (holders s)" and kn: "\<And>d. knows d (lock_frames s d) (holders s)"
    using k(4) by (simp_all add: lock_inv_view)
  have "lock_view (sema_raised (LockSema l) (pop s)) = (?g, ?v, holders s)"
    using lock_frames_pop [OF fr] lc by (simp add: lock_view_def sema_raised_def) (auto simp: modify_sema_def fun_eq_iff)
  then have "lock_view s' = (?g, ?v, holders s)" using s'(2) by (simp add: resched_def)
  moreover have "lock_ok ?g ?v (holders s)" by (rule lock_ok_raise [OF ok]) (use nc gc in simp_all)
  moreover have "knows d (?g d) (holders s)" for d
  proof (rule knows_update)
    show "knows ?c (filter lock_frame fs) (holders s)" using kn [of ?c] unfolding gc knows_def by auto
  qed (use kn in simp)
  ultimately have "lock_inv s'" by (rule lock_inv_change)
  moreover have "sleep_view s' = sleep_view s" using s'(2) by (simp add: resched_def sema_raised_def sleep_view_def)
  moreover have "resume s = Some s'" using fr s'(1) by (simp add: resume_def)
  ultimately show ?thesis using s' k sleeps_view [of s' s] by (auto simp: full_inv_def resched_def)
qed

text \<open>\<open>lock_release\<close>, whoever calls it.\<close>

lemma release_view:
  assumes lv: "lock_view s' = lock_view (releasing l s)" and lc: "live s (current s)" and h: "holders s l = Some (current s)"
    and rr: "release_ret (frames s (current s))"
    and ok: "lock_ok (lock_frames s) (lock_values s) (holders s)" and kn: "\<And>d. d \<noteq> current s \<Longrightarrow> knows d (lock_frames s d) (holders s)"
    and kc: "\<And>j. CondWaitAcquire j \<in> set (frames s (current s)) \<Longrightarrow> j = l"
  shows "lock_inv s'"
proof -
  let ?c = "current s"
  have gc: "lock_frames s ?c = filter lock_frame (frames s ?c)" by (rule lock_frames_current [OF lc])
  let ?g = "(lock_frames s)(?c := LockReleaseUp l # filter lock_frame (frames s ?c))" and ?h = "(holders s)(l := None)"
  have nc: "\<not> claims j (filter lock_frame (frames s ?c))" "claims j (LockReleaseUp l # filter lock_frame (frames s ?c)) \<longleftrightarrow> j = l" for j
    using rr by (auto simp: release_ret_def claims_def)
  have "lock_frames (releasing l s) = ?g"
    using lc gc by (auto simp: releasing_def lock_frames_def live_def push_def modify_lock_def fun_eq_iff)
  then have "lock_view s' = (?g, lock_values s, ?h)" using lv
    by (simp add: lock_view_def) (auto simp: releasing_def modify_lock_def push_def fun_eq_iff)
  moreover have "lock_ok ?g (lock_values s) ?h" by (rule lock_ok_release [OF ok h]) (use nc gc in simp_all)
  moreover have "knows d (?g d) ?h" for d
  proof (rule knows_update)
    show "knows d (lock_frames s d) ?h" if "d \<noteq> ?c" for d by (rule knows_other [OF kn [OF that] that]) (use h in auto)
    show "knows ?c (LockReleaseUp l # filter lock_frame (frames s ?c)) ?h"
      using rr kc by (auto simp: release_ret_def knows_def)
  qed
  ultimately show ?thesis by (rule lock_inv_change)
qed

lemma release_full:
  assumes inv: "sched_inv (Some (current s)) s" "\<not> in_external_intr s" and k: "prio_inv s" "sleeps s" and on: "intr_on s"
    and i: "idle_thread s \<noteq> Some (current s)" and h: "holder (lock_at s l) = Some (current s)"
    and rr: "release_ret (frames s (current s))"
    and ok: "lock_ok (lock_frames s) (lock_values s) (holders s)" and kn: "\<And>d. d \<noteq> current s \<Longrightarrow> knows d (lock_frames s d) (holders s)"
    and kc: "\<And>j. CondWaitAcquire j \<in> set (frames s (current s)) \<Longrightarrow> j = l"
  shows "\<exists>s'. lock_release l s = Some s' \<and> full_inv s'"
proof -
  obtain s' where s': "lock_release l s = Some s'" "kernel_inv s'" "sleep_view s' = sleep_view s"
    "lock_view s' = lock_view (releasing l s)" "prio_inv s' = prio_inv s"
    using lock_release_inv [OF inv on h i rr] by blast
  have "lock_inv s'"
    by (rule release_view [OF s'(4) thread_current_inv(2) [OF inv(1)] h rr ok kn kc])
  then show ?thesis using s' k sleeps_view [OF s'(3)] by (auto simp: full_inv_def)
qed

text \<open>The remaining frames that run with interrupts on.\<close>

lemma run_AllocateTid:
  assumes F: "full_inv s" and on: "intr_on s" and fr: "frames s (current s) = AllocateTid t # fs"
  shows "\<exists>s'. resume s = Some s' \<and> full_inv s'"
proof -
  let ?c = "current s"
  have k: "kernel_inv s" "prio_inv s" "sleeps s" "lock_inv s" using F by (simp_all add: full_inv_def)
  note K = kernel_invD [OF k(1)] and lc = thread_current_inv(2) [OF kernel_invD(1) [OF k(1)]]
  have os: "idle_thread s \<noteq> Some ?c" "fs = [ThreadCreate t None]" using K(3) [OF on] fr by (auto simp: on_stack_def)
  have ok: "lock_ok (lock_frames s) (lock_values s) (holders s)" and kn: "\<And>d. knows d (lock_frames s d) (holders s)"
    using k(4) by (simp_all add: lock_inv_view)
  have gc: "lock_frames s ?c = [AllocateTid t]" using lock_frames_current [OF lc] fr os by simp
  have h: "holder (lock_at s tid_lock) = Some ?c" using kn [of ?c] unfolding gc knows_def by auto
  let ?s = "(modify_thread t (tid_update (\<lambda>_. next_tid s)) (pop s))\<lparr>next_tid := wrap_int (next_tid s + 1)\<rparr>"
  have "sched_inv (Some (current (pop s))) (pop s)" by (rule sched_inv_pop [OF K(1) fr]) simp
  then have inv: "sched_inv (Some (current ?s)) ?s"
    by (subst sched_inv_control [of _ "modify_thread t (tid_update (\<lambda>_. next_tid s)) (pop s)"])
       (simp_all add: control_def sched_inv_modify)
  have "lock_view ?s = lock_view (pop s)" by (rule lock_view_cong) (simp_all add: modify_thread_def)
  from lock_view_values(3) [OF this] have lf: "lock_frames ?s = (lock_frames s)(?c := [])"
    using lock_frames_pop [OF fr] lc os(2) by simp
  have pr: "prio_inv ?s" using k(2) by (subst prio_inv_cong [of _ s]) (simp_all add: modify_thread_def)
  have sl: "sleeps ?s" using k(3) sleeps_view [of ?s s] by (simp add: sleep_view_def modify_thread_def fun_eq_iff)
  have nc: "\<not> claims j [AllocateTid t]" "\<not> claims j []" for j by (simp_all add: claims_def)
  have "\<exists>s'. lock_release tid_lock ?s = Some s' \<and> full_inv s'"
  proof (rule release_full [OF inv _ pr sl])
    show "lock_ok (lock_frames ?s) (lock_values ?s) (holders ?s)"
      unfolding lf using lock_ok_frames [OF ok, of "[]" ?c] gc nc by simp
    show "knows d (lock_frames ?s d) (holders ?s)" if "d \<noteq> current ?s" for d using kn [of d] that unfolding lf by simp
  qed (use K(2) on os h fr in \<open>simp_all add: release_ret_def\<close>)
  moreover have "resume s = lock_release tid_lock ?s"
    using fr by (simp add: resume_def allocate_tid_tail_def) (simp add: pop_def modify_thread_def)
  ultimately show ?thesis by simp
qed

lemma run_CondWaitAcquire:
  assumes F: "full_inv s" and on: "intr_on s" and fr: "frames s (current s) = CondWaitAcquire l # fs"
  shows "\<exists>s'. resume s = Some s' \<and> full_inv s'"
proof -
  let ?c = "current s"
  have k: "kernel_inv s" "prio_inv s" "sleeps s" "lock_inv s" using F by (simp_all add: full_inv_def)
  note K = kernel_invD [OF k(1)] and lc = thread_current_inv(2) [OF kernel_invD(1) [OF k(1)]]
  have os: "idle_thread s \<noteq> Some ?c" "fs = []" using K(3) [OF on] fr by (auto simp: on_stack_def)
  have ok: "lock_ok (lock_frames s) (lock_values s) (holders s)" and kn: "\<And>d. knows d (lock_frames s d) (holders s)"
    using k(4) by (simp_all add: lock_inv_view)
  have gc: "lock_frames s ?c = [CondWaitAcquire l]" using lock_frames_current [OF lc] fr os by simp
  have h: "holder (lock_at s l) \<noteq> Some ?c" using kn [of ?c] unfolding gc knows_def by auto
  have "sched_inv (Some (current (pop s))) (pop s)" by (rule sched_inv_pop [OF K(1) fr]) simp
  then have kp: "kernel_inv (pop s)" using K(2) on os fr by (simp add: kernel_inv_def stack_ok_def on_stack_def)
  have lf: "lock_frames (pop s) = (lock_frames s)(?c := [])" using lock_frames_pop [OF fr] lc os(2) by simp
  have nc: "\<not> claims j [CondWaitAcquire l]" "\<not> claims j []" for j by (simp_all add: claims_def)
  have "\<exists>s'. lock_acquire l (pop s) = Some s' \<and> full_inv s'"
  proof (rule acquire_full [OF kp])
    show "lock_ok (lock_frames (pop s)) (lock_values (pop s)) (holders (pop s))"
      unfolding lf using lock_ok_frames [OF ok, of "[]" ?c] gc nc by simp
    show "knows d (lock_frames (pop s) d) (holders (pop s))" if "d \<noteq> current (pop s)" for d using kn [of d] that unfolding lf by simp
    show "sleeps (pop s)" using k(3) sleeps_view [of "pop s" s] by simp
  qed (use k(2) on os h fr in \<open>simp_all add: acquire_ret_def\<close>)
  moreover have "resume s = lock_acquire l (pop s)" using fr by (simp add: resume_def)
  ultimately show ?thesis by simp
qed

lemma run_CondWaitDown:
  assumes F: "full_inv s" and on: "intr_on s" and fr: "frames s (current s) = CondWaitDown # fs"
  shows "\<exists>s'. resume s = Some s' \<and> full_inv s'"
proof -
  let ?c = "current s"
  have k: "kernel_inv s" "prio_inv s" using F by (simp_all add: full_inv_def)
  note K = kernel_invD [OF k(1)]
  obtain l where os: "idle_thread s \<noteq> Some ?c" "fs = [CondWaitAcquire l]" using K(3) [OF on] fr by (auto simp: on_stack_def)
  have inv: "sched_inv (Some (current (pop s))) (pop s)" by (rule sched_inv_pop [OF K(1) fr]) simp
  have "\<exists>s'. sema_down (WaiterSema ?c) (pop s) = Some s' \<and> resched (pop s) s'"
    by (rule sema_down_inv [OF inv]) (use K(2) on os fr k in simp_all)
  then obtain s' where s': "sema_down (WaiterSema ?c) (pop s) = Some s'" "resched (pop s) s'" by blast
  have "full_inv s'" by (rule full_resched [OF F lock_view_pop [OF fr] sleep_view_pop s'(2)]) simp
  moreover have "resume s = Some s'" using fr s'(1) by (simp add: resume_def running_thread_def)
  ultimately show ?thesis by simp
qed

lemma run_CondBroadcast:
  assumes F: "full_inv s" and on: "intr_on s" and fr: "frames s (current s) = CondBroadcast cd l # fs"
  shows "\<exists>s'. resume s = Some s' \<and> full_inv s'"
proof -
  let ?c = "current s"
  have k: "kernel_inv s" "prio_inv s" "sleeps s" "lock_inv s" using F by (simp_all add: full_inv_def)
  note K = kernel_invD [OF k(1)] and lc = thread_current_inv(2) [OF kernel_invD(1) [OF k(1)]]
  have os: "idle_thread s \<noteq> Some ?c" "fs = []" using K(3) [OF on] fr by (auto simp: on_stack_def)
  have ok: "lock_ok (lock_frames s) (lock_values s) (holders s)" and kn: "\<And>d. knows d (lock_frames s d) (holders s)"
    using k(4) by (simp_all add: lock_inv_view)
  have gc: "lock_frames s ?c = [CondBroadcast cd l]" using lock_frames_current [OF lc] fr os by simp
  have h: "holder (lock_at s l) = Some ?c" using kn [of ?c] unfolding gc knows_def by auto
  have "sched_inv (Some (current (pop s))) (pop s)" by (rule sched_inv_pop [OF K(1) fr]) simp
  then have kp: "kernel_inv (pop s)" using K(2) on os fr by (simp add: kernel_inv_def stack_ok_def on_stack_def)
  obtain s' where s': "cond_broadcast cd l (pop s) = Some s'"
    "if cond_at s cd \<noteq> [] then resched (push (CondBroadcast cd l) (pop s)) s' else s' = pop s"
    using cond_broadcast_inv [OF kp, of cd l] on fr os k h by auto
  have r: "resume s = Some s'" using fr s'(1) by (simp add: resume_def)
  have pp: "push (CondBroadcast cd l) (pop s) = s" using fr by (cases s) (simp add: push_def pop_def fun_upd_idem)
  have "full_inv s'"
  proof (cases "cond_at s cd = []")
    case False
    then show ?thesis using full_resched [OF F refl refl] s'(2) pp by auto
  next
    case True
    then have e: "s' = pop s" using s'(2) by simp
    have nc: "\<not> claims j [CondBroadcast cd l]" "\<not> claims j []" for j by (simp_all add: claims_def)
    have lf: "lock_frames (pop s) = (lock_frames s)(?c := [])" using lock_frames_pop [OF fr] lc os(2) by simp
    have "lock_inv (pop s)"
      unfolding lock_inv_view lf using lock_ok_frames [OF ok, of "[]" ?c] gc nc kn by (auto simp: knows_def)
    then show ?thesis using kp k sleeps_view [of "pop s" s] unfolding e full_inv_def by simp
  qed
  with r show ?thesis by simp
qed

lemma run_LockReleasePriority:
  assumes F: "full_inv s" and on: "intr_on s" and fr: "frames s (current s) = LockReleasePriority # fs"
  shows "\<exists>s'. resume s = Some s' \<and> full_inv s'"
proof -
  let ?c = "current s"
  have k: "kernel_inv s" "prio_inv s" using F by (simp_all add: full_inv_def)
  note K = kernel_invD [OF k(1)]
  have os: "idle_thread s \<noteq> Some ?c" "release_ret fs" using K(3) [OF on] fr by (auto simp: on_stack_def)
  have inv: "sched_inv (Some (current (pop s))) (pop s)" by (rule sched_inv_pop [OF K(1) fr]) simp
  then have kp: "kernel_inv (pop s)" using K(2) on os fr by (auto simp: kernel_inv_def stack_ok_def on_stack_def release_ret_def)
  obtain s' where s': "thread_set_priority (base_priority (thread_at s ?c)) (pop s) = Some s'" "resched (pop s) s'"
    using thread_set_priority_inv [OF kp] on k os by auto
  have v: "lock_view (pop s) = lock_view s" using lock_view_pop [OF fr] by simp
  have "full_inv s'" using full_resched [OF F v sleep_view_pop s'(2)] .
  moreover have "full_inv (pop s)" by (rule full_resched [OF F v sleep_view_pop]) (use kp k in \<open>simp add: resched_def\<close>)
  ultimately show ?thesis using fr s'(1) by (simp add: resume_def lock_release_tail_def running_thread_def)
qed

lemma run_SetPriority:
  assumes F: "full_inv s" and off: "\<not> intr_on s" and fr: "frames s (current s) = SetPriority p old # fs"
  shows "\<exists>s'. resume s = Some s' \<and> full_inv s'"
proof -
  have k: "kernel_inv s" "prio_inv s" using F by (simp_all add: full_inv_def)
  note K = kernel_invD [OF k(1)]
  have os: "old" "on_stack (idle_thread s) (current s) fs" using K(4) [OF off] fr by auto
  have inv: "sched_inv (Some (current (pop s))) (pop s)" by (rule sched_inv_pop [OF K(1) fr]) simp
  have "\<exists>s'. set_priority_tail p True (pop s) = Some s' \<and> resched (pop s) s'"
    by (rule set_priority_tail_inv [OF inv]) (use K(2) off os fr k(2) in \<open>auto simp: prio_inv_def by_priority_def\<close>)
  then obtain s' where s': "set_priority_tail p True (pop s) = Some s'" "resched (pop s) s'" by blast
  have v: "lock_view (pop s) = lock_view s" using lock_view_pop [OF fr] by simp
  have "full_inv s'" using full_resched [OF F v sleep_view_pop s'(2)] .
  then show ?thesis using fr s'(1) os(1) by (simp add: resume_def)
qed

lemma run_ThreadCreate:
  assumes F: "full_inv s" and on: "intr_on s" and fr: "frames s (current s) = ThreadCreate t x # fs"
  shows "\<exists>s'. resume s = Some s' \<and> full_inv s'"
proof -
  have k: "kernel_inv s" "prio_inv s" using F by (simp_all add: full_inv_def)
  have os: "x = None" "fs = []" using kernel_invD(3) [OF k(1) on] fr by (auto simp: on_stack_def)
  obtain s' where s': "thread_create_tail t None (pop s) = Some s'" "resched s s'"
    using thread_create_tail_inv [OF k(1) on _ k(2)] fr os by auto
  then show ?thesis using full_resched [OF F refl refl] fr os by (simp add: resume_def)
qed

lemma run_IdleLoop:
  assumes F: "full_inv s" and on: "intr_on s" and fr: "frames s (current s) = IdleLoop # fs"
  shows "\<exists>s'. resume s = Some s' \<and> full_inv s'"
proof -
  have k: "kernel_inv s" using F by (simp add: full_inv_def)
  note K = kernel_invD [OF k(1)]
  have os: "idle_thread s = Some (current s)" "fs = []" using K(3) [OF on] fr by (auto simp: on_stack_def)
  have inv: "sched_inv (Some (current (pop s))) (pop s)" by (rule sched_inv_pop [OF K(1) fr]) simp
  obtain s' where s': "idle_block (pop s) = Some s'" "resched (pop s) s'"
    using idle_block_inv [OF inv] K(2) os fr by auto
  have v: "lock_view (pop s) = lock_view s" using lock_view_pop [OF fr] by simp
  have "full_inv s'" using full_resched [OF F v sleep_view_pop s'(2)] .
  then show ?thesis using fr s'(1) by (simp add: resume_def)
qed

lemma run_IdleWait:
  assumes F: "full_inv s" and off: "\<not> intr_on s" and fr: "frames s (current s) = IdleWait # fs"
  shows "\<exists>s'. resume s = Some s' \<and> full_inv s'"
proof -
  have k: "kernel_inv s" "prio_inv s" "sleeps s" "lock_inv s" using F by (simp_all add: full_inv_def)
  note K = kernel_invD [OF k(1)]
  have os: "idle_thread s = Some (current s)" "fs = []" using K(4) [OF off] fr by auto
  let ?p = "(pop s)\<lparr>intr_on := True\<rparr>"
  have inv: "sched_inv (Some (current (pop s))) (pop s)" by (rule sched_inv_pop [OF K(1) fr]) simp
  then have "sched_inv (Some (current ?p)) ?p" by (subst sched_inv_control [of _ "pop s"]) (simp_all add: control_def)
  then have "sched_inv (Some (current ?p)) (push IdleLoop ?p)" using sched_inv_push [of ?p IdleLoop] by simp
  then have "kernel_inv (push IdleLoop ?p)" using K(2) os fr by (simp add: kernel_inv_def stack_ok_def on_stack_def)
  moreover have "prio_inv (push IdleLoop ?p)" using k(2) by (subst prio_inv_cong [of _ s]) simp_all
  moreover have "sleeps (push IdleLoop ?p)" using k(3) sleeps_view [of "push IdleLoop ?p" s] by (simp add: sleep_view_def)
  moreover have "lock_view (push IdleLoop ?p) = lock_view s"
    using lock_view_pop [OF fr] lock_view_push [of IdleLoop ?p] lock_view_cong [of ?p "pop s"] by simp
  then have "lock_inv (push IdleLoop ?p)" using k(4) lock_inv_cong [of "push IdleLoop ?p" s] by simp
  ultimately show ?thesis using fr by (simp add: resume_def idle_wait_def full_inv_def)
qed

text \<open>No kernel function that a thread is in ever panics, and each keeps the invariant.\<close>

lemma resume_full:
  assumes F: "full_inv s" and fr: "frames s (current s) \<noteq> []"
  shows "\<exists>s'. resume s = Some s' \<and> full_inv s'"
proof -
  have k: "kernel_inv s" using F by (simp add: full_inv_def)
  note K = kernel_invD [OF k]
  obtain f fs where f: "frames s (current s) = f # fs" using fr by (cases "frames s (current s)") auto
  show ?thesis
  proof (cases "intr_on s")
    case True
    have "on_stack (idle_thread s) (current s) (f # fs)" using K(3) [OF True] f by simp
    then show ?thesis
      using run_LockReleaseUp [OF F True] run_AllocateTid [OF F True] run_CondWaitAcquire [OF F True] run_CondWaitDown [OF F True]
        run_CondBroadcast [OF F True] run_LockReleasePriority [OF F True] run_ThreadCreate [OF F True] run_IdleLoop [OF F True] f
      by (cases f) (auto simp: on_stack_def)
  next
    case False
    have o: "off_stack (idle_thread s) (current s) (f # fs)" using K(4) [OF False] f by simp
    have lev: "\<exists>s'. resume s = Some s' \<and> full_inv s'"
      if "run_frame f (pop s) = Some ((pop s)\<lparr>intr_on := b\<rparr>)" "\<not> lock_frame f" "\<And>t x. f \<noteq> ThreadCreate t x"
        "stack_ok b (idle_thread s) (current s) fs" for b
      using level_frame [OF F f that(2,3,4)] that(1) f by (simp add: resume_def)
    have ext: "\<not> in_external_intr (pop s)" using K(2) by simp
    show ?thesis
    proof (cases f)
      case (SetLevel b)
      then show ?thesis using lev [of b] o intr_set_level_eq [OF ext] by (simp add: stack_ok_def)
    next
      case (TimerSleep b)
      then show ?thesis using lev [of b] o intr_set_level_eq [OF ext] by (simp add: stack_ok_def on_stack_def)
    next
      case IntrReturn
      then show ?thesis using lev [of True] o by (simp add: stack_ok_def intr_return_def)
    next
      case (KernelThread x)
      then show ?thesis using lev [of True] o ext by (simp add: stack_ok_def on_stack_def kernel_thread_def intr_enable_def intr_context_def)
    qed (use o run_SemaDown [OF F False] run_LockAcquire [OF F False] run_SetPriority [OF F False] run_IdleWait [OF F False] f in auto)
  qed
qed

section \<open>Calls\<close>

lemma full_invD:
  assumes "full_inv s"
  shows "kernel_inv s" "prio_inv s" "sleeps s" "lock_inv s"
  using assms by (simp_all add: full_inv_def)

lemma call_state:
  assumes "full_inv s" "frames s (current s) = []"
  shows "intr_on s" "idle_thread s \<noteq> Some (current s)" "lock_frames s (current s) = []"
proof -
  note K = kernel_invD [OF full_invD(1) [OF assms(1)]]
  show on: "intr_on s" using K(4) assms(2) by (cases "intr_on s") auto
  show "idle_thread s \<noteq> Some (current s)" using K(3) [OF on] assms(2) by (simp add: on_stack_def)
  show "lock_frames s (current s) = []" using assms(2) by (simp add: lock_frames_def)
qed

lemma call_lock_acquire:
  assumes F: "full_inv s" and fr: "frames s (current s) = []" and r: "lock_acquire l s = Some s'"
  shows "full_inv s'"
proof -
  note k = full_invD [OF F] and c = call_state [OF F fr]
  have "holder (lock_at s l) \<noteq> Some (current s)"
    using r thread_current_inv(1) [OF kernel_invD(1) [OF k(1)]]
    by (auto simp: lock_acquire_def lock_held_by_current_thread_def panic_simps split: if_splits)
  then have "\<exists>s'. lock_acquire l s = Some s' \<and> full_inv s'"
    using acquire_full [OF k(1-3) c(1,2), of l] k(4) fr by (auto simp: lock_inv_view acquire_ret_def)
  then show ?thesis using r by simp
qed

lemma call_lock_try_acquire:
  assumes F: "full_inv s" and fr: "frames s (current s) = []" and r: "lock_try_acquire l s = Some (b, s')"
  shows "full_inv s'"
proof -
  let ?c = "current s"
  note k = full_invD [OF F] and c = call_state [OF F fr]
  have h: "holder (lock_at s l) \<noteq> Some ?c"
    using r thread_current_inv(1) [OF kernel_invD(1) [OF k(1)]]
    by (auto simp: lock_try_acquire_def lock_held_by_current_thread_def panic_simps split: if_splits)
  show ?thesis
  proof (cases "0 < sema_value (sema_at s (LockSema l))")
    case False
    then have "s' = s" using r h thread_current_inv(1) [OF kernel_invD(1) [OF k(1)]] sema_try_down_inv(1) [OF k(1) c(1), of "LockSema l"]
      by (simp add: lock_try_acquire_def lock_held_by_current_thread_def)
    then show ?thesis using F by simp
  next
    case True
    then obtain t where t: "lock_try_acquire l s = Some (True, t)" "kernel_inv t" "sleep_view t = sleep_view s"
      "lock_view t = lock_view (modify_lock l (holder_update (\<lambda>_. Some ?c)) (sema_taken (LockSema l) True s))" "prio_inv t = prio_inv s"
      using lock_try_acquire_inv [OF k(1) c(1) h] by blast
    let ?v = "(lock_values s)(l := lock_values s l - 1)" and ?h = "(holders s)(l := Some ?c)"
    have ok: "lock_ok (lock_frames s) (lock_values s) (holders s)" and kn: "\<And>d. knows d (lock_frames s d) (holders s)"
      using k(4) by (simp_all add: lock_inv_view)
    have "lock_view t = (lock_frames s, ?v, ?h)"
      using t(4) by (simp add: lock_view_def sema_taken_def) (auto simp: modify_lock_def modify_sema_def fun_eq_iff)
    moreover have "lock_ok (lock_frames s) ?v ?h" by (rule lock_ok_try [OF ok]) (use True in simp)
    moreover have "knows d (lock_frames s d) ?h" for d
    proof (cases "d = ?c")
      case True
      then show ?thesis using c(3) by (simp add: knows_def)
    next
      case False
      show ?thesis by (rule knows_other [OF kn False]) (use lock_okD(2) [OF ok, of l] True in auto)
    qed
    ultimately have "lock_inv t" by (rule lock_inv_change)
    then show ?thesis using r t k sleeps_view [OF t(3)] by (simp add: full_inv_def)
  qed
qed

lemma call_lock_release:
  assumes F: "full_inv s" and fr: "frames s (current s) = []" and r: "lock_release l s = Some s'"
  shows "full_inv s'"
proof -
  note k = full_invD [OF F] and c = call_state [OF F fr]
  note K = kernel_invD [OF k(1)]
  have h: "holder (lock_at s l) = Some (current s)"
    using r thread_current_inv(1) [OF K(1)]
    by (auto simp: lock_release_def lock_held_by_current_thread_def panic_simps split: if_splits)
  have "\<exists>s'. lock_release l s = Some s' \<and> full_inv s'"
    by (rule release_full [OF K(1,2) k(2,3) c(1,2) h]) (use k(4) fr in \<open>auto simp: lock_inv_view release_ret_def\<close>)
  then show ?thesis using r by simp
qed

lemma call_cond_wait:
  assumes F: "full_inv s" and fr: "frames s (current s) = []" and r: "cond_wait cd l s = Some s'"
  shows "full_inv s'"
proof -
  let ?c = "current s"
  note k = full_invD [OF F] and c = call_state [OF F fr]
  note K = kernel_invD [OF k(1)] and lc = thread_current_inv(2) [OF kernel_invD(1) [OF k(1)]]
  have h: "holder (lock_at s l) = Some ?c"
    using r thread_current_inv(1) [OF K(1)]
    by (auto simp: cond_wait_def lock_held_by_current_thread_def panic_simps split: if_splits)
  let ?s1 = "push CondWaitDown (push (CondWaitAcquire l) s)"
  obtain t where t: "cond_wait cd l s = Some t" "kernel_inv t" "sleep_view t = sleep_view s"
    "lock_view t = lock_view (releasing l ?s1)" "prio_inv t = prio_inv s"
    using cond_wait_inv [OF k(1) c(1) fr h, of cd] by blast
  have ok: "lock_ok (lock_frames s) (lock_values s) (holders s)" and kn: "\<And>d. knows d (lock_frames s d) (holders s)"
    using k(4) by (simp_all add: lock_inv_view)
  have lf: "lock_frames ?s1 = (lock_frames s)(?c := [CondWaitAcquire l])"
    using lock_view_values(3) [OF lock_view_push [of CondWaitDown "push (CondWaitAcquire l) s"]]
      lock_frames_push [OF lc, of "CondWaitAcquire l"] c(3) by simp
  have "lock_inv t"
  proof (rule release_view [OF t(4)])
    show "lock_ok (lock_frames ?s1) (lock_values ?s1) (holders ?s1)"
      unfolding lf using lock_ok_frames [OF ok, of "[CondWaitAcquire l]" ?c] c(3) by (simp add: claims_def)
    show "knows d (lock_frames ?s1 d) (holders ?s1)" if "d \<noteq> current ?s1" for d using kn [of d] that unfolding lf by simp
  qed (use lc h fr in \<open>auto simp: live_def release_ret_def\<close>)
  then show ?thesis using r t k sleeps_view [OF t(3)] by (simp add: full_inv_def)
qed

lemma call_cond_signal:
  assumes F: "full_inv s" and fr: "frames s (current s) = []" and r: "cond_signal cd l s = Some s'"
  shows "full_inv s'"
proof -
  note k = full_invD [OF F] and c = call_state [OF F fr]
  have h: "holder (lock_at s l) = Some (current s)"
    using r thread_current_inv(1) [OF kernel_invD(1) [OF k(1)]]
    by (auto simp: cond_signal_def lock_held_by_current_thread_def panic_simps split: if_splits)
  obtain t where "cond_signal cd l s = Some t" "resched s t" using cond_signal_inv [OF k(1) c(1) h k(2), of cd] by blast
  then show ?thesis using full_resched [OF F refl refl] r by simp
qed

lemma call_cond_broadcast:
  assumes F: "full_inv s" and fr: "frames s (current s) = []" and r: "cond_broadcast cd l s = Some s'"
  shows "full_inv s'"
proof (cases "cond_at s cd = []")
  case True
  then show ?thesis using r F by (simp add: cond_broadcast_def)
next
  case False
  let ?c = "current s" and ?s = "push (CondBroadcast cd l) s"
  note k = full_invD [OF F] and c = call_state [OF F fr]
  note lc = thread_current_inv [OF kernel_invD(1) [OF k(1)]]
  have "thread_current ?s = Some ?c" using lc(1) by (simp add: thread_current_def running_thread_def is_thread_def)
  then have h: "holder (lock_at s l) = Some ?c"
    using r False by (auto simp: cond_broadcast_def cond_signal_def lock_held_by_current_thread_def panic_simps split: if_splits)
  obtain t where t: "cond_broadcast cd l s = Some t" "resched ?s t"
    using cond_broadcast_inv [OF k(1) c(1) fr k(2), of cd l] h False by auto
  have ok: "lock_ok (lock_frames s) (lock_values s) (holders s)" and kn: "\<And>d. knows d (lock_frames s d) (holders s)"
    using k(4) by (simp_all add: lock_inv_view)
  let ?g = "(lock_frames s)(?c := [CondBroadcast cd l])"
  have "lock_view t = (?g, lock_values s, holders s)"
    using t(2) lock_frames_push [OF lc(2), of "CondBroadcast cd l"] c(3) by (simp add: resched_def lock_view_def)
  moreover have "lock_ok ?g (lock_values s) (holders s)"
    by (rule lock_ok_frames [OF ok]) (use c(3) in \<open>simp add: claims_def\<close>)
  moreover have "knows d (?g d) (holders s)" for d by (rule knows_update) (use kn h in \<open>auto simp: knows_def\<close>)
  ultimately have "lock_inv t" by (rule lock_inv_change)
  then show ?thesis using r t k sleeps_view [of t s] by (simp add: full_inv_def resched_def)
qed

lemma call_thread_create:
  assumes F: "full_inv s" and fr: "frames s (current s) = []" and t: "\<not> live s t" and r: "thread_create (Some t) p None s = Some s'"
  shows "full_inv s'"
proof -
  let ?c = "current s"
  note k = full_invD [OF F] and c = call_state [OF F fr]
  have ok: "lock_ok (lock_frames s) (lock_values s) (holders s)" and kn: "\<And>d. knows d (lock_frames s d) (holders s)"
    using k(4) by (simp_all add: lock_inv_view)
  have lc: "live s ?c" using thread_current_inv(2) [OF kernel_invD(1) [OF k(1)]] .
  obtain s0 where s0: "kernel_inv s0" "prio_inv s0" "sleeps s0" "intr_on s0" "current s0 = ?c" "idle_thread s0 \<noteq> Some (current s0)"
    "frames s0 (current s0) = [AllocateTid t, ThreadCreate t None]" "lock_view s0 = lock_view (push (AllocateTid t) s)"
    "lock_acquire tid_lock s0 = Some s'"
    using thread_create_inv [OF k(1) c(1) fr t k(2,3) r] by metis
  have lf: "lock_frames s0 = (lock_frames s)(?c := [AllocateTid t])"
    using lock_view_values(3) [OF s0(8)] lock_frames_push [OF lc, of "AllocateTid t"] c(3) by simp
  have vh: "lock_values s0 = lock_values s" "holders s0 = holders s"
    using lock_view_values(1,2) [OF s0(8)] by simp_all
  have "holder (lock_at s0 tid_lock) \<noteq> Some (current s0)"
    using s0(9) thread_current_inv(1) [OF kernel_invD(1) [OF s0(1)]]
    by (auto simp: lock_acquire_def lock_held_by_current_thread_def panic_simps split: if_splits)
  moreover have "lock_ok (lock_frames s0) (lock_values s0) (holders s0)"
    unfolding lf vh by (rule lock_ok_frames [OF ok]) (use c(3) in \<open>simp add: claims_def\<close>)
  moreover have "knows d (lock_frames s0 d) (holders s0)" if "d \<noteq> current s0" for d
    using kn [of d] that s0(5) unfolding lf vh by simp
  ultimately have "\<exists>s'. lock_acquire tid_lock s0 = Some s' \<and> full_inv s'"
    using acquire_full [OF s0(1-4,6), of tid_lock] s0(7) by (simp add: acquire_ret_def)
  then show ?thesis using s0(9) by simp
qed

lemma call_thread_set_nice:
  assumes F: "full_inv s" and fr: "frames s (current s) = []" and m: "thread_mlfqs s" and r: "thread_set_nice n s = Some s'"
  shows "full_inv s'"
proof -
  let ?c = "current s"
  note k = full_invD [OF F] and c = call_state [OF F fr]
  note K = kernel_invD [OF k(1)]
  let ?s0 = "modify_thread ?c (nice_update (\<lambda>_. n)) s"
  obtain s1 where s1: "update_thread_priority ?c ?s0 = Some s1" by (cases "idle_thread s = Some ?c") (auto simp: update_thread_priority_def)
  let ?s2 = "s1\<lparr>ready_list := sort_by_priority s1 (ready_list s1)\<rparr>"
  have "ticked s ?s0" by (rule ticked_modify) simp
  moreover have "ticked s1 ?s2" by (simp add: ticked_def)
  ultimately have tk: "ticked s ?s2" using update_thread_priority_ticked [OF s1] ticked_trans by blast
  note V = ticked_views [OF tk]
  have k2: "kernel_inv ?s2" using V(1) tk K c(1) k(1) by (simp add: kernel_inv_def ticked_def)
  have p2: "prio_inv ?s2" using tk m by (simp add: prio_inv_def ticked_def)
  have "s' = ?s2 \<or> thread_yield ?s2 = Some s'"
    using r s1 thread_current_inv(1) [OF K(1)] by (auto simp: thread_set_nice_def Let_def split: if_splits)
  then have "resched ?s2 s'" using k2 p2 thread_yield_inv [OF k2] by (auto simp: resched_def)
  then show ?thesis using full_resched [OF F V(2,3)] by simp
qed

lemma perform_full:
  assumes F: "full_inv s" and fr: "frames s (current s) = []" and ok: "permitted c s" and r: "perform c s = Some s'"
  shows "full_inv s'"
proof -
  note k = full_invD [OF F] and st = call_state [OF F fr]
  note K = kernel_invD [OF k(1)]
  note re = full_resched [OF F refl refl]
  show ?thesis
  proof (cases c)
    case (CallSemaDown n)
    have "\<exists>s'. sema_down (Sema n) s = Some s' \<and> resched s s'"
      by (rule sema_down_inv [OF K(1,2) st(1) k(2)]) (use fr st in simp_all)
    then show ?thesis using r CallSemaDown re by auto
  next
    case (CallSemaTryDown n)
    have "s' = s \<or> s' = sema_taken (Sema n) True s"
      using r CallSemaTryDown sema_try_down_inv(1) [OF k(1) st(1), of "Sema n"] by (auto split: if_splits)
    moreover have "resched s (sema_taken (Sema n) True s)"
      unfolding resched_def
    proof (intro conjI)
      show "prio_inv (sema_taken (Sema n) True s)" using k(2) by (subst prio_inv_cong [of _ s]) (simp_all add: sema_taken_def)
      show "lock_view (sema_taken (Sema n) True s) = lock_view s"
        by (rule lock_view_cong) (simp_all add: sema_taken_def modify_sema_def)
    qed (use sema_try_down_inv(2) [OF k(1) st(1)] in \<open>simp_all add: sema_taken_def sleep_view_def\<close>)
    ultimately show ?thesis using F re by auto
  next
    case (CallSemaUp n)
    obtain t where "sema_up (Sema n) s = Some t" "resched (sema_raised (Sema n) s) t" using sema_up_inv [OF k(1) st(1)] by blast
    then show ?thesis using r CallSemaUp re by (simp add: sema_raised_views)
  next
    case (CallThreadCreate page p)
    then show ?thesis using r ok F call_thread_create [OF F fr] by (cases page) (auto simp: live_def thread_create_def)
  next
    case CallThreadExit
    then show ?thesis using thread_exit_inv [OF k(1) st(1) fr] r re by auto
  next
    case CallThreadYield
    then show ?thesis using thread_yield_inv [OF k(1)] r re by auto
  next
    case (CallThreadSetPriority p)
    then show ?thesis using thread_set_priority_inv [OF k(1) st(1) k(2) st(2), of p] r re by auto
  next
    case (CallTimerSleep n)
    show ?thesis
    proof (cases "0 < n")
      case False
      then show ?thesis using r F CallTimerSleep by (simp add: timer_sleep_def)
    next
      case True
      obtain t where t: "timer_sleep n s = Some t" "kernel_inv t" "prio_inv t" "lock_view t = lock_view s" "sleeps t"
        using timer_sleep_inv [OF k(1) st(1) fr k(3) True] ok CallTimerSleep by auto
      then show ?thesis using r CallTimerSleep k(4) lock_inv_cong [OF t(4)] by (simp add: full_inv_def)
    qed
  next
    case (CallThreadSetNice n)
    then show ?thesis using call_thread_set_nice [OF F fr] ok r by simp
  next
    case (CallLockTryAcquire l)
    then show ?thesis using call_lock_try_acquire [OF F fr] r by (auto split: prod.splits)
  qed (use r call_lock_acquire [OF F fr] call_lock_release [OF F fr] call_cond_wait [OF F fr] call_cond_signal [OF F fr]
      call_cond_broadcast [OF F fr] in auto)
qed

section \<open>Reachable states\<close>

lemma booted_simps [simp]:
  "thread_at (booted m v) t = (if t = 1 then main_thread else if t = 2
     then main_thread\<lparr>tid := 2, status := THREAD_READY, priority := 0, base_priority := 0\<rparr> else blank_thread)"
  "waiters (sema_at (booted m v) sm) = []" "sema_value (sema_at (booted m v) (LockSema l)) = 1"
  "holder (lock_at (booted m v) l) = None" "ready_list (booted m v) = []" "sleeping_list (booted m v) = []"
  "idle_thread (booted m v) = Some 2" "current (booted m v) = 1" "intr_on (booted m v)" "\<not> in_external_intr (booted m v)"
  "frames (booted m v) t = (if t = 2 then [SetLevel True, IdleLoop] else [])" "ticks (booted m v) = 0" "thread_mlfqs (booted m v) = m"
  by (simp_all add: booted_def split: sema_ref.split)

lemma booted_threads [simp]:
  "status main_thread = THREAD_RUNNING" "magic main_thread" "\<not> magic blank_thread"
  by (simp_all add: main_thread_def blank_thread_def)

lemma booted_full: "full_inv (booted m v)"
proof -
  have "runs (Some 1) (booted m v)" "idles (Some 1) (booted m v)" by (auto simp: runs_def idles_def live_def)
  moreover have "queues (booted m v)" by (auto simp: queues_def blocked_def live_def)
  moreover have "stacks (Some 1) (booted m v)"
    by (auto simp: stacks_def blocked_def live_def stack_ok_def on_stack_def)
  moreover have "creations (booted m v)" by (auto simp: creations_def creating_def)
  ultimately have "kernel_inv (booted m v)"
    by (simp add: kernel_inv_def sched_inv_def stack_ok_def on_stack_def)
  moreover have "lock_inv (booted m v)"
    by (auto simp: lock_inv_view lock_ok_def knows_def claims_def lock_frames_def)
  ultimately show ?thesis by (simp add: full_inv_def prio_inv_def by_priority_def sleeps_def)
qed

lemma kstep_full:
  assumes "kstep s s'" "full_inv s"
  shows "full_inv s'"
  using assms
proof (induction rule: kstep.induct)
  case (call s c s')
  then show ?case using perform_full by blast
next
  case (run s s')
  then have "frames s (current s) \<noteq> []" by (auto simp: resume_def split: list.splits)
  then show ?case using resume_full [OF run(2)] run(1) by auto
next
  case (timer s s')
  note k = full_invD [OF timer(4)]
  have "\<exists>t. external_interrupt timer_interrupt s = Some t \<and> kernel_inv t \<and> prio_inv t \<and> sleeps t \<and> lock_view t = lock_view s"
    using external_interrupt_inv [OF k(1) timer(1) k(3,2) timer(2)] timer(3) by blast
  then have t: "kernel_inv s'" "prio_inv s'" "sleeps s'" "lock_view s' = lock_view s" using timer(3) by auto
  then show ?case using k(4) lock_inv_cong [OF t(4)] by (simp add: full_inv_def)
qed

lemma reachable_full: "reachable m s \<Longrightarrow> full_inv s"
  by (induction rule: reachable.induct) (auto simp: boot_booted booted_full kstep_full)

lemma reachable_booted: "reachable m (booted m v)"
  by (rule reachable.boot [OF boot_booted])

lemmas reachable_inv = full_invD [OF reachable_full]





text \<open>
  (C4) Locks exclude each other: while a lock has a holder its semaphore is 0, so that neither \<open>lock_acquire\<close> nor
  \<open>lock_try_acquire\<close> can pass it; and a thread that has passed the semaphore in \<open>lock_acquire\<close> and is about to become the holder finds the lock
  without a holder, and is the only such thread.
\<close>

theorem lock_mutual_exclusion:
  assumes "reachable mlfqs s"
  shows "(\<forall>h. holder (lock_at s l) = Some h \<longrightarrow> sema_value (sema_at s (LockSema l)) = 0) \<and>
    (\<forall>t old fs. is_thread s (Some t) \<and> frames s t = LockAcquire l old # fs \<longrightarrow>
       holder (lock_at s l) = None \<and> sema_value (sema_at s (LockSema l)) = 0 \<and>
       (\<forall>u old' fs'. is_thread s (Some u) \<and> frames s u = LockAcquire l old' # fs' \<longrightarrow> u = t))"
proof -
  note k = reachable_inv [OF assms]
  have ok: "lock_ok (lock_frames s) (lock_values s) (holders s)" using k(4) by (simp add: lock_inv_view)
  have cl: "claims l (lock_frames s t)" if "is_thread s (Some t)" "frames s t = LockAcquire l old # fs" for t old fs
  proof -
    have lt: "live s t" using that(1) by (simp add: live_def is_thread_def)
    have "off_stack (idle_thread s) t (frames s t)"
    proof (cases "t = current s")
      case True
      have "\<not> on_stack (idle_thread s) t (LockAcquire l old # fs)" by (simp add: on_stack_def)
      then show ?thesis using kernel_invD(3,4) [OF k(1)] True that(2) by auto
    next
      case False
      then show ?thesis
        using stacksD(1) [OF sched_invD(3) [OF kernel_invD(1) [OF k(1)]] lt] that(2) by auto
    qed
    then have "acquire_ret l fs" using that(2) by simp
    then show ?thesis using lt that(2) by (auto simp: claims_def lock_frames_def acquire_ret_def)
  qed
  have "holders s l = None \<and> lock_values s l = 0 \<and> (is_thread s (Some u) \<and> frames s u = LockAcquire l old' # fs' \<longrightarrow> u = t)"
    if "is_thread s (Some t)" "frames s t = LockAcquire l old # fs" for t u old old' fs fs'
    using lock_okD(3) [OF ok cl [OF that], of u] cl [of u old' fs'] by blast
  then show ?thesis using lock_okD(1) [OF ok, of l] by blast
qed

lemma reachable_locked:
  "\<exists>s. reachable False s \<and> holder (lock_at s 7) = Some 1"
proof -
  let ?b = "booted False (\<lambda>_. 1)"
  have "\<exists>s1 s2. perform (CallLockAcquire 7) ?b = Some s1 \<and> resume s1 = Some s2 \<and> holder (lock_at s2 7) = Some 1"
    by (simp add: boot_defs booted_def main_thread_def)
  then obtain s1 s2 where s: "perform (CallLockAcquire 7) ?b = Some s1" "resume s1 = Some s2" "holder (lock_at s2 7) = Some 1" by blast
  have "kstep ?b s1" by (rule kstep.call [OF _ _ s(1)]) simp_all
  then have "reachable False s2" using reachable.step [OF reachable.step [OF reachable_booted]] kstep.run [OF s(2)] by blast
  then show ?thesis using s(3) by blast
qed

theorem lock_mutual_exclusion_witness:
  "\<exists>s. reachable False s \<and> holder (lock_at s 7) = Some 1 \<and> sema_value (sema_at s (LockSema 7)) = 0"
  using reachable_locked lock_mutual_exclusion by blast

text \<open>
  (C3) Strict priority scheduling: with the priority scheduler, whatever the threads do and whenever the timer
  interrupts, the ready list is sorted by decreasing effective priority and no ready thread has a higher effective priority than the
  running one.
\<close>

theorem running_has_highest_priority:
  assumes "reachable mlfqs s" "\<not> thread_mlfqs s"
  shows "sorted (map (\<lambda>t. - priority (thread_at s t)) (ready_list s)) \<and>
    (\<forall>t. is_thread s (Some t) \<and> status (thread_at s t) = THREAD_READY \<and> idle_thread s \<noteq> Some t \<longrightarrow>
      priority (thread_at s t) \<le> priority (thread_at s (current s)))"
  using reachable_inv(2) [OF assms(1)] assms(2) sched_invD(2) [OF kernel_invD(1) [OF reachable_inv(1) [OF assms(1)]]]
  by (simp add: prio_inv_def by_priority_def queues_def live_def is_thread_def)

theorem running_has_highest_priority_witness:
  "\<not> thread_mlfqs (booted False (\<lambda>_. 1)) \<and>
   sorted (map (\<lambda>t. - priority (thread_at (booted False (\<lambda>_. 1)) t)) (ready_list (booted False (\<lambda>_. 1))))"
  using running_has_highest_priority [OF reachable_booted [of False "\<lambda>_. 1"]] by simp

text \<open>
  (C6) A sleeper wakes up on time: in every state the kernel can reach, a sleeping thread's wakeup tick lies in the future, and the list
  of sleepers is sorted by it.  With the priority scheduler, a timer interrupt that comes while interrupts are on, and before the 63 bits of the
  tick count are used up, makes exactly the threads ready whose tick has come.
\<close>

theorem sleepers_wake_on_time:
  assumes "reachable mlfqs s"
  shows "(\<forall>t \<in> set (sleeping_list s). ticks s < wakeup_tick (thread_at s t)) \<and>
    sorted (map (\<lambda>t. wakeup_tick (thread_at s t)) (sleeping_list s)) \<and>
    (\<not> thread_mlfqs s \<and> intr_on s \<and> ticks s + 1 < 2 ^ 63 \<longrightarrow>
     (\<exists>s'. timer_interrupt ((push IntrReturn (s\<lparr>intr_on := False\<rparr>))\<lparr>in_external_intr := True, yield_on_return := False\<rparr>) = Some s' \<and>
      ticks s' = ticks s + 1 \<and>
      set (ready_list s') = set (ready_list s) \<union> {t \<in> set (sleeping_list s). wakeup_tick (thread_at s t) \<le> ticks s + 1} \<and>
      set (sleeping_list s') = {t \<in> set (sleeping_list s). ticks s + 1 < wakeup_tick (thread_at s t)}))"
proof -
  note k = reachable_inv [OF assms(1)]
  let ?s0 = "push IntrReturn (s\<lparr>intr_on := False\<rparr>)"
  let ?s1 = "?s0\<lparr>in_external_intr := True, yield_on_return := False\<rparr>"
  have "sched_inv (Some (current s)) (s\<lparr>intr_on := False\<rparr>)" using kernel_invD(1) [OF k(1)] by (subst sched_inv_control [of _ s]) (simp_all add: control_def)
  then have "sched_inv (Some (current s)) ?s0" using sched_inv_push [of "s\<lparr>intr_on := False\<rparr>" IntrReturn] by simp
  then have inv: "sched_inv (Some (current ?s1)) ?s1" by (subst sched_inv_control [of _ ?s0]) (simp_all add: control_def)
  have sl: "sleeps ?s1" using k(3) by (simp add: sleeps_def)
  have "\<exists>s'. timer_interrupt ?s1 = Some s' \<and> ticks s' = ticks ?s1 + 1 \<and>
    set (ready_list s') = set (ready_list ?s1) \<union> due ?s1 \<and> set (sleeping_list s') = set (sleeping_list ?s1) - due ?s1"
    if "\<not> thread_mlfqs s" "ticks s + 1 < 2 ^ 63"
    using timer_interrupt_inv [OF inv _ _ sl] that by auto
  moreover have "set (sleeping_list s) - due s = {t \<in> set (sleeping_list s). ticks s + 1 < wakeup_tick (thread_at s t)}"
    by (auto simp: due_def)
  ultimately show ?thesis using k(3) by (simp add: due_def sleeps_def)
qed

lemma reachable_sleeping:
  "\<exists>s. reachable False s \<and> \<not> thread_mlfqs s \<and> intr_on s \<and> ticks s = 0 \<and> sleeping_list s = [1] \<and> wakeup_tick (thread_at s 1) = 1"
proof -
  let ?b = "booted False (\<lambda>_. 1)"
  have "\<exists>s1 s2. perform (CallTimerSleep 1) ?b = Some s1 \<and> resume s1 = Some s2 \<and>
    \<not> thread_mlfqs s2 \<and> intr_on s2 \<and> ticks s2 = 0 \<and> sleeping_list s2 = [1] \<and> wakeup_tick (thread_at s2 1) = 1"
    by (simp add: boot_defs timer_sleep_def timer_ticks_def thread_set_wakeup_tick_def wakeup_tick_less_def wrap_long_id booted_def main_thread_def)
  then obtain s1 s2 where s: "perform (CallTimerSleep 1) ?b = Some s1" "resume s1 = Some s2"
    "\<not> thread_mlfqs s2 \<and> intr_on s2 \<and> ticks s2 = 0 \<and> sleeping_list s2 = [1] \<and> wakeup_tick (thread_at s2 1) = 1" by blast
  have "kstep ?b s1" by (rule kstep.call [OF _ _ s(1)]) simp_all
  then have "reachable False s2" using reachable.step [OF reachable.step [OF reachable_booted]] kstep.run [OF s(2)] by blast
  then show ?thesis using s(3) by blast
qed

theorem sleepers_wake_on_time_witness:
  "\<exists>s s'. reachable False s \<and> sleeping_list s = [1] \<and> timer_interrupt ((push IntrReturn (s\<lparr>intr_on := False\<rparr>))
     \<lparr>in_external_intr := True, yield_on_return := False\<rparr>) = Some s' \<and> 1 \<in> set (ready_list s') \<and> set (sleeping_list s') = {}"
proof -
  obtain s where s: "reachable False s" "\<not> thread_mlfqs s" "intr_on s" "ticks s = 0" "sleeping_list s = [1]" "wakeup_tick (thread_at s 1) = 1"
    using reachable_sleeping by blast
  let ?i = "(push IntrReturn (s\<lparr>intr_on := False\<rparr>))\<lparr>in_external_intr := True, yield_on_return := False\<rparr>"
  have "\<exists>s'. timer_interrupt ?i = Some s' \<and> 1 \<in> set (ready_list s') \<and> set (sleeping_list s') = {}"
    using sleepers_wake_on_time [OF s(1)] s(2-6) by (auto cong: conj_cong)
  then show ?thesis using s(1,5) by blast
qed

end
