(* ===== verification/Priority_Donation.thy ===== *)
theory Priority_Donation
  imports Kernel_Safety
begin

text \<open>
  Priority donation (the loop of \<open>lock_acquire\<close> in \<open>src/pintos/src/threads/synch.c\<close>) against the chain of threads
  that wait for each other, and the choice of the thread that \<open>sema_up\<close> wakes.
\<close>

section \<open>Donation\<close>

text \<open>The threads that \<open>t\<close> waits for, through at most \<open>d\<close> locks.\<close>

fun wait_chain :: "nat \<Rightarrow> nat \<Rightarrow> kernel \<Rightarrow> nat list" where
  "wait_chain 0 t s = []"
| "wait_chain (Suc d) t s = (
     case waiting_lock (thread_at s t) of
       None \<Rightarrow> []
     | Some l \<Rightarrow> (case holder (lock_at s l) of None \<Rightarrow> [] | Some h \<Rightarrow> h # wait_chain d h s))"

lemma donate_simps [simp]:
  "priority (thread_at (donate h p s) u) = (if u = h then max (priority (thread_at s u)) p else priority (thread_at s u))"
  "waiting_lock (thread_at (donate h p s) u) = waiting_lock (thread_at s u)" "lock_at (donate h p s) = lock_at s"
  by (simp_all add: donate_def modify_thread_def)

lemma modify_lock_at [simp]:
  "thread_at (modify_lock l f s) = thread_at s" "lock_at (modify_lock l f s) k = (if k = l then f (lock_at s l) else lock_at s k)"
  by (simp_all add: modify_lock_def)

lemma wait_chain_cong:
  assumes "\<And>u. waiting_lock (thread_at s' u) = waiting_lock (thread_at s u)" "\<And>l. holder (lock_at s' l) = holder (lock_at s l)"
  shows "wait_chain d t s' = wait_chain d t s"
  using assms by (induction d arbitrary: t) (auto split: option.split)

lemma wait_chain_donate [simp]:
  "wait_chain d t (donate h p (modify_lock l (max_priority_update f) s)) = wait_chain d t s"
  by (rule wait_chain_cong) simp_all

text \<open>One lock of the chain.\<close>

definition hop :: "nat \<Rightarrow> nat \<Rightarrow> nat \<Rightarrow> kernel \<Rightarrow> kernel" where
  "hop t l h s = donate h (priority (thread_at s t))
     (modify_lock l (max_priority_update (\<lambda>m. max m (priority (thread_at s t)))) s)"

lemma hop_simps [simp]:
  "priority (thread_at (hop t l h s) u) =
     (if u = h then max (priority (thread_at s u)) (priority (thread_at s t)) else priority (thread_at s u))"
  "u \<noteq> h \<Longrightarrow> thread_at (hop t l h s) u = thread_at s u" "wait_chain d v (hop t l h s) = wait_chain d v s"
  by (simp_all add: hop_def) (simp add: donate_def modify_thread_def)

lemma donate_chain_cases:
  obtains (hop) l h where "waiting_lock (thread_at s t) = Some l" "holder (lock_at s l) = Some h"
      "donate_chain (Suc d) t s = donate_chain d h (hop t l h s)" "wait_chain (Suc d) t s = h # wait_chain d h s"
  | (stop) "thread_at (donate_chain (Suc d) t s) = thread_at s" "wait_chain (Suc d) t s = []"
  by (cases "waiting_lock (thread_at s t)"; cases "holder (lock_at s (the (waiting_lock (thread_at s t))))")
     (simp_all add: Let_def hop_def)

lemma donate_chain_mono: "priority (thread_at s u) \<le> priority (thread_at (donate_chain d t s) u)"
proof (induction d arbitrary: t s)
  case (Suc d)
  show ?case
  proof (cases rule: donate_chain_cases [of s t d])
    case (hop l h)
    then show ?thesis using Suc [of "hop t l h s" h] by (auto split: if_splits)
  qed simp
qed simp

lemma donate_chain_reaches:
  "u \<in> set (wait_chain d t s) \<Longrightarrow> priority (thread_at s t) \<le> priority (thread_at (donate_chain d t s) u)"
proof (induction d arbitrary: t s)
  case (Suc d)
  show ?case
  proof (cases rule: donate_chain_cases [of s t d])
    case (hop l h)
    have "u = h \<or> u \<in> set (wait_chain d h s)" using Suc.prems unfolding hop(4) by simp
    then have "priority (thread_at (hop t l h s) h) \<le> priority (thread_at (donate_chain d h (hop t l h s)) u)"
      using Suc.IH [of h "hop t l h s"] donate_chain_mono [of "hop t l h s" h d h] by auto
    then show ?thesis using hop(3) by simp
  qed (use Suc.prems in simp)
qed simp

lemma donate_chain_other:
  "u \<notin> set (wait_chain d t s) \<Longrightarrow> thread_at (donate_chain d t s) u = thread_at s u"
proof (induction d arbitrary: t s)
  case (Suc d)
  show ?case
  proof (cases rule: donate_chain_cases [of s t d])
    case (hop l h)
    then show ?thesis using Suc.IH [of h "hop t l h s"] Suc.prems by simp
  qed simp
qed simp

lemma donate_chain_source: "\<exists>v. priority (thread_at (donate_chain d t s) u) = priority (thread_at s v)"
proof (induction d arbitrary: t s)
  case (Suc d)
  show ?case
  proof (cases rule: donate_chain_cases [of s t d])
    case (hop l h)
    obtain v where "priority (thread_at (donate_chain d h (hop t l h s)) u) = priority (thread_at (hop t l h s) v)"
      using Suc.IH by blast
    then show ?thesis using hop(3) by (auto simp: max_def split: if_splits)
  qed auto
qed auto

text \<open>The state in which \<open>cur\<close> waits for \<open>lock\<close>.\<close>

definition waiting :: "nat \<Rightarrow> nat \<Rightarrow> kernel \<Rightarrow> kernel" where
  "waiting cur lock s = modify_thread cur (waiting_lock_update (\<lambda>_. Some lock)) s"

text \<open>
  (C5) Priority donation: when a thread starts to wait for a lock, every thread it waits for through at most nine locks
  (the holder, the holder of the lock the holder waits for, and so on) gets at least its priority, no thread loses priority, every new
  priority is the priority some thread had, and no other thread is changed.
\<close>

theorem donation_reaches_holders:
  "(\<forall>u \<in> set (wait_chain (Suc MAX_DONATION_DEPTH) cur (waiting cur lock s)).
      priority (thread_at s cur) \<le> priority (thread_at (lock_donate cur lock s) u)) \<and>
    (\<forall>u. priority (thread_at s u) \<le> priority (thread_at (lock_donate cur lock s) u)) \<and>
    (\<forall>u. \<exists>v. priority (thread_at (lock_donate cur lock s) u) = priority (thread_at s v)) \<and>
    (\<forall>u. u \<notin> set (wait_chain (Suc MAX_DONATION_DEPTH) cur (waiting cur lock s)) \<longrightarrow>
      thread_at (lock_donate cur lock s) u = thread_at (waiting cur lock s) u)"
proof -
  let ?w = "waiting cur lock s"
  have w: "waiting_lock (thread_at ?w cur) = Some lock" "\<And>u. priority (thread_at ?w u) = priority (thread_at s u)"
    by (simp_all add: waiting_def modify_thread_def)
  show ?thesis
  proof (cases "holder (lock_at s lock)")
    case None
    then have "lock_donate cur lock s = ?w" "holder (lock_at ?w lock) = None"
      by (simp_all add: lock_donate_def waiting_def Let_def)
    moreover from this have "wait_chain (Suc MAX_DONATION_DEPTH) cur ?w = []" using w(1) by (simp only: wait_chain.simps option.case)
    ultimately show ?thesis using w(2) by auto
  next
    case (Some h)
    then have st: "donate_chain (Suc d) cur ?w = donate_chain d h (donate h (priority (thread_at s cur))
        (modify_lock lock (max_priority_update (\<lambda>m. max m (priority (thread_at s cur)))) ?w))" for d
      using w by (simp add: Let_def) (simp add: waiting_def)
    have e: "lock_donate cur lock s = donate_chain (Suc MAX_DONATION_DEPTH) cur ?w"
      unfolding st using Some w(2) by (simp add: lock_donate_def waiting_def Let_def)
    show ?thesis
      using donate_chain_reaches [of _ "Suc MAX_DONATION_DEPTH" cur ?w] donate_chain_mono [of ?w _ "Suc MAX_DONATION_DEPTH" cur]
        donate_chain_source [of "Suc MAX_DONATION_DEPTH" cur ?w] donate_chain_other [of _ "Suc MAX_DONATION_DEPTH" cur ?w]
      unfolding w(2) e by blast
  qed
qed

theorem donation_reaches_holders_witness:
  "\<exists>s. lock_at s 5 = \<lparr>holder = Some 2, max_priority = 0\<rparr> \<and> priority (thread_at s 1) = 31 \<and> priority (thread_at s 2) = 0 \<and>
     31 \<le> priority (thread_at (lock_donate 1 5 s) 2)"
proof -
  let ?s = "(booted False (\<lambda>_. 1))\<lparr>lock_at := (\<lambda>_. \<lparr>holder = Some 2, max_priority = 0\<rparr>)\<rparr>"
  have "2 \<in> set (wait_chain (Suc d) 1 (waiting 1 5 ?s))" for d
    by (simp add: waiting_def modify_thread_def booted_def)
  from this [of MAX_DONATION_DEPTH] have "priority (thread_at ?s 1) \<le> priority (thread_at (lock_donate 1 5 ?s) 2)"
    using donation_reaches_holders [of 1 5 ?s] by blast
  then show ?thesis by (intro exI [of _ ?s]) (simp add: main_thread_def)
qed

text \<open>
  (C7) \<open>sema_up\<close> wakes a waiting thread of the highest effective priority: it leaves the waiting list, becomes ready and is in the ready list.
\<close>

theorem sema_wake_highest:
  assumes "reachable mlfqs s" "waiters (sema_at s sema) \<noteq> []"
  shows "\<exists>t s'. sema_wake sema (s\<lparr>intr_on := False\<rparr>) = Some s' \<and> t \<in> set (waiters (sema_at s sema)) \<and>
    (\<forall>u \<in> set (waiters (sema_at s sema)). priority (thread_at s u) \<le> priority (thread_at s t)) \<and>
    status (thread_at s' t) = THREAD_READY \<and> set (ready_list s') = insert t (set (ready_list s)) \<and>
    set (waiters (sema_at s' sema)) = set (waiters (sema_at s sema)) - {t}"
proof -
  note k = reachable_inv [OF assms(1)]
  note q = sched_invD(2) [OF kernel_invD(1) [OF k(1)], unfolded queues_def]
  let ?w = "sort_by_priority s (waiters (sema_at s sema))"
  obtain t ts where w: "?w = t # ts" using assms(2) by (cases ?w) auto
  have m: "set (waiters (sema_at s sema)) = insert t (set ts)" using arg_cong [OF w, of set] by simp
  have d: "distinct (t # ts)" using arg_cong [OF w, of distinct] q by simp
  have "sorted (map (\<lambda>t. - priority (thread_at s t)) (t # ts))" using w by (metis sort_by_priority_def sorted_sort_key)
  then have top: "\<forall>u \<in> set (waiters (sema_at s sema)). priority (thread_at s u) \<le> priority (thread_at s t)" using m by auto
  have b: "blocked s t" using q m by blast
  have "sort_by_priority (s\<lparr>intr_on := False\<rparr>) (waiters (sema_at s sema)) = t # ts" using w by (simp add: sort_by_priority_def)
  then have "\<exists>s'. sema_wake sema (s\<lparr>intr_on := False\<rparr>) = Some s' \<and> status (thread_at s' t) = THREAD_READY \<and>
    set (ready_list s') = insert t (set (ready_list s)) \<and> waiters (sema_at s' sema) = ts"
    using assms(2) b kernel_invD(2) [OF k(1)]
    by (simp add: sema_wake_def kernel_defs blocked_def live_def)
  then show ?thesis using top m d by auto
qed

lemma reachable_waiting: "\<exists>s. reachable False s \<and> waiters (sema_at s (Sema 0)) = [1]"
proof -
  let ?b = "booted False (\<lambda>_. 1)"
  have "\<exists>s1. perform (CallSemaDown 0) ?b = Some s1 \<and> waiters (sema_at s1 (Sema 0)) = [1]"
    by (simp add: boot_defs booted_def main_thread_def)
  then obtain s1 where s: "perform (CallSemaDown 0) ?b = Some s1" "waiters (sema_at s1 (Sema 0)) = [1]" by blast
  have "kstep ?b s1" by (rule kstep.call [OF _ _ s(1)]) simp_all
  then show ?thesis using reachable.step [OF reachable_booted] s(2) by blast
qed

theorem sema_wake_highest_witness:
  "\<exists>s s'. reachable False s \<and> waiters (sema_at s (Sema 0)) = [1] \<and>
     sema_wake (Sema 0) (s\<lparr>intr_on := False\<rparr>) = Some s' \<and> 1 \<in> set (ready_list s')"
proof -
  obtain s where s: "reachable False s" "waiters (sema_at s (Sema 0)) = [1]" using reachable_waiting by blast
  have "\<exists>s'. sema_wake (Sema 0) (s\<lparr>intr_on := False\<rparr>) = Some s' \<and> 1 \<in> set (ready_list s')"
    using sema_wake_highest [OF s(1), of "Sema 0"] s(2) by auto
  then show ?thesis using s by blast
qed

end
