(* ===== verification/Intq.thy ===== *)
theory Intq
  imports Kernel_Safety
begin

text \<open>
  The interrupt queue of \<open>src/pintos/src/devices/intq.c\<close>, a circular buffer of bytes shared by threads and
  interrupt handlers, and the input buffer \<open>src/pintos/src/devices/input.c\<close> that uses it.

  The functions work on the queue and on the state of the thread system: they wake the thread that waits for the queue.
  \<open>intq_getc\<close> and \<open>intq_putc\<close> loop until the queue is not empty or not full; the definition is one iteration of the loop,
  with the result \<^term>\<open>None\<close> when the thread has to go on with \<open>lock_acquire\<close> and \<open>intq_wait\<close>.

  The queue is shown to be a first-in first-out queue of at most 63 bytes.
\<close>

section \<open>The queue\<close>

abbreviation (input) INTQ_BUFSIZE :: nat where "INTQ_BUFSIZE \<equiv> 64"

record intq =
  not_full :: "nat option"
  not_empty :: "nat option"
  buf :: "u8 list"
  head :: nat
  tail :: nat

definition intq_next :: "nat \<Rightarrow> nat" where
  "intq_next p = (p + 1) mod INTQ_BUFSIZE"

definition intq_init :: "intq \<Rightarrow> intq" where
  "intq_init q = q\<lparr>not_full := None, not_empty := None, head := 0, tail := 0\<rparr>"

definition intq_empty :: "intq \<Rightarrow> kernel \<Rightarrow> bool option" where
  "intq_empty q s = do {
     ASSERT (\<not> intr_get_level s);
     Some (head q = tail q)
   }"

definition intq_full :: "intq \<Rightarrow> kernel \<Rightarrow> bool option" where
  "intq_full q s = do {
     ASSERT (\<not> intr_get_level s);
     Some (intq_next (head q) = tail q)
   }"

text \<open>The two members of the queue that hold a waiting thread.\<close>

datatype waiter_member = NotEmpty | NotFull

definition intq_wait :: "intq \<Rightarrow> waiter_member \<Rightarrow> kernel \<Rightarrow> (intq \<times> kernel) option" where
  "intq_wait q w s = do {
     ASSERT (\<not> intr_context s);
     ASSERT (\<not> intr_get_level s);
     empty \<leftarrow> intq_empty q s;
     full \<leftarrow> intq_full q s;
     ASSERT (w = NotEmpty \<and> empty \<or> w = NotFull \<and> full);
     cur \<leftarrow> thread_current s;
     let q = (case w of NotEmpty \<Rightarrow> q\<lparr>not_empty := Some cur\<rparr> | NotFull \<Rightarrow> q\<lparr>not_full := Some cur\<rparr>);
     s \<leftarrow> thread_block s;
     Some (q, s)
   }"

definition intq_signal :: "intq \<Rightarrow> waiter_member \<Rightarrow> kernel \<Rightarrow> (intq \<times> kernel) option" where
  "intq_signal q w s = do {
     ASSERT (\<not> intr_get_level s);
     empty \<leftarrow> intq_empty q s;
     full \<leftarrow> intq_full q s;
     ASSERT (w = NotEmpty \<and> \<not> empty \<or> w = NotFull \<and> \<not> full);
     case (case w of NotEmpty \<Rightarrow> not_empty q | NotFull \<Rightarrow> not_full q) of
       None \<Rightarrow> Some (q, s)
     | Some t \<Rightarrow> do {
         s \<leftarrow> thread_unblock t s;
         Some (case w of NotEmpty \<Rightarrow> q\<lparr>not_empty := None\<rparr> | NotFull \<Rightarrow> q\<lparr>not_full := None\<rparr>, s)
       }
   }"

definition intq_getc :: "intq \<Rightarrow> kernel \<Rightarrow> (u8 option \<times> intq \<times> kernel) option" where
  "intq_getc q s = do {
     ASSERT (\<not> intr_get_level s);
     empty \<leftarrow> intq_empty q s;
     if empty then do {
       ASSERT (\<not> intr_context s);
       Some (None, q, s)
     } else do {
       ASSERT (tail q < length (buf q));
       let byte = buf q ! tail q;
       let q = q\<lparr>tail := intq_next (tail q)\<rparr>;
       (q, s) \<leftarrow> intq_signal q NotFull s;
       Some (Some byte, q, s)
     }
   }"

definition intq_putc :: "intq \<Rightarrow> u8 \<Rightarrow> kernel \<Rightarrow> (bool \<times> intq \<times> kernel) option" where
  "intq_putc q byte s = do {
     ASSERT (\<not> intr_get_level s);
     full \<leftarrow> intq_full q s;
     if full then do {
       ASSERT (\<not> intr_context s);
       Some (False, q, s)
     } else do {
       ASSERT (head q < length (buf q));
       let q = q\<lparr>buf := (buf q)[head q := byte]\<rparr>;
       let q = q\<lparr>head := intq_next (head q)\<rparr>;
       (q, s) \<leftarrow> intq_signal q NotEmpty s;
       Some (True, q, s)
     }
   }"

section \<open>The input buffer\<close>

text \<open>
  The last call of \<open>input_putc\<close> and \<open>input_getc\<close>, \<open>serial_notify\<close>, asks the serial port to interrupt when there is room
  for input; it is a parameter.
\<close>

definition input_init :: "intq \<Rightarrow> intq" where
  "input_init buffer = intq_init buffer"

definition input_putc :: "(kernel \<Rightarrow> kernel) \<Rightarrow> intq \<Rightarrow> u8 \<Rightarrow> kernel \<Rightarrow> (intq \<times> kernel) option" where
  "input_putc serial_notify buffer key s = do {
     ASSERT (\<not> intr_get_level s);
     full \<leftarrow> intq_full buffer s;
     ASSERT (\<not> full);
     (_, buffer, s) \<leftarrow> intq_putc buffer key s;
     Some (buffer, serial_notify s)
   }"

definition input_getc :: "(kernel \<Rightarrow> kernel) \<Rightarrow> intq \<Rightarrow> kernel \<Rightarrow> (u8 option \<times> intq \<times> kernel) option" where
  "input_getc serial_notify buffer s = do {
     let (old_level, s) = intr_disable s;
     (key, buffer, s) \<leftarrow> intq_getc buffer s;
     case key of
       None \<Rightarrow> Some (None, buffer, s)
     | Some key \<Rightarrow> do {
         let s = serial_notify s;
         s \<leftarrow> intr_set_level old_level s;
         Some (Some key, buffer, s)
       }
   }"

definition input_full :: "intq \<Rightarrow> kernel \<Rightarrow> bool option" where
  "input_full buffer s = do {
     ASSERT (\<not> intr_get_level s);
     intq_full buffer s
   }"

section \<open>The bytes in the queue\<close>

definition wf_intq :: "intq \<Rightarrow> bool" where
  "wf_intq q \<longleftrightarrow> length (buf q) = INTQ_BUFSIZE \<and> head q < INTQ_BUFSIZE \<and> tail q < INTQ_BUFSIZE"

definition fill :: "intq \<Rightarrow> nat" where
  "fill q = (head q + INTQ_BUFSIZE - tail q) mod INTQ_BUFSIZE"

definition contents :: "intq \<Rightarrow> u8 list" where
  "contents q = map (\<lambda>i. buf q ! ((tail q + i) mod INTQ_BUFSIZE)) [0..<fill q]"

text \<open>The threads that wait for the queue, if any, are blocked threads.\<close>

definition wf_waiters :: "intq \<Rightarrow> kernel \<Rightarrow> bool" where
  "wf_waiters q s \<longleftrightarrow> (\<forall>t. not_full q = Some t \<or> not_empty q = Some t \<longrightarrow> blocked s t) \<and> \<not> (not_full q \<noteq> None \<and> not_full q = not_empty q)"

lemma length_contents [simp]: "length (contents q) = fill q"
  by (simp add: contents_def)

lemma contents_waiters [simp]:
  "contents (q\<lparr>not_full := w\<rparr>) = contents q" "contents (q\<lparr>not_empty := w\<rparr>) = contents q"
  "wf_intq (q\<lparr>not_full := w\<rparr>) = wf_intq q" "wf_intq (q\<lparr>not_empty := w\<rparr>) = wf_intq q"
  by (simp_all add: contents_def fill_def wf_intq_def)

lemma nth_contents: "i < fill q \<Longrightarrow> contents q ! i = buf q ! ((tail q + i) mod INTQ_BUFSIZE)"
  by (simp add: contents_def)

lemma next_cases: "i < INTQ_BUFSIZE \<Longrightarrow> intq_next i = (if i = 63 then 0 else i + 1)"
  by (simp add: intq_next_def)

lemma fill_cases: "wf_intq q \<Longrightarrow> fill q = (if tail q \<le> head q then head q - tail q else head q + INTQ_BUFSIZE - tail q)"
  by (auto simp: fill_def wf_intq_def mod_if)

lemma fill_less: "fill q < INTQ_BUFSIZE"
  by (simp add: fill_def)

lemma fill_empty: "wf_intq q \<Longrightarrow> head q = tail q \<longleftrightarrow> fill q = 0"
  by (auto simp: fill_cases wf_intq_def)

lemma fill_full: "wf_intq q \<Longrightarrow> intq_next (head q) = tail q \<longleftrightarrow> fill q = 63"
  by (auto simp: fill_cases wf_intq_def next_cases split: if_splits)

lemma get_contents:
  assumes wf: "wf_intq q" and ne: "fill q \<noteq> 0"
  shows "buf q ! tail q = hd (contents q)" "contents (q\<lparr>tail := intq_next (tail q)\<rparr>) = tl (contents q)"
    "wf_intq (q\<lparr>tail := intq_next (tail q)\<rparr>)" "fill (q\<lparr>tail := intq_next (tail q)\<rparr>) = fill q - 1"
proof -
  have u: "[0..<fill q] = 0 # [1..<fill q]" using ne by (simp add: upt_conv_Cons)
  show "buf q ! tail q = hd (contents q)" using wf by (simp add: contents_def u wf_intq_def)
  show w: "wf_intq (q\<lparr>tail := intq_next (tail q)\<rparr>)" using wf by (simp add: wf_intq_def intq_next_def)
  show f: "fill (q\<lparr>tail := intq_next (tail q)\<rparr>) = fill q - 1"
    using wf ne fill_cases [OF wf] fill_cases [OF w] by (auto simp: wf_intq_def next_cases)
  show "contents (q\<lparr>tail := intq_next (tail q)\<rparr>) = tl (contents q)"
    by (rule nth_equalityI) (use f in \<open>simp_all add: nth_contents nth_tl intq_next_def mod_simps\<close>)
qed

lemma put_contents:
  assumes wf: "wf_intq q" and nf: "fill q \<noteq> 63"
    and q'_def: "q' = q\<lparr>buf := (buf q)[head q := byte], head := intq_next (head q)\<rparr>"
  shows "contents q' = contents q @ [byte]" "wf_intq q'" "fill q' = fill q + 1"
proof -
  show w: "wf_intq q'" using wf by (simp add: q'_def wf_intq_def intq_next_def)
  show f: "fill q' = fill q + 1"
    using wf nf fill_cases [OF wf] fill_cases [OF w] by (auto simp: q'_def wf_intq_def next_cases)
  have h: "(tail q + i) mod INTQ_BUFSIZE = head q \<longleftrightarrow> i = fill q" if "i < INTQ_BUFSIZE" for i
    using wf that fill_cases [OF wf] by (auto simp: wf_intq_def mod_if)
  show "contents q' = contents q @ [byte]"
  proof (rule nth_equalityI)
    fix i assume "i < length (contents q')"
    then have i: "i < fill q + 1" "i < INTQ_BUFSIZE" using f fill_less [of q'] by simp_all
    then have "contents q' ! i = (buf q)[head q := byte] ! ((tail q + i) mod INTQ_BUFSIZE)"
      using f nth_contents [of i q'] by (simp add: q'_def)
    also have "\<dots> = (contents q @ [byte]) ! i"
      using i h [OF i(2)] wf by (auto simp: nth_contents nth_append wf_intq_def nth_list_update)
    finally show "contents q' ! i = (contents q @ [byte]) ! i" .
  qed (simp add: f)
qed

section \<open>The operations\<close>

text \<open>The state after the thread waiting for the condition, if any, has been woken.\<close>

definition woken :: "nat option \<Rightarrow> kernel \<Rightarrow> kernel" where
  "woken w s = (case w of None \<Rightarrow> s | Some t \<Rightarrow> unblocked t s)"

definition running_off :: "kernel \<Rightarrow> bool" where
  "running_off s \<longleftrightarrow> \<not> intr_on s \<and> magic (thread_at s (current s)) \<and> status (thread_at s (current s)) = THREAD_RUNNING"

lemma intq_signal_eq:
  assumes "wf_intq q" "running_off s" "wf_waiters q s"
  shows "fill q \<noteq> 63 \<Longrightarrow> intq_signal q NotFull s = Some (q\<lparr>not_full := None\<rparr>, woken (not_full q) s)"
    "fill q \<noteq> 0 \<Longrightarrow> intq_signal q NotEmpty s = Some (q\<lparr>not_empty := None\<rparr>, woken (not_empty q) s)"
  using assms fill_empty [OF assms(1)] fill_full [OF assms(1)]
  by (auto simp: intq_signal_def intq_empty_def intq_full_def intr_get_level_def running_off_def wf_waiters_def
      woken_def thread_unblock_eq split: option.splits)

lemma intq_getc_eq:
  assumes "wf_intq q" "running_off s" "wf_waiters q s"
  shows "contents q = [] \<Longrightarrow> \<not> intr_context s \<Longrightarrow> intq_getc q s = Some (None, q, s)"
    "contents q = b # bs \<Longrightarrow> \<exists>q'. intq_getc q s = Some (Some b, q', woken (not_full q) s) \<and> wf_intq q' \<and> contents q' = bs \<and>
       not_full q' = None \<and> not_empty q' = not_empty q"
proof -
  have e: "contents q = [] \<longleftrightarrow> fill q = 0" by (metis length_contents length_0_conv)
  have off: "\<not> intr_on s" using assms(2) by (simp add: running_off_def)
  show "contents q = [] \<Longrightarrow> \<not> intr_context s \<Longrightarrow> intq_getc q s = Some (None, q, s)"
    using e fill_empty [OF assms(1)] off by (simp add: intq_getc_def intq_empty_def intr_get_level_def)
  assume c: "contents q = b # bs"
  then have ne: "fill q \<noteq> 0" using e by auto
  note g = get_contents [OF assms(1) ne]
  let ?q = "q\<lparr>tail := intq_next (tail q)\<rparr>"
  have "wf_waiters ?q s" using assms(3) by (simp add: wf_waiters_def)
  moreover have "fill ?q \<noteq> 63" using g(4) ne fill_less [of q] by simp
  ultimately have "intq_signal ?q NotFull s = Some (?q\<lparr>not_full := None\<rparr>, woken (not_full ?q) s)"
    using intq_signal_eq(1) [OF g(3) assms(2)] by blast
  moreover have "tail q < length (buf q)" using assms(1) by (simp add: wf_intq_def)
  ultimately show "\<exists>q'. intq_getc q s = Some (Some b, q', woken (not_full q) s) \<and> wf_intq q' \<and> contents q' = bs \<and>
       not_full q' = None \<and> not_empty q' = not_empty q"
    using g c ne fill_empty [OF assms(1)] off by (simp add: intq_getc_def intq_empty_def intr_get_level_def)
qed

lemma intq_putc_eq:
  assumes "wf_intq q" "running_off s" "wf_waiters q s"
  shows "length (contents q) = 63 \<Longrightarrow> \<not> intr_context s \<Longrightarrow> intq_putc q b s = Some (False, q, s)"
    "length (contents q) \<noteq> 63 \<Longrightarrow> \<exists>q'. intq_putc q b s = Some (True, q', woken (not_empty q) s) \<and> wf_intq q' \<and>
       contents q' = contents q @ [b] \<and> not_empty q' = None \<and> not_full q' = not_full q"
proof -
  have off: "\<not> intr_on s" using assms(2) by (simp add: running_off_def)
  show "length (contents q) = 63 \<Longrightarrow> \<not> intr_context s \<Longrightarrow> intq_putc q b s = Some (False, q, s)"
    using fill_full [OF assms(1)] off by (simp add: intq_putc_def intq_full_def intr_get_level_def)
  assume "length (contents q) \<noteq> 63"
  then have nf: "fill q \<noteq> 63" by simp
  let ?q = "q\<lparr>buf := (buf q)[head q := b], head := intq_next (head q)\<rparr>"
  note g = put_contents [OF assms(1) nf refl, of b]
  have "wf_waiters ?q s" using assms(3) by (simp add: wf_waiters_def)
  moreover have "fill ?q \<noteq> 0" using g(3) by simp
  ultimately have "intq_signal ?q NotEmpty s = Some (?q\<lparr>not_empty := None\<rparr>, woken (not_empty ?q) s)"
    using intq_signal_eq(2) [OF g(2) assms(2)] by blast
  moreover have "head q < length (buf q)" using assms(1) by (simp add: wf_intq_def)
  ultimately show "\<exists>q'. intq_putc q b s = Some (True, q', woken (not_empty q) s) \<and> wf_intq q' \<and>
       contents q' = contents q @ [b] \<and> not_empty q' = None \<and> not_full q' = not_full q"
    using g nf fill_full [OF assms(1)] off by (simp add: intq_putc_def intq_full_def intr_get_level_def)
qed

section \<open>First in, first out\<close>

text \<open>
  Requests to a bounded queue, and how a queue whose operations are \<open>put\<close> and \<open>get\<close> serves them; a request that cannot be served now is
  refused and leaves the queue as it is.
\<close>

datatype 'b queue_op = Put 'b | Get

fun fifo_run :: "nat \<Rightarrow> 'b queue_op list \<Rightarrow> 'b list \<Rightarrow> 'b option list \<times> 'b list" where
  "fifo_run cap [] xs = ([], xs)"
| "fifo_run cap (Put b # ops) xs = fifo_run cap ops (if length xs < cap then xs @ [b] else xs)"
| "fifo_run cap (Get # ops) xs = (
     let (out, ys) = fifo_run cap ops (tl xs) in ((if xs = [] then None else Some (hd xs)) # out, ys))"

fun queue_run :: "('q \<Rightarrow> 'b \<Rightarrow> (bool \<times> 'q) option) \<Rightarrow> ('q \<Rightarrow> ('b option \<times> 'q) option) \<Rightarrow> 'b queue_op list \<Rightarrow> 'q \<Rightarrow>
    ('b option list \<times> 'q) option" where
  "queue_run put get [] q = Some ([], q)"
| "queue_run put get (Put b # ops) q = do { (_, q) \<leftarrow> put q b; queue_run put get ops q }"
| "queue_run put get (Get # ops) q = do {
     (r, q) \<leftarrow> get q;
     (out, q) \<leftarrow> queue_run put get ops q;
     Some (r # out, q)
   }"

locale bounded_queue =
  fixes put :: "'q \<Rightarrow> 'b \<Rightarrow> (bool \<times> 'q) option"
    and get :: "'q \<Rightarrow> ('b option \<times> 'q) option"
    and wf :: "'q \<Rightarrow> bool"
    and items :: "'q \<Rightarrow> 'b list"
    and cap :: nat
  assumes put_ok: "wf q \<Longrightarrow> \<exists>q'. put q b = Some (length (items q) < cap, q') \<and> wf q' \<and>
      items q' = (if length (items q) < cap then items q @ [b] else items q)"
    and get_ok: "wf q \<Longrightarrow> \<exists>q'. get q = Some (if items q = [] then None else Some (hd (items q)), q') \<and> wf q' \<and> items q' = tl (items q)"
begin

lemma run_fifo:
  "wf q \<Longrightarrow> \<exists>q'. queue_run put get ops q = Some (fst (fifo_run cap ops (items q)), q') \<and> wf q' \<and>
     items q' = snd (fifo_run cap ops (items q))"
proof (induction ops arbitrary: q)
  case (Cons c ops)
  show ?case
  proof (cases c)
    case (Put b)
    obtain q1 where q1: "put q b = Some (length (items q) < cap, q1)" "wf q1"
      "items q1 = (if length (items q) < cap then items q @ [b] else items q)"
      using put_ok [OF Cons.prems] by blast
    then show ?thesis using Cons.IH [OF q1(2)] Put by simp
  next
    case Get
    obtain q1 where q1: "get q = Some (if items q = [] then None else Some (hd (items q)), q1)" "wf q1" "items q1 = tl (items q)"
      using get_ok [OF Cons.prems] by blast
    then show ?thesis using Cons.IH [OF q1(2)] Get by (auto simp: Let_def split: prod.splits)
  qed
qed simp

end

text \<open>An interrupt queue no thread waits for, with interrupts off.\<close>

definition unattended :: "intq \<times> kernel \<Rightarrow> bool" where
  "unattended p \<longleftrightarrow> (case p of (q, s) \<Rightarrow> wf_intq q \<and> not_full q = None \<and> not_empty q = None \<and> running_off s \<and> \<not> intr_context s)"

definition intq_put :: "intq \<times> kernel \<Rightarrow> u8 \<Rightarrow> (bool \<times> intq \<times> kernel) option" where
  "intq_put p b = (case p of (q, s) \<Rightarrow> intq_putc q b s)"

definition intq_get :: "intq \<times> kernel \<Rightarrow> (u8 option \<times> intq \<times> kernel) option" where
  "intq_get p = (case p of (q, s) \<Rightarrow> intq_getc q s)"

interpretation intq_queue: bounded_queue intq_put intq_get unattended "\<lambda>p. contents (fst p)" 63
proof (unfold_locales, goal_cases)
  case (1 p b)
  obtain q s where p: "p = (q, s)" by fastforce
  have u: "wf_intq q" "running_off s" "wf_waiters q s" "\<not> intr_context s" "not_full q = None" "not_empty q = None"
    using 1 by (auto simp: p unattended_def wf_waiters_def)
  show ?case
    using intq_putc_eq [OF u(1-3), of b] u fill_less [of q]
    by (cases "fill q = 63") (auto simp: p intq_put_def unattended_def woken_def)
next
  case (2 p)
  obtain q s where p: "p = (q, s)" by fastforce
  have u: "wf_intq q" "running_off s" "wf_waiters q s" "\<not> intr_context s" "not_full q = None" "not_empty q = None"
    using 2 by (auto simp: p unattended_def wf_waiters_def)
  show ?case
    using intq_getc_eq [OF u(1-3)] u
    by (cases "contents q") (auto simp: p intq_get_def unattended_def woken_def)
qed



text \<open>
  (C35) A thread that waits for the queue is not forgotten: the byte put by an interrupt handler wakes the waiting reader,
  which is then in the ready list, and the byte is the last of the queue.
\<close>

theorem intq_putc_wakes_reader:
  assumes "wf_intq q" "length (contents q) < 63" "not_empty q = Some t" "not_full q = None" "\<not> intr_on s"
    "is_thread s (Some (current s))" "status (thread_at s (current s)) = THREAD_RUNNING"
    "is_thread s (Some t)" "status (thread_at s t) = THREAD_BLOCKED"
  shows "\<exists>q' s'. intq_putc q b s = Some (True, q', s') \<and> contents q' = contents q @ [b] \<and> not_empty q' = None \<and>
    status (thread_at s' t) = THREAD_READY \<and> set (ready_list s') = insert t (set (ready_list s)) \<and>
    (in_external_intr s \<and> priority (thread_at s (current s)) < priority (thread_at s t) \<longrightarrow> yield_on_return s')"
proof -
  have "running_off s" "wf_waiters q s"
    using assms by (auto simp: running_off_def wf_waiters_def blocked_def live_def is_thread_def)
  from intq_putc_eq(2) [OF assms(1) this, of b] assms(2,3)
  obtain q' where "intq_putc q b s = Some (True, q', unblocked t s)" "contents q' = contents q @ [b]" "not_empty q' = None"
    by (auto simp: woken_def)
  then show ?thesis by (simp add: unblocked_def modify_thread_def insert_by_priority_def)
qed

theorem intq_putc_wakes_reader_witness:
  "\<exists>q' s'. intq_putc \<lparr>not_full = None, not_empty = Some 3, buf = replicate 64 0, head = 5, tail = 5\<rparr> 65
     (modify_thread 3 (\<lambda>_. main_thread\<lparr>status := THREAD_BLOCKED\<rparr>) ((booted False (\<lambda>_. 1))\<lparr>intr_on := False\<rparr>)) = Some (True, q', s') \<and>
     contents q' = [65] \<and> ready_list s' = [3]"
proof -
  let ?q = "\<lparr>not_full = None, not_empty = Some 3, buf = replicate 64 0, head = 5, tail = 5\<rparr>"
  let ?s = "modify_thread 3 (\<lambda>_. main_thread\<lparr>status := THREAD_BLOCKED\<rparr>) ((booted False (\<lambda>_. 1))\<lparr>intr_on := False\<rparr>)"
  have c: "contents ?q = []" by (simp add: contents_def fill_def)
  obtain q' s' where r: "intq_putc ?q 65 ?s = Some (True, q', s')" "contents q' = [65]" "set (ready_list s') = {3}"
    using intq_putc_wakes_reader [of ?q 3 ?s 65] c by (auto simp: wf_intq_def is_thread_def modify_thread_def)
  have "ready_list s' = [3]"
    using r(1) by (simp add: intq_putc_def intq_signal_def intq_full_def intq_empty_def intq_next_def kernel_defs Let_def insert_ordered_def) (auto)
  then show ?thesis using r by blast
qed

end
