(* ===== verification/Block_Device.thy ===== *)
theory Block_Device
  imports Pintos_Prelude
begin

text \<open>
  Block devices (\<open>src/pintos/src/devices/block.c\<close>): the table of devices, and reading and writing of sectors with the
  check of the sector number.  A sector number is a natural number below \<open>2 ^ 32\<close>, a sector a list of 512 bytes.

  The driver of a device, its \<open>ops\<close> and \<open>aux\<close>, is the store of the sectors of the medium: \<open>read\<close> gives the sector last
  written.
\<close>

section \<open>Devices\<close>

abbreviation (input) BLOCK_SECTOR_SIZE :: nat where "BLOCK_SECTOR_SIZE \<equiv> 512"

datatype block_type = BLOCK_KERNEL | BLOCK_FILESYS | BLOCK_SCRATCH | BLOCK_SWAP | BLOCK_RAW | BLOCK_FOREIGN

record block =
  block_name :: string
  type_of_block :: block_type
  block_size :: nat
  medium :: "nat \<Rightarrow> u8 list"
  read_cnt :: nat
  write_cnt :: nat

fun block_type_name :: "block_type \<Rightarrow> string" where
  "block_type_name BLOCK_KERNEL = ''kernel''"
| "block_type_name BLOCK_FILESYS = ''filesys''"
| "block_type_name BLOCK_SCRATCH = ''scratch''"
| "block_type_name BLOCK_SWAP = ''swap''"
| "block_type_name BLOCK_RAW = ''raw''"
| "block_type_name BLOCK_FOREIGN = ''foreign''"

definition has_role :: "block_type \<Rightarrow> bool" where
  "has_role role \<longleftrightarrow> role \<noteq> BLOCK_RAW \<and> role \<noteq> BLOCK_FOREIGN"

definition check_sector :: "block \<Rightarrow> nat \<Rightarrow> unit option" where
  "check_sector b sector = (if block_size b \<le> sector then None else Some ())"

definition block_read :: "block \<Rightarrow> nat \<Rightarrow> (u8 list \<times> block) option" where
  "block_read b sector = do {
     check_sector b sector;
     Some (medium b sector, b\<lparr>read_cnt := (read_cnt b + 1) mod 2 ^ 64\<rparr>)
   }"

definition block_write :: "block \<Rightarrow> nat \<Rightarrow> u8 list \<Rightarrow> block option" where
  "block_write b sector buffer = do {
     check_sector b sector;
     ASSERT (type_of_block b \<noteq> BLOCK_FOREIGN);
     let b = b\<lparr>medium := (medium b)(sector := buffer)\<rparr>;
     Some (b\<lparr>write_cnt := (write_cnt b + 1) mod 2 ^ 64\<rparr>)
   }"

section \<open>The table of devices\<close>

text \<open>A device is known by its position in the list of all devices, which only grows.\<close>

record block_table =
  all_blocks :: "block list"
  block_by_role :: "block_type \<Rightarrow> nat option"

definition block_get_role :: "block_table \<Rightarrow> block_type \<Rightarrow> nat option option" where
  "block_get_role tab role = do { ASSERT (has_role role); Some (block_by_role tab role) }"

definition block_set_role :: "block_table \<Rightarrow> block_type \<Rightarrow> nat option \<Rightarrow> block_table option" where
  "block_set_role tab role blk = do {
     ASSERT (has_role role);
     Some (tab\<lparr>block_by_role := (block_by_role tab)(role := blk)\<rparr>)
   }"

definition block_first :: "block_table \<Rightarrow> nat option" where
  "block_first tab = (if all_blocks tab = [] then None else Some 0)"

definition block_next :: "block_table \<Rightarrow> nat \<Rightarrow> nat option" where
  "block_next tab blk = (if blk + 1 < length (all_blocks tab) then Some (blk + 1) else None)"

fun get_by_name_loop :: "block list \<Rightarrow> nat \<Rightarrow> string \<Rightarrow> nat option" where
  "get_by_name_loop [] i n = None"
| "get_by_name_loop (b # bs) i n = (if n = block_name b then Some i else get_by_name_loop bs (Suc i) n)"

definition block_get_by_name :: "block_table \<Rightarrow> string \<Rightarrow> nat option" where
  "block_get_by_name tab n = get_by_name_loop (all_blocks tab) 0 n"

text \<open>\<open>allocated\<close> is the answer of \<open>malloc\<close>; the name is cut to 15 characters.\<close>

definition block_register :: "block_table \<Rightarrow> bool \<Rightarrow> string \<Rightarrow> block_type \<Rightarrow> nat \<Rightarrow> (nat \<Rightarrow> u8 list) \<Rightarrow> (nat \<times> block_table) option" where
  "block_register tab allocated n type sz ops = do {
     ASSERT allocated;
     let b = \<lparr>block_name = take 15 n, type_of_block = type, block_size = sz, medium = ops, read_cnt = 0, write_cnt = 0\<rparr>;
     Some (length (all_blocks tab), tab\<lparr>all_blocks := all_blocks tab @ [b]\<rparr>)
   }"

section \<open>Reading and writing\<close>

definition wf_block :: "block \<Rightarrow> bool" where
  "wf_block b \<longleftrightarrow> (\<forall>i < block_size b. length (medium b i) = BLOCK_SECTOR_SIZE) \<and> type_of_block b \<noteq> BLOCK_FOREIGN \<and> block_size b < 2 ^ 32"

text \<open>Two states of the same device; only the statistics may differ.\<close>

definition same_medium :: "block \<Rightarrow> block \<Rightarrow> bool" where
  "same_medium a b \<longleftrightarrow> medium a = medium b \<and> block_size a = block_size b \<and> type_of_block a = type_of_block b"

lemma same_medium_refl [simp]: "same_medium b b"
  by (simp add: same_medium_def)

lemma same_medium_trans: "same_medium a b \<Longrightarrow> same_medium b c \<Longrightarrow> same_medium a c"
  by (simp add: same_medium_def)

lemma block_read_eq:
  "sector < block_size b \<Longrightarrow> \<exists>b'. block_read b sector = Some (medium b sector, b') \<and> same_medium b b'"
  by (simp add: block_read_def check_sector_def same_medium_def)

lemma block_write_eq:
  "wf_block b \<Longrightarrow> sector < block_size b \<Longrightarrow> length buffer = BLOCK_SECTOR_SIZE \<Longrightarrow>
   \<exists>b'. block_write b sector buffer = Some b' \<and> wf_block b' \<and> block_size b' = block_size b \<and>
     medium b' = (medium b)(sector := buffer)"
  by (auto simp: block_write_def check_sector_def wf_block_def)

end
