(* ===== verification/Inode.thy ===== *)
theory Inode
  imports Block_Device
begin

text \<open>
  Reading and writing of inodes (\<open>src/pintos/src/filesys/inode.c\<close>): a file is a contiguous group of sectors, and a read or write is
  cut into chunks that lie in one sector each; a chunk that is not a whole sector goes through a bounce buffer.

  An \<open>off_t\<close> is an \<^typ>\<open>int\<close>.  \<open>mem\<close> is the answer of \<open>malloc\<close> for the bounce buffer.  The abstraction of an inode is the list of
  its bytes; reading is shown to deliver a part of that list, and writing to change it in exactly that part.
\<close>

section \<open>Inodes\<close>

abbreviation (input) INODE_MAGIC :: nat where "INODE_MAGIC \<equiv> 0x494e4f44"

record inode_disk =
  start :: nat
  inode_len :: int
  inode_magic :: nat

record inode =
  sector :: nat
  open_cnt :: int
  removed :: bool
  deny_write_cnt :: int
  data :: inode_disk

text \<open>\<open>DIV_ROUND_UP\<close> of an \<open>off_t\<close>: the sum is an \<open>int\<close>, which wraps for the 511 greatest sizes, and the result becomes a \<open>size_t\<close>.\<close>

definition bytes_to_sectors :: "int \<Rightarrow> nat" where
  "bytes_to_sectors n = nat (cdiv (wrap_int (n + int BLOCK_SECTOR_SIZE - 1)) (int BLOCK_SECTOR_SIZE) mod 2 ^ 32)"

definition inode_length :: "inode \<Rightarrow> int" where
  "inode_length ino = inode_len (data ino)"

definition byte_to_sector :: "inode \<Rightarrow> int \<Rightarrow> nat" where
  "byte_to_sector ino p = (
     if p < inode_len (data ino) then nat ((int (start (data ino)) + cdiv p 512) mod 2 ^ 32) else 2 ^ 32 - 1)"

text \<open>The number of bytes of one chunk.\<close>

definition chunk_size :: "inode \<Rightarrow> int \<Rightarrow> int \<Rightarrow> int" where
  "chunk_size ino sz offset = (
     let sector_ofs = cmod offset 512;
         inode_left = inode_length ino - offset;
         sector_left = 512 - sector_ofs;
         min_left = (if inode_left < sector_left then inode_left else sector_left)
     in if sz < min_left then sz else min_left)"

function inode_read_loop :: "bool \<Rightarrow> inode \<Rightarrow> block \<Rightarrow> int \<Rightarrow> int \<Rightarrow> u8 list \<Rightarrow> (u8 list \<times> block) option" where
  "inode_read_loop mem ino dev sz offset buffer = (
     if 0 < sz then
       let sector_idx = byte_to_sector ino offset;
           sector_ofs = cmod offset 512;
           chunk = chunk_size ino sz offset
       in if chunk \<le> 0 then Some (buffer, dev)
          else if sector_ofs = 0 \<and> chunk = 512 then do {
            (bytes, dev) \<leftarrow> block_read dev sector_idx;
            inode_read_loop mem ino dev (sz - chunk) (offset + chunk) (buffer @ bytes)
          }
          else if \<not> mem then Some (buffer, dev)
          else do {
            (bounce, dev) \<leftarrow> block_read dev sector_idx;
            inode_read_loop mem ino dev (sz - chunk) (offset + chunk)
              (buffer @ take (nat chunk) (drop (nat sector_ofs) bounce))
          }
     else Some (buffer, dev))"
  by pat_completeness auto
termination
  by (relation "measure (\<lambda>(mem, ino, dev, sz, offset, buffer). nat sz)") auto

text \<open>The bytes read, whose number is the value the function returns.\<close>

definition inode_read_at :: "bool \<Rightarrow> inode \<Rightarrow> block \<Rightarrow> int \<Rightarrow> int \<Rightarrow> (u8 list \<times> block) option" where
  "inode_read_at mem ino dev sz offset = inode_read_loop mem ino dev sz offset []"

definition blend :: "u8 list \<Rightarrow> nat \<Rightarrow> u8 list \<Rightarrow> u8 list" where
  "blend bounce ofs bytes = take ofs bounce @ bytes @ drop (ofs + length bytes) bounce"

function inode_write_loop :: "bool \<Rightarrow> inode \<Rightarrow> block \<Rightarrow> u8 list \<Rightarrow> int \<Rightarrow> int \<Rightarrow> int \<Rightarrow> (int \<times> block) option" where
  "inode_write_loop mem ino dev buffer sz offset written = (
     if 0 < sz then
       let sector_idx = byte_to_sector ino offset;
           sector_ofs = cmod offset 512;
           sector_left = 512 - sector_ofs;
           chunk = chunk_size ino sz offset;
           bytes = take (nat chunk) (drop (nat written) buffer)
       in if chunk \<le> 0 then Some (written, dev)
          else if sector_ofs = 0 \<and> chunk = 512 then do {
            dev \<leftarrow> block_write dev sector_idx bytes;
            inode_write_loop mem ino dev buffer (sz - chunk) (offset + chunk) (written + chunk)
          }
          else if \<not> mem then Some (written, dev)
          else do {
            (bounce, dev) \<leftarrow> (if 0 < sector_ofs \<or> chunk < sector_left then block_read dev sector_idx
                              else Some (replicate BLOCK_SECTOR_SIZE 0, dev));
            dev \<leftarrow> block_write dev sector_idx (blend bounce (nat sector_ofs) bytes);
            inode_write_loop mem ino dev buffer (sz - chunk) (offset + chunk) (written + chunk)
          }
     else Some (written, dev))"
  by pat_completeness auto
termination
  by (relation "measure (\<lambda>(mem, ino, dev, buffer, sz, offset, written). nat sz)") auto

definition inode_write_at :: "bool \<Rightarrow> inode \<Rightarrow> block \<Rightarrow> u8 list \<Rightarrow> int \<Rightarrow> int \<Rightarrow> (int \<times> block) option" where
  "inode_write_at mem ino dev buffer sz offset = (
     if deny_write_cnt ino \<noteq> 0 then Some (0, dev)
     else inode_write_loop mem ino dev buffer sz offset 0)"

definition inode_deny_write :: "inode \<Rightarrow> inode option" where
  "inode_deny_write ino = do {
     let ino = ino\<lparr>deny_write_cnt := deny_write_cnt ino + 1\<rparr>;
     ASSERT (deny_write_cnt ino \<le> open_cnt ino);
     Some ino
   }"

definition inode_allow_write :: "inode \<Rightarrow> inode option" where
  "inode_allow_write ino = do {
     ASSERT (0 < deny_write_cnt ino);
     ASSERT (deny_write_cnt ino \<le> open_cnt ino);
     Some (ino\<lparr>deny_write_cnt := deny_write_cnt ino - 1\<rparr>)
   }"

declare inode_read_loop.simps [simp del] inode_write_loop.simps [simp del]

section \<open>The bytes of an inode\<close>

text \<open>Byte \<open>i\<close> of the group of sectors that begins at \<open>st\<close>.\<close>

definition byte_at :: "block \<Rightarrow> nat \<Rightarrow> nat \<Rightarrow> u8" where
  "byte_at dev st i = medium dev (st + i div BLOCK_SECTOR_SIZE) ! (i mod BLOCK_SECTOR_SIZE)"

definition inode_bytes :: "inode \<Rightarrow> block \<Rightarrow> u8 list" where
  "inode_bytes ino dev = map (byte_at dev (start (data ino))) [0..<nat (inode_length ino)]"

text \<open>An inode whose length is that of a file, and whose sectors lie on the device.\<close>

definition wf_inode :: "inode \<Rightarrow> block \<Rightarrow> bool" where
  "wf_inode ino dev \<longleftrightarrow> 0 \<le> inode_length ino \<and> inode_length ino < 2 ^ 31 \<and> start (data ino) + bytes_to_sectors (inode_length ino) \<le> block_size dev \<and> wf_block dev"

text \<open>The number of bytes that a request reaches.\<close>

definition reach :: "inode \<Rightarrow> nat \<Rightarrow> nat \<Rightarrow> nat" where
  "reach ino n ofs = min n (nat (inode_length ino) - ofs)"

lemma length_inode_bytes [simp]: "length (inode_bytes ino dev) = nat (inode_length ino)"
  by (simp add: inode_bytes_def)

lemma wf_inode_same: "same_medium dev dev' \<Longrightarrow> wf_inode ino dev \<Longrightarrow> wf_inode ino dev'"
  by (simp add: wf_inode_def wf_block_def same_medium_def)

lemma bytes_to_sectors_eq: "bytes_to_sectors n = nat (cdiv (wrap_int (n + 511)) 512 mod 2 ^ 32)"
  by (simp add: bytes_to_sectors_def algebra_simps)

lemma bytes_to_sectors_small:
  assumes "0 \<le> n" "n \<le> 2 ^ 31 - 512"
  shows "bytes_to_sectors n = DIV_ROUND_UP (nat n) BLOCK_SECTOR_SIZE"
proof -
  have w: "wrap_int (n + 511) = n + 511" by (rule wrap_int_id) (use assms in auto)
  have "(n + 511) div 512 < 2 ^ 32" using assms by (simp add: int_div_less_self)
  then have "(n + 511) div 512 mod 2 ^ 32 = (n + 511) div 512" using assms(1) by simp
  moreover have "nat ((n + 511) div 512) = (nat n + 511) div 512" using assms(1) by (simp add: nat_div_distrib nat_add_distrib)
  ultimately show ?thesis using assms(1) w unfolding bytes_to_sectors_eq by (simp add: cdiv_nonneg DIV_ROUND_UP_def add.commute)
qed

lemma bytes_to_sectors_wrap:
  assumes "2 ^ 31 - 512 < n" "n < 2 ^ 31"
  shows "2 ^ 22 \<le> bytes_to_sectors n"
proof -
  have "wrap_int (n + 511) = n + 511 - 2 ^ 32" using assms by (simp add: wrap_int_def mod_pos_geq)
  moreover have "0 < (2 ^ 32 - n - 511) div 512" "(2 ^ 32 - n - 511) div 512 \<le> 2 ^ 23" using assms by auto
  moreover have "(- k) mod 2 ^ 32 = 2 ^ 32 - k" if "0 < k" "k \<le> 2 ^ 23" for k :: int
    using that by (simp add: zmod_zminus1_eq_if)
  ultimately have "bytes_to_sectors n = nat (2 ^ 32 - (2 ^ 32 - n - 511) div 512)" "(2 ^ 32 - n - 511) div 512 \<le> 2 ^ 23"
    using assms unfolding bytes_to_sectors_eq by (simp_all add: cdiv_neg)
  then show ?thesis by simp
qed

text \<open>Every byte of a file lies in one of its sectors.\<close>

lemma sector_of_byte:
  assumes "ofs < nat n" "n < 2 ^ 31"
  shows "ofs div 512 < bytes_to_sectors n"
proof (cases "n \<le> 2 ^ 31 - 512")
  case True
  then show ?thesis using assms DIV_ROUND_UP_ge [of 512 "nat n"] by (simp add: bytes_to_sectors_small less_mult_imp_div_less)
next
  case False
  have "ofs < 2 ^ 22 * 512" using assms by auto
  then have "ofs div 512 < 2 ^ 22" by (rule less_mult_imp_div_less)
  then show ?thesis using bytes_to_sectors_wrap [of n] False assms(2) by simp
qed

lemma chunk_size_nat:
  assumes "0 \<le> inode_length ino"
  shows "chunk_size ino (int n) (int ofs) = min (int n) (min (inode_length ino - int ofs) (int (512 - ofs mod 512)))"
proof -
  have "cmod (int ofs) 512 = int (ofs mod 512)" by (simp add: cmod_nonneg zmod_int)
  moreover have "ofs mod 512 \<le> 512" by (simp add: less_imp_le)
  ultimately show ?thesis by (simp add: chunk_size_def Let_def min_def of_nat_diff)
qed

text \<open>The chunk at offset \<open>ofs\<close> as a natural number: it is not empty, lies in one sector and in the file.\<close>

lemma min_three:
  "c = min n (min a b) \<Longrightarrow> 0 < n \<Longrightarrow> 0 < a \<Longrightarrow> 0 < b \<Longrightarrow> 0 < c \<and> c \<le> n \<and> c \<le> a \<and> c \<le> b \<and> (c = n \<or> c = a \<or> c = (b :: nat))"
  by (auto simp: min_def)

lemma chunk_cases:
  assumes "wf_inode ino dev" "0 < n" "ofs < nat (inode_length ino)"
  obtains c where "chunk_size ino (int n) (int ofs) = int c" "0 < c" "c \<le> n" "ofs + c \<le> nat (inode_length ino)"
    "ofs mod 512 + c \<le> 512" "byte_to_sector ino (int ofs) = start (data ino) + ofs div 512"
    "start (data ino) + ofs div 512 < block_size dev" "reach ino n ofs = c + reach ino (n - c) (ofs + c)"
    "ofs mod 512 + c < 512 \<Longrightarrow> c = n \<or> ofs + c = nat (inode_length ino)"
proof -
  obtain l where l: "inode_length ino = int l" using assms(1) by (metis wf_inode_def nonneg_int_cases)
  let ?c = "min n (min (l - ofs) (512 - ofs mod 512))"
  have bnd: "start (data ino) + bytes_to_sectors (int l) \<le> block_size dev" "wf_block dev" and ofs: "ofs < l"
    using assms(1,3) l by (simp_all add: wf_inode_def)
  have m: "ofs mod 512 < 512" by simp
  have "int ?c = min (int n) (min (inode_length ino - int ofs) (int (512 - ofs mod 512)))"
    using ofs by (simp only: of_nat_min l of_nat_diff [OF less_imp_le [OF ofs]])
  then have cs: "chunk_size ino (int n) (int ofs) = int ?c" using chunk_size_nat [of ino n ofs] l by (simp only: of_nat_0_le_iff)
  obtain c where ce: "c = ?c" by blast
  have p: "0 < l - ofs" "0 < 512 - ofs mod 512" using ofs m by (simp_all only: zero_less_diff)
  have c: "0 < c" "c \<le> n" "c \<le> l - ofs" "c \<le> 512 - ofs mod 512" "c = n \<or> c = l - ofs \<or> c = 512 - ofs mod 512"
    using min_three [OF ce assms(2) p] by iprover+
  have r: "reach ino n ofs = c + reach ino (n - c) (ofs + c)" using c(2,3) l by (auto simp: reach_def min_def)
  have e: "ofs + c \<le> l" "ofs mod 512 + c \<le> 512" "ofs mod 512 + c < 512 \<Longrightarrow> c = n \<or> ofs + c = l"
    using c ofs m by linarith+
  have "ofs div 512 < bytes_to_sectors (int l)" using sector_of_byte [of ofs "int l"] ofs l assms(1) by (simp add: wf_inode_def)
  then have lt: "start (data ino) + ofs div 512 < block_size dev" using bnd by simp
  have "int (start (data ino)) + cdiv (int ofs) 512 = int (start (data ino) + ofs div 512)"
    by (simp add: cdiv_nonneg zdiv_int)
  moreover have "start (data ino) + ofs div 512 < 2 ^ 32" using lt bnd(2) by (simp add: wf_block_def)
  ultimately have bs: "byte_to_sector ino (int ofs) = start (data ino) + ofs div 512"
    using ofs l by (simp add: byte_to_sector_def inode_length_def)
  show ?thesis by (rule that [OF cs [folded ce] c(1,2) _ e(2) bs lt r]) (use e l in simp_all)
qed

lemma sector_slice:
  assumes "length sec = 512" "ofs mod 512 + c \<le> 512" "medium dev (st + ofs div 512) = sec"
  shows "take c (drop (ofs mod 512) sec) = map (byte_at dev st) [ofs..<ofs + c]"
proof (rule nth_equalityI)
  fix i assume "i < length (take c (drop (ofs mod 512) sec))"
  then have i: "i < c" using assms by simp
  have lt: "ofs mod 512 + i < 512" using i assms(2) by linarith
  have "(ofs + i) div 512 = ofs div 512" using lt by (simp add: div_add1_eq [of ofs i])
  moreover have "(ofs + i) mod 512 = ofs mod 512 + i"
    using lt by (metis mod_add_left_eq mod_less)
  ultimately show "take c (drop (ofs mod 512) sec) ! i = map (byte_at dev st) [ofs..<ofs + c] ! i"
    using i assms by (simp add: byte_at_def)
qed (use assms in simp)

lemma wf_inode_sector: "wf_inode ino dev \<Longrightarrow> i < block_size dev \<Longrightarrow> length (medium dev i) = 512"
  by (simp add: wf_inode_def wf_block_def)

section \<open>Reading\<close>

lemma inode_read_loop_bytes:
  assumes "wf_inode ino dev"
  shows "\<exists>dev'. inode_read_loop True ino dev (int n) (int ofs) buffer =
     Some (buffer @ map (byte_at dev (start (data ino))) [ofs..<ofs + reach ino n ofs], dev') \<and> same_medium dev dev'"
  using assms
proof (induction n arbitrary: dev ofs buffer rule: less_induct)
  case (less n)
  let ?b = "byte_at dev (start (data ino))"
  show ?case
  proof (cases "0 < n \<and> ofs < nat (inode_length ino)")
    case False
    then have "n = 0 \<or> chunk_size ino (int n) (int ofs) \<le> 0" "reach ino n ofs = 0"
      using chunk_size_nat [of ino n ofs] less.prems by (auto simp: reach_def wf_inode_def min_def)
    then show ?thesis by (subst inode_read_loop.simps) (auto simp: Let_def)
  next
    case True
    obtain c where c: "chunk_size ino (int n) (int ofs) = int c" "0 < c" "c \<le> n" "ofs + c \<le> nat (inode_length ino)"
      "ofs mod 512 + c \<le> 512" "byte_to_sector ino (int ofs) = start (data ino) + ofs div 512"
      "start (data ino) + ofs div 512 < block_size dev" "reach ino n ofs = c + reach ino (n - c) (ofs + c)"
      using chunk_cases [OF less.prems] True by metis
    let ?i = "start (data ino) + ofs div 512"
    have m: "cmod (int ofs) 512 = int (ofs mod 512)" by (simp add: cmod_nonneg zmod_int)
    obtain dev1 where d1: "block_read dev ?i = Some (medium dev ?i, dev1)" "same_medium dev dev1"
      using block_read_eq [OF c(7)] by blast
    have len: "length (medium dev ?i) = 512" by (rule wf_inode_sector [OF less.prems c(7)])
    have sl: "take c (drop (ofs mod 512) (medium dev ?i)) = map ?b [ofs..<ofs + c]"
      by (rule sector_slice [OF len c(5) refl])
    have full: "medium dev ?i = map ?b [ofs..<ofs + c]" if "ofs mod 512 = 0" "c = 512" using sl that len by simp
    have b1: "byte_at dev1 (start (data ino)) = ?b" using d1(2) by (simp add: byte_at_def same_medium_def fun_eq_iff)
    have up: "[ofs..<ofs + reach ino n ofs] = [ofs..<ofs + c] @ [ofs + c..<ofs + c + reach ino (n - c) (ofs + c)]"
      unfolding c(8) add.assoc [symmetric] by (rule upt_add_eq_append) simp
    have ih: "\<exists>dev'. inode_read_loop True ino dev1 (int (n - c)) (int (ofs + c)) (buffer @ map ?b [ofs..<ofs + c]) =
       Some (buffer @ map ?b [ofs..<ofs + reach ino n ofs], dev') \<and> same_medium dev1 dev'"
      using less.IH [of "n - c" dev1 "ofs + c" "buffer @ map ?b [ofs..<ofs + c]"] wf_inode_same [OF d1(2) less.prems] c(2,3) True up b1
      by simp
    have "inode_read_loop True ino dev (int n) (int ofs) buffer =
        inode_read_loop True ino dev1 (int (n - c)) (int (ofs + c)) (buffer @ map ?b [ofs..<ofs + c])"
      using c(2,3) True d1 sl full
      by (subst inode_read_loop.simps) (auto simp: Let_def c(1,6) m of_nat_diff)
    then show ?thesis using ih same_medium_trans [OF d1(2)] by auto
  qed
qed

lemma inode_read_at_bytes:
  assumes "wf_inode ino dev"
  shows "\<exists>dev'. inode_read_at True ino dev (int n) (int ofs) = Some (take n (drop ofs (inode_bytes ino dev)), dev') \<and> same_medium dev dev'"
proof -
  have "map (byte_at dev (start (data ino))) [ofs..<ofs + reach ino n ofs] = take n (drop ofs (inode_bytes ino dev))"
    by (rule nth_equalityI) (auto simp: inode_bytes_def reach_def)
  then show ?thesis using inode_read_loop_bytes [OF assms, of n ofs "[]"] by (simp add: inode_read_at_def)
qed

section \<open>Writing\<close>

lemma length_blend: "ofs + length bytes \<le> length bounce \<Longrightarrow> length (blend bounce ofs bytes) = length bounce"
  by (simp add: blend_def)

lemma nth_blend:
  "ofs + length bytes \<le> length bounce \<Longrightarrow> k < length bounce \<Longrightarrow>
   blend bounce ofs bytes ! k = (if ofs \<le> k \<and> k < ofs + length bytes then bytes ! (k - ofs) else bounce ! k)"
  by (auto simp: blend_def nth_append)

lemma blend_full: "length bytes = length bounce \<Longrightarrow> blend bounce 0 bytes = bytes"
  by (simp add: blend_def)

lemma byte_at_write:
  assumes m: "medium dev1 = (medium dev)(st + ofs div 512 := blend (medium dev (st + ofs div 512)) (ofs mod 512) bytes)"
    and len: "length (medium dev (st + ofs div 512)) = 512" "ofs mod 512 + length bytes \<le> 512"
  shows "byte_at dev1 st i = (if ofs \<le> i \<and> i < ofs + length bytes then bytes ! (i - ofs) else byte_at dev st i)"
proof (cases "i div 512 = ofs div 512")
  case True
  have "i = 512 * (i div 512) + i mod 512" "ofs = 512 * (ofs div 512) + ofs mod 512" by simp_all
  then have d: "i = 512 * (ofs div 512) + i mod 512" "ofs = 512 * (ofs div 512) + ofs mod 512" using True by simp_all
  then have "ofs mod 512 \<le> i mod 512 \<longleftrightarrow> ofs \<le> i" "i mod 512 < ofs mod 512 + length bytes \<longleftrightarrow> i < ofs + length bytes"
    "i mod 512 - ofs mod 512 = i - ofs" by linarith+
  then show ?thesis using True m nth_blend [of "ofs mod 512" bytes "medium dev (st + ofs div 512)" "i mod 512"] len
    by (simp add: byte_at_def)
next
  case False
  have "\<not> (ofs \<le> i \<and> i < ofs + length bytes)"
  proof
    assume a: "ofs \<le> i \<and> i < ofs + length bytes"
    have "i = ofs + (i - ofs)" using a by simp
    moreover have "ofs mod 512 + (i - ofs) < 512" using a len(2) by linarith
    ultimately have "i div 512 = ofs div 512" using div_add1_eq [of ofs "i - ofs" 512] by simp
    with False show False by simp
  qed
  then show ?thesis using False m by (auto simp: byte_at_def)
qed

text \<open>What writing changes on the device.\<close>

definition written_at :: "inode \<Rightarrow> block \<Rightarrow> block \<Rightarrow> (nat \<Rightarrow> u8) \<Rightarrow> nat \<Rightarrow> nat \<Rightarrow> bool" where
  "written_at ino dev dev' b ofs n \<longleftrightarrow> wf_inode ino dev' \<and> block_size dev' = block_size dev \<and>
     (\<forall>i. byte_at dev' (start (data ino)) i = (if ofs \<le> i \<and> i < ofs + n then b i else byte_at dev (start (data ino)) i)) \<and>
     (\<forall>k. k < start (data ino) \<or> start (data ino) + bytes_to_sectors (inode_length ino) \<le> k \<longrightarrow> medium dev' k = medium dev k)"

lemma written_at_trans:
  assumes "written_at ino dev dev1 b ofs c" "written_at ino dev1 dev' b (ofs + c) n"
  shows "written_at ino dev dev' b ofs (c + n)"
  using assms by (auto simp: written_at_def)

lemma sector_written:
  assumes wf: "wf_inode ino dev" and i: "i = start (data ino) + ofs div 512" "i < block_size dev"
    and fit: "ofs mod 512 + length bytes \<le> 512" "ofs + length bytes \<le> nat (inode_length ino)" "bytes \<noteq> []"
  shows "\<exists>dev'. block_write dev i (blend (medium dev i) (ofs mod 512) bytes) = Some dev' \<and>
    written_at ino dev dev' (\<lambda>k. bytes ! (k - ofs)) ofs (length bytes)"
proof -
  have len: "length (medium dev i) = 512" using wf_inode_sector [OF wf] i by simp
  have "wf_block dev" using wf by (simp add: wf_inode_def)
  then obtain dev' where d: "block_write dev i (blend (medium dev i) (ofs mod 512) bytes) = Some dev'" "wf_block dev'"
    "block_size dev' = block_size dev" "medium dev' = (medium dev)(i := blend (medium dev i) (ofs mod 512) bytes)"
    using block_write_eq [of dev i "blend (medium dev i) (ofs mod 512) bytes"] i(2) len length_blend [of "ofs mod 512" bytes "medium dev i"] fit by auto
  have "ofs < nat (inode_length ino)" using fit(2,3) by (cases bytes) auto
  then have "ofs div 512 < bytes_to_sectors (inode_length ino)"
    using sector_of_byte wf by (simp add: wf_inode_def)
  then have "written_at ino dev dev' (\<lambda>k. bytes ! (k - ofs)) ofs (length bytes)"
    using d wf i(1) byte_at_write [OF d(4) [unfolded i(1)] len [unfolded i(1)] fit(1)] by (auto simp: written_at_def wf_inode_def)
  then show ?thesis using d(1) by blast
qed

lemma inode_write_loop_bytes:
  assumes "wf_inode ino dev" "w + n \<le> length buffer"
  shows "\<exists>dev'. inode_write_loop True ino dev buffer (int n) (int ofs) (int w) = Some (int (w + reach ino n ofs), dev') \<and>
    written_at ino dev dev' (\<lambda>i. buffer ! (w + (i - ofs))) ofs (reach ino n ofs)"
  using assms
proof (induction n arbitrary: dev ofs w rule: less_induct)
  case (less n)
  show ?case
  proof (cases "0 < n \<and> ofs < nat (inode_length ino)")
    case False
    then have "n = 0 \<or> chunk_size ino (int n) (int ofs) \<le> 0" "reach ino n ofs = 0"
      using chunk_size_nat [of ino n ofs] less.prems by (auto simp: reach_def wf_inode_def min_def)
    then show ?thesis using less.prems(1) by (subst inode_write_loop.simps) (auto simp: Let_def written_at_def)
  next
    case True
    obtain c where c: "chunk_size ino (int n) (int ofs) = int c" "0 < c" "c \<le> n" "ofs + c \<le> nat (inode_length ino)"
      "ofs mod 512 + c \<le> 512" "byte_to_sector ino (int ofs) = start (data ino) + ofs div 512"
      "start (data ino) + ofs div 512 < block_size dev" "reach ino n ofs = c + reach ino (n - c) (ofs + c)"
      using chunk_cases [OF less.prems(1)] True by metis
    let ?i = "start (data ino) + ofs div 512" and ?bytes = "take c (drop w buffer)"
    have m: "cmod (int ofs) 512 = int (ofs mod 512)" by (simp add: cmod_nonneg zmod_int)
    have bl: "length ?bytes = c" using c(3) less.prems(2) by simp
    have len: "length (medium dev ?i) = 512" by (rule wf_inode_sector [OF less.prems(1) c(7)])
    obtain r where r: "block_read dev ?i = Some (medium dev ?i, r)" "same_medium dev r" using block_read_eq [OF c(7)] by blast
    define dev0 where "dev0 = (if ofs mod 512 = 0 \<and> c = 512 then dev else r)"
    have d0: "same_medium dev dev0" "wf_inode ino dev0" using r(2) wf_inode_same [OF r(2) less.prems(1)] less.prems(1) by (auto simp: dev0_def)
    then have m0: "medium dev0 = medium dev" "block_size dev0 = block_size dev" by (simp_all add: same_medium_def)
    have ne: "?bytes \<noteq> []" using bl c(2) by auto
    have "\<exists>dev1. block_write dev0 ?i (blend (medium dev0 ?i) (ofs mod 512) ?bytes) = Some dev1 \<and>
        written_at ino dev0 dev1 (\<lambda>k. ?bytes ! (k - ofs)) ofs (length ?bytes)"
      by (rule sector_written [OF d0(2) refl _ _ _ ne]) (unfold m0 bl, rule c(7), rule c(5), rule c(4))
    then obtain dev1 where d1: "block_write dev0 ?i (blend (medium dev ?i) (ofs mod 512) ?bytes) = Some dev1"
      "written_at ino dev0 dev1 (\<lambda>k. ?bytes ! (k - ofs)) ofs c" unfolding m0 bl by blast
    have w1: "written_at ino dev dev1 (\<lambda>i. buffer ! (w + (i - ofs))) ofs c"
      using d1(2) m0 less.prems(2) c(3) by (auto simp: written_at_def byte_at_def)
    then have wf1: "wf_inode ino dev1" by (simp add: written_at_def)
    obtain dev' where d': "inode_write_loop True ino dev1 buffer (int (n - c)) (int (ofs + c)) (int (w + c)) =
        Some (int (w + reach ino n ofs), dev')"
      "written_at ino dev1 dev' (\<lambda>i. buffer ! (w + c + (i - (ofs + c)))) (ofs + c) (reach ino (n - c) (ofs + c))"
      using less.IH [of "n - c" dev1 "w + c" "ofs + c"] wf1 c(2,3,8) less.prems(2) True by auto
    have "written_at ino dev1 dev' (\<lambda>i. buffer ! (w + (i - ofs))) (ofs + c) (reach ino (n - c) (ofs + c))"
      using d'(2) by (auto simp: written_at_def)
    then have "written_at ino dev dev' (\<lambda>i. buffer ! (w + (i - ofs))) ofs (reach ino n ofs)"
      unfolding c(8) by (rule written_at_trans [OF w1])
    moreover have "inode_write_loop True ino dev buffer (int n) (int ofs) (int w) =
        inode_write_loop True ino dev1 buffer (int (n - c)) (int (ofs + c)) (int (w + c))"
    proof (cases "ofs mod 512 = 0 \<and> c = 512")
      case full: True
      have "blend (medium dev ?i) (ofs mod 512) ?bytes = ?bytes" using full bl len blend_full [of ?bytes "medium dev ?i"] by simp
      then show ?thesis using c(2,3) True d1(1) full
        by (subst inode_write_loop.simps) (simp add: Let_def c(1,6) m of_nat_diff dev0_def)
    next
      case False
      then have "0 < ofs mod 512 \<or> int c < 512 - int (ofs mod 512)" using c(5) by auto
      then show ?thesis using c(2,3) True d1(1) False r(1)
        by (subst inode_write_loop.simps) (auto simp: Let_def c(1,6) m of_nat_diff dev0_def)
    qed
    ultimately show ?thesis using d'(1) by auto
  qed
qed

lemma inode_bytes_written:
  assumes "written_at ino dev dev' b ofs n" "ofs + n \<le> nat (inode_length ino)" "n \<le> length buffer"
    "\<And>i. i < n \<Longrightarrow> b (ofs + i) = buffer ! i"
  shows "inode_bytes ino dev' = blend (inode_bytes ino dev) ofs (take n buffer)"
proof (rule nth_equalityI)
  fix i assume "i < length (inode_bytes ino dev')"
  then have i: "i < nat (inode_length ino)" by simp
  have "inode_bytes ino dev' ! i = (if ofs \<le> i \<and> i < ofs + n then b i else byte_at dev (start (data ino)) i)"
    using i assms(1) by (simp add: inode_bytes_def written_at_def)
  also have "\<dots> = blend (inode_bytes ino dev) ofs (take n buffer) ! i"
    using i assms(2,3) assms(4) [of "i - ofs"] by (subst nth_blend) (auto simp: inode_bytes_def)
  finally show "inode_bytes ino dev' ! i = blend (inode_bytes ino dev) ofs (take n buffer) ! i" .
qed (use assms in \<open>simp add: blend_def\<close>)

lemma inode_write_at_bytes:
  assumes wf: "wf_inode ino dev" and deny: "deny_write_cnt ino = 0" and n: "n \<le> length buffer"
  shows "\<exists>dev'. inode_write_at True ino dev buffer (int n) (int ofs) = Some (int (reach ino n ofs), dev') \<and> wf_inode ino dev' \<and>
    block_size dev' = block_size dev \<and>
    inode_bytes ino dev' = (if ofs < nat (inode_length ino) then blend (inode_bytes ino dev) ofs (take (reach ino n ofs) buffer) else inode_bytes ino dev) \<and>
    (\<forall>k. k < start (data ino) \<or> start (data ino) + bytes_to_sectors (inode_length ino) \<le> k \<longrightarrow> medium dev' k = medium dev k)"
proof -
  obtain dev' where d: "inode_write_loop True ino dev buffer (int n) (int ofs) 0 = Some (int (reach ino n ofs), dev')"
    "written_at ino dev dev' (\<lambda>i. buffer ! (i - ofs)) ofs (reach ino n ofs)"
    using inode_write_loop_bytes [OF wf, of 0 n buffer ofs] n by auto
  have "inode_bytes ino dev' = blend (inode_bytes ino dev) ofs (take (reach ino n ofs) buffer)" if "ofs < nat (inode_length ino)"
    by (rule inode_bytes_written [OF d(2)]) (use that n in \<open>auto simp: reach_def\<close>)
  moreover have "inode_bytes ino dev' = inode_bytes ino dev" if "\<not> ofs < nat (inode_length ino)"
  proof -
    have "reach ino n ofs = 0" using that by (simp add: reach_def)
    then have "byte_at dev' (start (data ino)) = byte_at dev (start (data ino))" using d(2) by (auto simp: written_at_def fun_eq_iff)
    then show ?thesis by (simp add: inode_bytes_def)
  qed
  ultimately show ?thesis using d deny by (auto simp: inode_write_at_def written_at_def)
qed

text \<open>
  (C8) A file keeps what is written to it: after writing \<open>n\<close> bytes at an offset inside the file, whatever their alignment to sectors,
  as many bytes have been written as fit before the end of the file, a read at the same place returns exactly these bytes, every other byte of the file is
  unchanged, and so is every other file.
\<close>

theorem inode_read_after_write:
  assumes "wf_inode ino dev" "deny_write_cnt ino = 0" "n \<le> length buffer" "ofs \<le> nat (inode_length ino)"
  shows "\<exists>dev' dev'' m. m = min n (nat (inode_length ino) - ofs) \<and>
    inode_write_at True ino dev buffer (int n) (int ofs) = Some (int m, dev') \<and>
    inode_read_at True ino dev' (int n) (int ofs) = Some (take m buffer, dev'') \<and>
    inode_bytes ino dev' = take ofs (inode_bytes ino dev) @ take m buffer @ drop (ofs + m) (inode_bytes ino dev) \<and>
    (\<forall>other. start (data other) + bytes_to_sectors (inode_length other) \<le> start (data ino) \<or>
       start (data ino) + bytes_to_sectors (inode_length ino) \<le> start (data other) \<longrightarrow> inode_length other < 2 ^ 31 \<longrightarrow>
       inode_bytes other dev' = inode_bytes other dev)"
proof -
  let ?m = "reach ino n ofs"
  obtain dev' where d: "inode_write_at True ino dev buffer (int n) (int ofs) = Some (int ?m, dev')" "wf_inode ino dev'"
    "inode_bytes ino dev' = (if ofs < nat (inode_length ino) then blend (inode_bytes ino dev) ofs (take ?m buffer) else inode_bytes ino dev)"
    "\<And>k. k < start (data ino) \<or> start (data ino) + bytes_to_sectors (inode_length ino) \<le> k \<Longrightarrow> medium dev' k = medium dev k"
    using inode_write_at_bytes [OF assms(1-3), of ofs] by blast
  have m: "?m \<le> length buffer" "ofs + ?m \<le> nat (inode_length ino)" "?m = min n (nat (inode_length ino) - ofs)"
    using assms(3,4) by (auto simp: reach_def)
  have b: "inode_bytes ino dev' = take ofs (inode_bytes ino dev) @ take ?m buffer @ drop (ofs + ?m) (inode_bytes ino dev)"
  proof (cases "ofs < nat (inode_length ino)")
    case True
    then show ?thesis using d(3) m(1) by (simp add: blend_def)
  next
    case False
    then have "?m = 0" "ofs = nat (inode_length ino)" using m(2) assms(4) by simp_all
    then show ?thesis using d(3) False by simp
  qed
  obtain dev'' where r: "inode_read_at True ino dev' (int n) (int ofs) = Some (take n (drop ofs (inode_bytes ino dev')), dev'')"
    using inode_read_at_bytes [OF d(2)] by blast
  have "take n (drop ofs (inode_bytes ino dev')) = take n (take ?m buffer @ drop (ofs + ?m) (inode_bytes ino dev))"
    using b assms(4) by simp
  also have "\<dots> = take ?m buffer"
  proof (cases "n \<le> nat (inode_length ino) - ofs")
    case True
    then have "?m = n" using m(3) by simp
    then show ?thesis using m(1) by simp
  next
    case False
    then have "?m = nat (inode_length ino) - ofs" "?m \<le> n" using m(3) by simp_all
    then show ?thesis using assms(4) by simp
  qed
  finally have t: "take n (drop ofs (inode_bytes ino dev')) = take ?m buffer" .
  have oth: "inode_bytes other dev' = inode_bytes other dev"
    if o: "start (data other) + bytes_to_sectors (inode_length other) \<le> start (data ino) \<or>
       start (data ino) + bytes_to_sectors (inode_length ino) \<le> start (data other)" and l: "inode_length other < 2 ^ 31" for other
  proof -
    have "byte_at dev' (start (data other)) i = byte_at dev (start (data other)) i" if "i < nat (inode_length other)" for i
    proof -
      have "i div 512 < bytes_to_sectors (inode_length other)"
        using sector_of_byte [OF that l] .
      then show ?thesis using d(4) [of "start (data other) + i div 512"] o by (auto simp: byte_at_def)
    qed
    then show ?thesis by (simp add: inode_bytes_def)
  qed
  show ?thesis
    by (intro exI [of _ dev'] exI [of _ dev''] exI [of _ ?m] conjI allI impI) (rule m(3), rule d(1), simp only: r t, rule b, erule (1) oth)
qed

text \<open>A device of 8 sectors.\<close>

definition small_disk :: block where
  "small_disk = \<lparr>block_name = ''hda'', type_of_block = BLOCK_FILESYS, block_size = 8,
     medium = (\<lambda>i. replicate 512 (of_nat i)), read_cnt = 0, write_cnt = 0\<rparr>"

definition small_inode :: inode where
  "small_inode = \<lparr>sector = 2, open_cnt = 1, removed = False, deny_write_cnt = 0,
     data = \<lparr>start = 4, inode_len = 1030, inode_magic = INODE_MAGIC\<rparr>\<rparr>"

theorem inode_read_after_write_witness:
  "\<exists>dev' dev''. inode_write_at True small_inode small_disk [1, 2, 3, 4] 4 510 = Some (4, dev') \<and>
     inode_read_at True small_inode dev' 4 510 = Some ([1, 2, 3, 4], dev'')"
proof -
  have "wf_inode small_inode small_disk"
    by (simp add: wf_inode_def small_inode_def small_disk_def inode_length_def bytes_to_sectors_small DIV_ROUND_UP_def wf_block_def)
  from inode_read_after_write [OF this, of 4 "[1, 2, 3, 4]" 510] show ?thesis
    by (simp add: small_inode_def inode_length_def) blast
qed

end
