(* ===== verification/Directory.thy ===== *)
theory Directory
  imports Inode
begin

text \<open>
  Directories (\<open>src/pintos/src/filesys/directory.c\<close>): a directory is an inode that holds an array of entries of 20 bytes, the sector of
  the file's inode, its name and a flag.  An entry is the list of its bytes.  A name is the list of the bytes of the string.

  A directory is a finite map from names to sectors; searching, adding and erasing are shown to be those of the map.
\<close>

section \<open>Entries\<close>

abbreviation (input) NAME_MAX :: nat where "NAME_MAX \<equiv> 14"

definition entry_sector :: "u8 list \<Rightarrow> nat" where
  "entry_sector e = unat (hd (words_of_bytes (take 4 e)))"

definition entry_name :: "u8 list \<Rightarrow> u8 list" where
  "entry_name e = takeWhile (\<lambda>b. b \<noteq> 0) (drop 4 e)"

definition entry_in_use :: "u8 list \<Rightarrow> bool" where
  "entry_in_use e \<longleftrightarrow> e ! 19 \<noteq> 0"

text \<open>Assignments to the members of an entry; \<open>strlcpy\<close> leaves the bytes after the terminator as they are.\<close>

definition set_entry_sector :: "nat \<Rightarrow> u8 list \<Rightarrow> u8 list" where
  "set_entry_sector sec e = bytes_of_words [word_of_nat sec] @ drop 4 e"

definition set_entry_name :: "u8 list \<Rightarrow> u8 list \<Rightarrow> u8 list" where
  "set_entry_name n e = take 4 e @ (take NAME_MAX n @ [0]) @ drop (5 + length (take NAME_MAX n)) e"

definition set_entry_in_use :: "bool \<Rightarrow> u8 list \<Rightarrow> u8 list" where
  "set_entry_in_use b e = e[19 := if b then 1 else 0]"

section \<open>Operations\<close>

partial_function (option) lookup_loop ::
    "bool \<Rightarrow> inode \<Rightarrow> block \<Rightarrow> u8 list \<Rightarrow> int \<Rightarrow> ((u8 list \<times> int) option \<times> block) option" where
  "lookup_loop mem ino dev n ofs = do {
     (e, dev) \<leftarrow> inode_read_at mem ino dev 20 ofs;
     if length e = 20 then
       if entry_in_use e \<and> n = entry_name e then Some (Some (e, ofs), dev)
       else lookup_loop mem ino dev n (ofs + 20)
     else Some (None, dev)
   }"

definition lookup :: "bool \<Rightarrow> inode \<Rightarrow> block \<Rightarrow> u8 list \<Rightarrow> ((u8 list \<times> int) option \<times> block) option" where
  "lookup mem ino dev n = lookup_loop mem ino dev n 0"

text \<open>The search for a free slot; \<open>e\<close> is the entry as the previous iteration left it.\<close>

partial_function (option) free_slot_loop ::
    "bool \<Rightarrow> inode \<Rightarrow> block \<Rightarrow> u8 list \<Rightarrow> int \<Rightarrow> (u8 list \<times> int \<times> block) option" where
  "free_slot_loop mem ino dev e ofs = do {
     (bytes, dev) \<leftarrow> inode_read_at mem ino dev 20 ofs;
     let e = bytes @ drop (length bytes) e;
     if length bytes = 20 then
       if \<not> entry_in_use e then Some (e, ofs, dev)
       else free_slot_loop mem ino dev e (ofs + 20)
     else Some (e, ofs, dev)
   }"

text \<open>\<open>e\<close> is the uninitialized local variable.\<close>

definition dir_add :: "bool \<Rightarrow> inode \<Rightarrow> block \<Rightarrow> u8 list \<Rightarrow> u8 list \<Rightarrow> nat \<Rightarrow> (bool \<times> block) option" where
  "dir_add mem ino dev e n inode_sector = (
     if n = [] \<or> length n > NAME_MAX then Some (False, dev)
     else do {
       (found, dev) \<leftarrow> lookup mem ino dev n;
       if found \<noteq> None then Some (False, dev)
       else do {
         (e, ofs, dev) \<leftarrow> free_slot_loop mem ino dev e 0;
         let e = set_entry_in_use True e;
         let e = set_entry_name n e;
         let e = set_entry_sector inode_sector e;
         (written, dev) \<leftarrow> inode_write_at mem ino dev e 20 ofs;
         Some (written = 20, dev)
       }
     })"

text \<open>The part of \<open>dir_remove\<close> that changes the directory: it finds the entry and erases it.\<close>

definition dir_erase :: "bool \<Rightarrow> inode \<Rightarrow> block \<Rightarrow> u8 list \<Rightarrow> int \<Rightarrow> (bool \<times> block) option" where
  "dir_erase mem ino dev e ofs = do {
     let e = set_entry_in_use False e;
     (written, dev) \<leftarrow> inode_write_at mem ino dev e 20 ofs;
     Some (written = 20, dev)
   }"

partial_function (option) dir_readdir ::
    "bool \<Rightarrow> inode \<Rightarrow> block \<Rightarrow> int \<Rightarrow> (u8 list option \<times> int \<times> block) option" where
  "dir_readdir mem ino dev p = do {
     (e, dev) \<leftarrow> inode_read_at mem ino dev 20 p;
     if length e = 20 then
       if entry_in_use e then Some (Some (entry_name e), p + 20, dev)
       else dir_readdir mem ino dev (p + 20)
     else Some (None, p, dev)
   }"

section \<open>The slots of a directory\<close>

definition slot :: "inode \<Rightarrow> block \<Rightarrow> nat \<Rightarrow> u8 list" where
  "slot ino dev k = take 20 (drop (20 * k) (inode_bytes ino dev))"

definition slots :: "inode \<Rightarrow> block \<Rightarrow> u8 list list" where
  "slots ino dev = map (slot ino dev) [0..<nat (inode_length ino) div 20]"

definition holds :: "u8 list \<Rightarrow> u8 list \<Rightarrow> bool" where
  "holds n e \<longleftrightarrow> entry_in_use e \<and> n = entry_name e"

text \<open>The map from names to sectors.\<close>

definition dir_find :: "inode \<Rightarrow> block \<Rightarrow> u8 list \<Rightarrow> nat option" where
  "dir_find ino dev n = map_option entry_sector (find (holds n) (slots ino dev))"

definition wf_dir :: "inode \<Rightarrow> block \<Rightarrow> bool" where
  "wf_dir ino dev \<longleftrightarrow> wf_inode ino dev \<and> nat (inode_length ino) mod 20 = 0"

lemma wf_dir_len: "wf_dir ino dev \<Longrightarrow> nat (inode_length ino) = 20 * length (slots ino dev)"
  by (simp add: wf_dir_def slots_def) (metis mod_0_imp_dvd dvd_mult_div_cancel)

lemma length_slot: "wf_dir ino dev \<Longrightarrow> k < length (slots ino dev) \<Longrightarrow> length (slot ino dev k) = 20"
  using wf_dir_len [of ino dev] by (simp add: slot_def)

lemma slots_nth: "k < length (slots ino dev) \<Longrightarrow> slots ino dev ! k = slot ino dev k"
  by (simp add: slots_def)

lemma inode_bytes_same: "same_medium dev dev' \<Longrightarrow> inode_bytes ino dev' = inode_bytes ino dev"
  by (simp add: inode_bytes_def byte_at_def same_medium_def)

lemma slots_same: "same_medium dev dev' \<Longrightarrow> slots ino dev' = slots ino dev"
  using inode_bytes_same [of dev dev' ino] by (simp add: slots_def slot_def [abs_def])

lemma wf_dir_same: "same_medium dev dev' \<Longrightarrow> wf_dir ino dev \<Longrightarrow> wf_dir ino dev'"
  using wf_inode_same [of dev dev' ino] by (simp add: wf_dir_def)

text \<open>Reading at a multiple of 20 gives a slot, or nothing at the end.\<close>

lemma read_slot:
  assumes "wf_dir ino dev"
  shows "k < length (slots ino dev) \<Longrightarrow> \<exists>dev'. inode_read_at True ino dev 20 (20 * int k) = Some (slots ino dev ! k, dev') \<and> same_medium dev dev'"
    "length (slots ino dev) \<le> k \<Longrightarrow> \<exists>dev'. inode_read_at True ino dev 20 (20 * int k) = Some ([], dev') \<and> same_medium dev dev'"
proof -
  have wf: "wf_inode ino dev" using assms by (simp add: wf_dir_def)
  obtain dev' where r: "inode_read_at True ino dev 20 (20 * int k) = Some (take 20 (drop (20 * k) (inode_bytes ino dev)), dev')" "same_medium dev dev'"
    using inode_read_at_bytes [OF wf, of 20 "20 * k"] by auto
  show "k < length (slots ino dev) \<Longrightarrow> \<exists>dev'. inode_read_at True ino dev 20 (20 * int k) = Some (slots ino dev ! k, dev') \<and> same_medium dev dev'"
    using r by (simp add: slots_nth slot_def)
  show "length (slots ino dev) \<le> k \<Longrightarrow> \<exists>dev'. inode_read_at True ino dev 20 (20 * int k) = Some ([], dev') \<and> same_medium dev dev'"
    using r wf_dir_len [OF assms] by simp
qed

lemma lookup_loop_find:
  assumes "wf_dir ino dev" "k \<le> length (slots ino dev)"
  shows "\<exists>dev'. same_medium dev dev' \<and> lookup_loop True ino dev n (20 * int k) = Some (
    (case find (\<lambda>i. holds n (slots ino dev ! i)) [k..<length (slots ino dev)] of
       None \<Rightarrow> None | Some i \<Rightarrow> Some (slots ino dev ! i, 20 * int i)), dev')"
  using assms
proof (induction "length (slots ino dev) - k" arbitrary: k dev)
  case 0
  then obtain dev' where "inode_read_at True ino dev 20 (20 * int k) = Some ([], dev')" "same_medium dev dev'"
    using read_slot(2) [of ino dev k] by auto
  then show ?case using 0 by (subst lookup_loop.simps) simp
next
  case (Suc m)
  let ?s = "slots ino dev"
  have k: "k < length ?s" and mk: "m = length ?s - Suc k" using Suc.hyps(2) by simp_all
  obtain dev1 where r: "inode_read_at True ino dev 20 (20 * int k) = Some (?s ! k, dev1)" "same_medium dev dev1"
    using read_slot(1) [OF Suc.prems(1) k] by blast
  have len: "length (?s ! k) = 20" using length_slot [OF Suc.prems(1) k] slots_nth [OF k] by simp
  have u: "[k..<length ?s] = k # [Suc k..<length ?s]" using k by (simp add: upt_conv_Cons)
  show ?case
  proof (cases "holds n (?s ! k)")
    case True
    then show ?thesis using r len by (subst lookup_loop.simps) (auto simp: u holds_def)
  next
    case False
    have "lookup_loop True ino dev n (20 * int k) = lookup_loop True ino dev1 n (20 * int (Suc k))"
      using r len False by (subst lookup_loop.simps) (auto simp: holds_def algebra_simps)
    moreover obtain dev' where "same_medium dev1 dev'" "lookup_loop True ino dev1 n (20 * int (Suc k)) = Some (
      (case find (\<lambda>i. holds n (?s ! i)) [Suc k..<length ?s] of None \<Rightarrow> None | Some i \<Rightarrow> Some (?s ! i, 20 * int i)), dev')"
      using Suc.hyps(1) [of dev1 "Suc k", unfolded slots_same [OF r(2)], OF mk] wf_dir_same [OF r(2) Suc.prems(1)] k by auto
    ultimately show ?thesis using False same_medium_trans [OF r(2)] by (auto simp: u)
  qed
qed

lemma find_index:
  "find P xs = (case find (\<lambda>i. P (xs ! i)) [0..<length xs] of None \<Rightarrow> None | Some i \<Rightarrow> Some (xs ! i))"
proof (induction xs)
  case (Cons x xs)
  have "[0..<length (x # xs)] = 0 # map Suc [0..<length xs]" by (simp add: map_Suc_upt upt_conv_Cons del: upt_Suc)
  moreover have "find (\<lambda>i. P ((x # xs) ! i)) (map Suc l) = map_option Suc (find (\<lambda>i. P (xs ! i)) l)" for l
    by (induction l) auto
  ultimately show ?case using Cons.IH by (auto split: option.splits)
qed simp

text \<open>The index of the first slot with a property.\<close>

definition first_slot :: "(u8 list \<Rightarrow> bool) \<Rightarrow> u8 list list \<Rightarrow> nat option" where
  "first_slot P xs = find (\<lambda>i. P (xs ! i)) [0..<length xs]"

lemma lookup_find:
  assumes "wf_dir ino dev"
  shows "\<exists>dev'. same_medium dev dev' \<and> lookup True ino dev n =
    Some (map_option (\<lambda>i. (slots ino dev ! i, 20 * int i)) (first_slot (holds n) (slots ino dev)), dev')"
  using lookup_loop_find [OF assms, of 0 n] by (auto simp: lookup_def first_slot_def split: option.splits)

lemma first_slot_find: "find P xs = map_option (\<lambda>i. xs ! i) (first_slot P xs)"
  unfolding first_slot_def by (subst find_index) (simp split: option.split)

lemma first_slot_Some: "first_slot P xs = Some i \<Longrightarrow> i < length xs \<and> P (xs ! i)"
  unfolding first_slot_def by (auto dest!: find_Some_iff [THEN iffD1] simp: nth_append)

lemma first_slot_None: "first_slot P xs = None \<longleftrightarrow> find P xs = None"
  by (simp add: first_slot_find)

text \<open>\<open>lookup\<close> answers what the map says.\<close>

lemma lookup_dir_find:
  assumes "wf_dir ino dev"
  shows "\<exists>r dev'. lookup True ino dev n = Some (r, dev') \<and> same_medium dev dev' \<and>
    map_option (\<lambda>(e, ofs). entry_sector e) r = dir_find ino dev n"
  using lookup_find [OF assms, of n] by (auto simp: dir_find_def first_slot_find option.map_comp comp_def)

lemma free_slot_loop_first:
  assumes "wf_dir ino dev" "k \<le> length (slots ino dev)" "length e = 20"
  shows "\<exists>e' dev'. same_medium dev dev' \<and> length e' = 20 \<and> free_slot_loop True ino dev e (20 * int k) = Some (e',
    (case find (\<lambda>i. \<not> entry_in_use (slots ino dev ! i)) [k..<length (slots ino dev)] of
       None \<Rightarrow> inode_length ino | Some i \<Rightarrow> 20 * int i), dev')"
  using assms
proof (induction "length (slots ino dev) - k" arbitrary: k dev e)
  case 0
  then have "k = length (slots ino dev)" by simp
  moreover have "0 \<le> inode_length ino" using 0 by (simp add: wf_dir_def wf_inode_def)
  ultimately have "20 * int k = inode_length ino" using wf_dir_len [OF 0(2)] by simp
  moreover obtain dev' where "inode_read_at True ino dev 20 (20 * int k) = Some ([], dev')" "same_medium dev dev'"
    using read_slot(2) [of ino dev k] 0 by auto
  ultimately show ?case using 0 by (subst free_slot_loop.simps) simp
next
  case (Suc m)
  let ?s = "slots ino dev"
  have k: "k < length ?s" and mk: "m = length ?s - Suc k" using Suc.hyps(2) by simp_all
  obtain dev1 where r: "inode_read_at True ino dev 20 (20 * int k) = Some (?s ! k, dev1)" "same_medium dev dev1"
    using read_slot(1) [OF Suc.prems(1) k] by blast
  have len: "length (?s ! k) = 20" using length_slot [OF Suc.prems(1) k] slots_nth [OF k] by simp
  have u: "[k..<length ?s] = k # [Suc k..<length ?s]" using k by (simp add: upt_conv_Cons)
  show ?case
  proof (cases "entry_in_use (?s ! k)")
    case False
    then show ?thesis using r len Suc.prems(3) by (subst free_slot_loop.simps) (auto simp: u Let_def)
  next
    case True
    have "free_slot_loop True ino dev e (20 * int k) = free_slot_loop True ino dev1 (?s ! k) (20 * int (Suc k))"
      using r len True Suc.prems(3) by (subst free_slot_loop.simps) (auto simp: Let_def algebra_simps)
    moreover obtain e' dev' where "same_medium dev1 dev'" "length e' = 20" "free_slot_loop True ino dev1 (?s ! k) (20 * int (Suc k)) = Some (e',
      (case find (\<lambda>i. \<not> entry_in_use (?s ! i)) [Suc k..<length ?s] of None \<Rightarrow> inode_length ino | Some i \<Rightarrow> 20 * int i), dev')"
      using Suc.hyps(1) [of dev1 "Suc k" "?s ! k", unfolded slots_same [OF r(2)], OF mk] wf_dir_same [OF r(2) Suc.prems(1)] k len by auto
    ultimately show ?thesis using True same_medium_trans [OF r(2)] by (auto simp: u)
  qed
qed

section \<open>Changing a slot\<close>

lemma slots_write:
  assumes wf: "wf_dir ino dev" and deny: "deny_write_cnt ino = 0" and k: "k < length (slots ino dev)" and e: "length e = 20"
  shows "\<exists>dev'. inode_write_at True ino dev e 20 (20 * int k) = Some (20, dev') \<and> wf_dir ino dev' \<and>
    slots ino dev' = (slots ino dev)[k := e]"
proof -
  have wi: "wf_inode ino dev" using wf by (simp add: wf_dir_def)
  have l: "20 * k + 20 \<le> nat (inode_length ino)" using wf_dir_len [OF wf] k by simp
  then have re: "reach ino 20 (20 * k) = 20" by (simp add: reach_def)
  obtain dev' where d: "inode_write_at True ino dev e 20 (20 * int k) = Some (20, dev')" "wf_inode ino dev'"
    "inode_bytes ino dev' = blend (inode_bytes ino dev) (20 * k) e"
    using inode_write_at_bytes [OF wi deny, of 20 e "20 * k"] l e re by auto
  have "slot ino dev' j = (if j = k then e else slot ino dev j)" if j: "j < length (slots ino dev)" for j
  proof (rule nth_equalityI)
    have jl: "20 * j + 20 \<le> nat (inode_length ino)" using wf_dir_len [OF wf] j by simp
    then show "length (slot ino dev' j) = length (if j = k then e else slot ino dev j)" using e by (simp add: slot_def)
    fix i assume "i < length (slot ino dev' j)"
    then have i: "i < 20" using jl by (simp add: slot_def)
    have "slot ino dev' j ! i = blend (inode_bytes ino dev) (20 * k) e ! (20 * j + i)"
      using i jl d(3) l e length_blend [of "20 * k" e "inode_bytes ino dev"] by (simp add: slot_def)
    also have "\<dots> = (if 20 * k \<le> 20 * j + i \<and> 20 * j + i < 20 * k + 20 then e ! (20 * j + i - 20 * k) else inode_bytes ino dev ! (20 * j + i))"
      using nth_blend [of "20 * k" e "inode_bytes ino dev" "20 * j + i"] l jl i e by simp
    also have "\<dots> = (if j = k then e else slot ino dev j) ! i"
    proof (cases "j = k")
      case False
      then have "\<not> (20 * k \<le> 20 * j + i \<and> 20 * j + i < 20 * k + 20)" using i by linarith
      then show ?thesis using False i jl by (simp only: if_False) (simp add: slot_def)
    qed (use i in simp)
    finally show "slot ino dev' j ! i = (if j = k then e else slot ino dev j) ! i" .
  qed
  then have "slots ino dev' = (slots ino dev)[k := e]"
    by (intro nth_equalityI) (auto simp: slots_def nth_list_update)
  moreover have "wf_dir ino dev'" using d(2) wf by (simp add: wf_dir_def)
  ultimately show ?thesis using d(1) by blast
qed

lemma find_update:
  assumes "k < length xs" "\<not> P (xs ! k)"
  shows "\<not> P y \<Longrightarrow> find P (xs[k := y]) = find P xs" "P y \<Longrightarrow> find P xs = None \<Longrightarrow> find P (xs[k := y]) = Some y"
  using assms
proof (induction xs arbitrary: k)
  case (Cons x xs)
  { case 1 then show ?case using Cons.IH(1) by (cases k) auto }
  { case 2 then show ?case using Cons.IH(2) by (cases k) (auto split: if_splits) }
qed simp_all

text \<open>The entry \<open>dir_add\<close> writes.\<close>

lemma new_entry:
  assumes "length e = 20" "n \<noteq> []" "length n \<le> NAME_MAX" "0 \<notin> set n" "sec < 2 ^ 32"
  defines "e' \<equiv> set_entry_sector sec (set_entry_name n (set_entry_in_use True e))"
  shows "length e' = 20" "entry_in_use e'" "entry_name e' = n" "entry_sector e' = sec"
proof -
  let ?e = "set_entry_in_use True e"
  have l: "length ?e = 20" "?e ! 19 = 1" using assms(1) by (simp_all add: set_entry_in_use_def)
  have n: "take 14 n = n" using assms(3) by simp
  have e': "e' = bytes_of_word (word_of_nat sec) @ n @ 0 # drop (5 + length n) ?e"
    using l n by (simp add: e'_def set_entry_sector_def set_entry_name_def)
  show "length e' = 20" using l assms(3) by (simp add: e')
  show "entry_in_use e'" using l assms(3) by (simp add: e' entry_in_use_def nth_append nth_Cons')
  have "takeWhile (\<lambda>b. b \<noteq> 0) (n @ 0 # xs) = n" for xs :: "u8 list"
    using assms(4) by (subst takeWhile_append2) auto
  then show "entry_name e' = n" by (simp add: e' entry_name_def)
  have "take 4 e' = bytes_of_words [word_of_nat sec]" by (simp add: e')
  then show "entry_sector e' = sec" using assms(5) words_of_bytes_of_words [of "[word_of_nat sec]"]
    by (simp add: entry_sector_def unat_word_ariths unsigned_of_nat take_bit_nat_eq_self)
qed

text \<open>
  (C9) Adding to a directory: if the name is valid and not in the directory and there is a free slot, \<open>dir_add\<close> succeeds and afterwards the name
  is found with its sector, and every other name as before.
\<close>

theorem dir_add_finds:
  assumes wf: "wf_dir ino dev" and deny: "deny_write_cnt ino = 0" and e: "length e = 20"
    and n: "n \<noteq> []" "length n \<le> NAME_MAX" "0 \<notin> set n" and sec: "sec < 2 ^ 32"
    and new: "dir_find ino dev n = None" and free: "\<exists>s \<in> set (slots ino dev). \<not> entry_in_use s"
  shows "\<exists>dev'. dir_add True ino dev e n sec = Some (True, dev') \<and> wf_dir ino dev' \<and>
    dir_find ino dev' = (dir_find ino dev)(n \<mapsto> sec)"
proof -
  let ?s = "slots ino dev"
  have fn: "find (holds n) ?s = None" using new by (simp add: dir_find_def)
  obtain dev1 where d1: "same_medium dev dev1" "lookup True ino dev n = Some (None, dev1)"
    using lookup_find [OF wf, of n] fn by (auto simp: first_slot_find)
  note s1 = slots_same [OF d1(1), of ino] and w1 = wf_dir_same [OF d1(1) wf]
  obtain k where k: "first_slot (\<lambda>s. \<not> entry_in_use s) ?s = Some k"
    using free first_slot_None [of "\<lambda>s. \<not> entry_in_use s" ?s] by (auto simp: find_None_iff)
  note kp = first_slot_Some [OF k]
  obtain e' dev2 where d2: "same_medium dev1 dev2" "length e' = 20" "free_slot_loop True ino dev1 e 0 = Some (e', 20 * int k, dev2)"
    using free_slot_loop_first [OF w1 _ e, of 0] k s1 by (auto simp: first_slot_def)
  note s2 = slots_same [OF d2(1), of ino] and w2 = wf_dir_same [OF d2(1) w1]
  let ?e = "set_entry_sector sec (set_entry_name n (set_entry_in_use True e'))"
  note ne = new_entry [OF d2(2) n sec]
  obtain dev' where d': "inode_write_at True ino dev2 ?e 20 (20 * int k) = Some (20, dev')" "wf_dir ino dev'" "slots ino dev' = ?s[k := ?e]"
    using slots_write [OF w2 deny _ ne(1), of k] kp s1 s2 by auto
  have nk: "\<not> holds m (?s ! k)" for m using kp by (simp add: holds_def)
  have "dir_find ino dev' m = ((dir_find ino dev)(n \<mapsto> sec)) m" for m
  proof (cases "m = n")
    case True
    then show ?thesis using find_update(2) [of k ?s "holds n" ?e] nk kp fn ne d'(3) by (simp add: dir_find_def holds_def)
  next
    case False
    then show ?thesis using find_update(1) [of k ?s "holds m" ?e] nk kp ne d'(3) by (simp add: dir_find_def holds_def)
  qed
  then have "dir_find ino dev' = (dir_find ino dev)(n \<mapsto> sec)" by blast
  moreover have "dir_add True ino dev e n sec = Some (True, dev')" using n d1(2) d2(3) d'(1) by (simp add: dir_add_def Let_def)
  ultimately show ?thesis using d'(2) by blast
qed

text \<open>
  (C34) Errors of \<open>dir_add\<close>: a name that is empty, too long, or already in the directory is refused, and so is any name when no slot is free (a directory does not grow); the
  directory is then unchanged.
\<close>

theorem dir_add_refuses:
  assumes wf: "wf_dir ino dev" and deny: "deny_write_cnt ino = 0" and e: "length e = 20"
    and bad: "n = [] \<or> NAME_MAX < length n \<or> dir_find ino dev n \<noteq> None \<or> (\<forall>s \<in> set (slots ino dev). entry_in_use s)"
  shows "\<exists>dev'. dir_add True ino dev e n sec = Some (False, dev') \<and> inode_bytes ino dev' = inode_bytes ino dev"
proof (cases "n = [] \<or> NAME_MAX < length n")
  case True
  then show ?thesis by (auto simp: dir_add_def)
next
  case False
  let ?s = "slots ino dev"
  obtain r dev1 where d1: "lookup True ino dev n = Some (r, dev1)" "same_medium dev dev1"
    "map_option (\<lambda>(e, ofs). entry_sector e) r = dir_find ino dev n" using lookup_dir_find [OF wf] by blast
  note s1 = slots_same [OF d1(2), of ino] and w1 = wf_dir_same [OF d1(2) wf]
  show ?thesis
  proof (cases r)
    case (Some x)
    then show ?thesis using False d1 inode_bytes_same [OF d1(2)] by (simp add: dir_add_def)
  next
    case None
    then have "\<forall>s \<in> set ?s. entry_in_use s" using bad False d1(3) by auto
    then have "find (\<lambda>i. \<not> entry_in_use (?s ! i)) [0..<length ?s] = None" by (auto simp: find_None_iff)
    then obtain e' dev2 where d2: "same_medium dev1 dev2" "length e' = 20" "free_slot_loop True ino dev1 e 0 = Some (e', inode_length ino, dev2)"
      using free_slot_loop_first [OF w1 _ e, of 0] s1 by auto
    have w2: "wf_inode ino dev2" using wf_dir_same [OF d2(1) w1] by (simp add: wf_dir_def)
    let ?e = "set_entry_sector sec (set_entry_name n (set_entry_in_use True e'))"
    have l: "20 \<le> length ?e" using d2(2) False by (auto simp: set_entry_sector_def set_entry_name_def set_entry_in_use_def)
    have i: "inode_length ino = int (nat (inode_length ino))" using w2 by (simp add: wf_inode_def)
    obtain dev' where d': "inode_write_at True ino dev2 ?e 20 (inode_length ino) = Some (0, dev')" "inode_bytes ino dev' = inode_bytes ino dev2"
      using inode_write_at_bytes [OF w2 deny l, of "nat (inode_length ino)"] i by (auto simp: reach_def)
    then show ?thesis
      using False None d1(1) d2(3) inode_bytes_same [OF d1(2), of ino] inode_bytes_same [OF d2(1), of ino] by (simp add: dir_add_def Let_def)
  qed
qed

text \<open>A directory of two slots, the first of which is taken.\<close>

definition small_dir :: inode where
  "small_dir = \<lparr>sector = 1, open_cnt = 1, removed = False, deny_write_cnt = 0,
     data = \<lparr>start = 3, inode_len = 40, inode_magic = INODE_MAGIC\<rparr>\<rparr>"

definition dir_disk :: block where
  "dir_disk = small_disk\<lparr>medium := (\<lambda>i. [5, 0, 0, 0, 97] @ replicate 14 0 @ [1] @ replicate 492 0)\<rparr>"

lemma small_dir_wf: "wf_dir small_dir dir_disk" "deny_write_cnt small_dir = 0"
  by (simp_all add: wf_dir_def wf_inode_def small_dir_def dir_disk_def small_disk_def inode_length_def bytes_to_sectors_small
      DIV_ROUND_UP_def wf_block_def)

lemma small_dir_slots:
  "slots small_dir dir_disk = [[5, 0, 0, 0, 97] @ replicate 14 0 @ [1], replicate 20 0]"
proof -
  obtain l where l: "l = [5, 0, 0, 0, 97] @ replicate 14 0 @ [1] @ replicate 492 (0 :: u8)" by blast
  have m: "medium dir_disk = (\<lambda>i. l)" by (simp add: dir_disk_def l)
  have "inode_bytes small_dir dir_disk = take 40 l"
  proof (rule nth_equalityI)
    fix i assume "i < length (inode_bytes small_dir dir_disk)"
    then have "i < 40" by (simp add: small_dir_def inode_length_def)
    then show "inode_bytes small_dir dir_disk ! i = take 40 l ! i"
      unfolding inode_bytes_def by (simp add: byte_at_def m small_dir_def inode_length_def)
  qed (simp add: small_dir_def inode_length_def l)
  moreover have "[0..<nat (inode_length small_dir) div 20] = [0, 1]" by (simp add: small_dir_def inode_length_def upt_rec)
  ultimately show ?thesis by (simp add: slots_def slot_def l)
qed

theorem dir_add_finds_witness:
  "\<exists>dev'. dir_add True small_dir dir_disk (replicate 20 204) [98, 99] 7 = Some (True, dev') \<and> dir_find small_dir dev' [98, 99] = Some 7 \<and>
     dir_find small_dir dev' [97] = Some 5"
proof -
  have "dir_find small_dir dir_disk [98, 99] = None" "dir_find small_dir dir_disk [97] = Some 5"
    by (simp_all add: dir_find_def small_dir_slots holds_def entry_in_use_def entry_name_def entry_sector_def nth_append)
  then show ?thesis
    using dir_add_finds [OF small_dir_wf, of "replicate 20 204" "[98, 99]" 7] by (auto simp: small_dir_slots entry_in_use_def nth_append)
qed

theorem dir_add_refuses_witness:
  "\<exists>dev'. dir_add True small_dir dir_disk (replicate 20 204) [97] 7 = Some (False, dev') \<and> inode_bytes small_dir dev' = inode_bytes small_dir dir_disk"
proof -
  have "dir_find small_dir dir_disk [97] = Some 5"
    by (simp add: dir_find_def small_dir_slots holds_def entry_in_use_def entry_name_def entry_sector_def nth_append)
  then show ?thesis using dir_add_refuses [OF small_dir_wf, of "replicate 20 204" "[97]" 7] by simp
qed

end
