(* ===== verification/File_System.thy ===== *)
theory File_System
  imports Directory Bitmap
begin

text \<open>
  The upper layers of the file system: the free map (\<open>src/pintos/src/filesys/free-map.c\<close>), the creation and the table of open inodes
  (\<open>inode.c\<close>), open files (\<open>file.c\<close>), opening of directories and removal (\<open>directory.c\<close>), and files by name (\<open>filesys.c\<close>).

  The record \<open>fs\<close> holds the device, the free map and the in-memory inodes by address.  The address that \<open>malloc\<close> returns for a new inode is an
  argument, as are the other answers of \<open>malloc\<close> (\<open>mem\<close>).  A pointer that may be null is an \<open>option\<close>.
\<close>

section \<open>State\<close>

record open_file =
  file_inode :: nat
  file_pos :: int
  deny_write :: bool

record fs =
  fs_device :: block
  free_map :: bitmap
  free_map_file :: "open_file option"
  inode_at :: "nat \<Rightarrow> inode"
  open_inodes :: "nat list"

abbreviation (input) FREE_MAP_SECTOR :: nat where "FREE_MAP_SECTOR \<equiv> 0"
abbreviation (input) ROOT_DIR_SECTOR :: nat where "ROOT_DIR_SECTOR \<equiv> 1"

definition modify_inode :: "nat \<Rightarrow> (inode \<Rightarrow> inode) \<Rightarrow> fs \<Rightarrow> fs" where
  "modify_inode i f s = s\<lparr>inode_at := (inode_at s)(i := f (inode_at s i))\<rparr>"

section \<open>Positioned reads and writes of files, and bitmaps in files\<close>

definition file_read_at :: "bool \<Rightarrow> open_file \<Rightarrow> int \<Rightarrow> int \<Rightarrow> fs \<Rightarrow> (u8 list \<times> fs) option" where
  "file_read_at mem f sz ofs s = do {
     (bytes, dev) \<leftarrow> inode_read_at mem (inode_at s (file_inode f)) (fs_device s) sz ofs;
     Some (bytes, s\<lparr>fs_device := dev\<rparr>)
   }"

definition file_write_at :: "bool \<Rightarrow> open_file \<Rightarrow> u8 list \<Rightarrow> int \<Rightarrow> int \<Rightarrow> fs \<Rightarrow> (int \<times> fs) option" where
  "file_write_at mem f buffer sz ofs s = do {
     (n, dev) \<leftarrow> inode_write_at mem (inode_at s (file_inode f)) (fs_device s) buffer sz ofs;
     Some (n, s\<lparr>fs_device := dev\<rparr>)
   }"

text \<open>\<open>bitmap_read\<close> and \<open>bitmap_write\<close> of \<open>src/pintos/src/lib/kernel/bitmap.c\<close>; the size becomes an \<open>off_t\<close>.\<close>

definition bitmap_read :: "bool \<Rightarrow> bitmap \<Rightarrow> open_file \<Rightarrow> fs \<Rightarrow> (bool \<times> bitmap \<times> fs) option" where
  "bitmap_read mem b f s = (
     if bit_cnt b > 0 then do {
       let sz = wrap_int (int (byte_cnt (bit_cnt b)));
       (bytes, s) \<leftarrow> file_read_at mem f sz 0 s;
       b \<leftarrow> bitmap_load b bytes;
       Some (int (length bytes) = sz, b, s)
     } else Some (True, b, s))"

definition bitmap_write :: "bool \<Rightarrow> bitmap \<Rightarrow> open_file \<Rightarrow> fs \<Rightarrow> (bool \<times> fs) option" where
  "bitmap_write mem b f s = do {
     let sz = wrap_int (int (byte_cnt (bit_cnt b)));
     (n, s) \<leftarrow> file_write_at mem f (bytes_of_words (bits b)) sz 0 s;
     Some (n = sz, s)
   }"

section \<open>The free map\<close>

definition free_map_init :: "bitmap option option \<Rightarrow> fs \<Rightarrow> fs option" where
  "free_map_init created s = do {
     b \<leftarrow> created;
     b \<leftarrow> b;
     b \<leftarrow> bitmap_mark b FREE_MAP_SECTOR;
     b \<leftarrow> bitmap_mark b ROOT_DIR_SECTOR;
     Some (s\<lparr>free_map := b\<rparr>)
   }"

definition free_map_allocate :: "bool \<Rightarrow> nat \<Rightarrow> fs \<Rightarrow> (nat option \<times> fs) option" where
  "free_map_allocate mem cnt s = do {
     (sec, b) \<leftarrow> bitmap_scan_and_flip (free_map s) 0 cnt False;
     let s = s\<lparr>free_map := b\<rparr>;
     if sec = BITMAP_ERROR then Some (None, s)
     else (case free_map_file s of
       None \<Rightarrow> Some (Some sec, s)
     | Some f \<Rightarrow> do {
         (written, s) \<leftarrow> bitmap_write mem (free_map s) f s;
         if \<not> written then do {
           b \<leftarrow> bitmap_set_multiple (free_map s) sec cnt False;
           Some (None, s\<lparr>free_map := b\<rparr>)
         } else Some (Some sec, s)
       })
   }"

text \<open>\<open>free_map_release\<close> writes to the file without a test for a null pointer: without a file it is a trap.\<close>

definition free_map_release :: "bool \<Rightarrow> nat \<Rightarrow> nat \<Rightarrow> fs \<Rightarrow> fs option" where
  "free_map_release mem sec cnt s = do {
     all \<leftarrow> bitmap_all (free_map s) sec cnt;
     ASSERT all;
     b \<leftarrow> bitmap_set_multiple (free_map s) sec cnt False;
     let s = s\<lparr>free_map := b\<rparr>;
     f \<leftarrow> free_map_file s;
     (_, s) \<leftarrow> bitmap_write mem (free_map s) f s;
     Some s
   }"

section \<open>Inodes\<close>

definition inode_init :: "fs \<Rightarrow> fs" where
  "inode_init s = s\<lparr>open_inodes := []\<rparr>"

text \<open>The bytes of an inode on the disk: three words and 125 unused ones.\<close>

definition inode_disk_bytes :: "inode_disk \<Rightarrow> u8 list" where
  "inode_disk_bytes d = bytes_of_words [word_of_nat (start d), word_of_int (inode_len d), word_of_nat (inode_magic d)] @ replicate 500 0"

definition bytes_inode_disk :: "u8 list \<Rightarrow> inode_disk" where
  "bytes_inode_disk bs = (let ws = words_of_bytes (take 12 bs) in
     \<lparr>start = unat (ws ! 0), inode_len = sint (ws ! 1), inode_magic = unat (ws ! 2)\<rparr>)"

fun zero_sectors :: "block \<Rightarrow> nat \<Rightarrow> nat \<Rightarrow> block option" where
  "zero_sectors dev sec 0 = Some dev"
| "zero_sectors dev sec (Suc n) = do {
     dev \<leftarrow> block_write dev sec (replicate BLOCK_SECTOR_SIZE 0);
     zero_sectors dev (sec + 1) n
   }"

definition inode_create :: "bool \<Rightarrow> bool \<Rightarrow> nat \<Rightarrow> int \<Rightarrow> fs \<Rightarrow> (bool \<times> fs) option" where
  "inode_create mem allocated sec len s = do {
     ASSERT (0 \<le> len);
     if allocated then do {
       let sectors = bytes_to_sectors len;
       (st, s) \<leftarrow> free_map_allocate mem sectors s;
       case st of
         None \<Rightarrow> Some (False, s)
       | Some st \<Rightarrow> do {
           dev \<leftarrow> block_write (fs_device s) sec (inode_disk_bytes \<lparr>start = st, inode_len = len, inode_magic = INODE_MAGIC\<rparr>);
           dev \<leftarrow> zero_sectors dev st sectors;
           Some (True, s\<lparr>fs_device := dev\<rparr>)
         }
     } else Some (False, s)
   }"

definition inode_reopen :: "nat \<Rightarrow> fs \<Rightarrow> fs" where
  "inode_reopen i s = modify_inode i (open_cnt_update (\<lambda>c. c + 1)) s"

definition inode_open :: "nat option \<Rightarrow> nat \<Rightarrow> fs \<Rightarrow> (nat option \<times> fs) option" where
  "inode_open p sec s = (
     case find (\<lambda>i. sector (inode_at s i) = sec) (open_inodes s) of
       Some i \<Rightarrow> Some (Some i, inode_reopen i s)
     | None \<Rightarrow> (case p of
         None \<Rightarrow> Some (None, s)
       | Some i \<Rightarrow> do {
           let s = s\<lparr>open_inodes := i # open_inodes s\<rparr>;
           (bytes, dev) \<leftarrow> block_read (fs_device s) sec;
           let ino = \<lparr>sector = sec, open_cnt = 1, removed = False, deny_write_cnt = 0, data = bytes_inode_disk bytes\<rparr>;
           Some (Some i, s\<lparr>fs_device := dev, inode_at := (inode_at s)(i := ino)\<rparr>)
         }))"

definition inode_get_inumber :: "nat \<Rightarrow> fs \<Rightarrow> nat" where
  "inode_get_inumber i s = sector (inode_at s i)"

definition inode_close :: "bool \<Rightarrow> nat option \<Rightarrow> fs \<Rightarrow> fs option" where
  "inode_close mem p s = (
     case p of
       None \<Rightarrow> Some s
     | Some i \<Rightarrow> do {
         let s = modify_inode i (open_cnt_update (\<lambda>c. c - 1)) s;
         if open_cnt (inode_at s i) = 0 then do {
           let s = s\<lparr>open_inodes := remove1 i (open_inodes s)\<rparr>;
           let ino = inode_at s i;
           if removed ino then do {
             s \<leftarrow> free_map_release mem (sector ino) 1 s;
             free_map_release mem (start (data ino)) (bytes_to_sectors (inode_len (data ino))) s
           } else Some s
         } else Some s
       })"

definition inode_remove :: "nat \<Rightarrow> fs \<Rightarrow> fs" where
  "inode_remove i s = modify_inode i (removed_update (\<lambda>_. True)) s"

section \<open>Files\<close>

text \<open>\<open>allocated\<close> is whether \<open>calloc\<close> returns an object.\<close>

definition file_open :: "bool \<Rightarrow> bool \<Rightarrow> nat option \<Rightarrow> fs \<Rightarrow> (open_file option \<times> fs) option" where
  "file_open mem allocated p s = (
     case p of
       Some i \<Rightarrow> if allocated then Some (Some \<lparr>file_inode = i, file_pos = 0, deny_write = False\<rparr>, s)
                 else do { s \<leftarrow> inode_close mem p s; Some (None, s) }
     | None \<Rightarrow> do { s \<leftarrow> inode_close mem p s; Some (None, s) })"

definition file_reopen :: "bool \<Rightarrow> bool \<Rightarrow> open_file \<Rightarrow> fs \<Rightarrow> (open_file option \<times> fs) option" where
  "file_reopen mem allocated f s = file_open mem allocated (Some (file_inode f)) (inode_reopen (file_inode f) s)"

definition file_deny_write :: "open_file \<Rightarrow> fs \<Rightarrow> (open_file \<times> fs) option" where
  "file_deny_write f s = (
     if \<not> deny_write f then do {
       ino \<leftarrow> inode_deny_write (inode_at s (file_inode f));
       Some (f\<lparr>deny_write := True\<rparr>, modify_inode (file_inode f) (\<lambda>_. ino) s)
     } else Some (f, s))"

definition file_allow_write :: "open_file \<Rightarrow> fs \<Rightarrow> (open_file \<times> fs) option" where
  "file_allow_write f s = (
     if deny_write f then do {
       ino \<leftarrow> inode_allow_write (inode_at s (file_inode f));
       Some (f\<lparr>deny_write := False\<rparr>, modify_inode (file_inode f) (\<lambda>_. ino) s)
     } else Some (f, s))"

definition file_close :: "bool \<Rightarrow> open_file option \<Rightarrow> fs \<Rightarrow> fs option" where
  "file_close mem p s = (
     case p of
       None \<Rightarrow> Some s
     | Some f \<Rightarrow> do {
         (f, s) \<leftarrow> file_allow_write f s;
         inode_close mem (Some (file_inode f)) s
       })"

definition file_read :: "bool \<Rightarrow> open_file \<Rightarrow> int \<Rightarrow> fs \<Rightarrow> (u8 list \<times> open_file \<times> fs) option" where
  "file_read mem f sz s = do {
     (bytes, s) \<leftarrow> file_read_at mem f sz (file_pos f) s;
     Some (bytes, f\<lparr>file_pos := file_pos f + int (length bytes)\<rparr>, s)
   }"

definition file_write :: "bool \<Rightarrow> open_file \<Rightarrow> u8 list \<Rightarrow> int \<Rightarrow> fs \<Rightarrow> (int \<times> open_file \<times> fs) option" where
  "file_write mem f buffer sz s = do {
     (n, s) \<leftarrow> file_write_at mem f buffer sz (file_pos f) s;
     Some (n, f\<lparr>file_pos := file_pos f + n\<rparr>, s)
   }"

definition file_length :: "open_file \<Rightarrow> fs \<Rightarrow> int" where
  "file_length f s = inode_length (inode_at s (file_inode f))"

definition file_seek :: "open_file \<Rightarrow> int \<Rightarrow> open_file option" where
  "file_seek f new_pos = do {
     ASSERT (0 \<le> new_pos);
     Some (f\<lparr>file_pos := new_pos\<rparr>)
   }"

definition file_tell :: "open_file \<Rightarrow> int" where
  "file_tell f = file_pos f"

text \<open>Opening, writing and closing of the file that holds the free map; \<open>p\<close> is the address of its inode.\<close>

definition free_map_open :: "bool \<Rightarrow> bool \<Rightarrow> nat option \<Rightarrow> fs \<Rightarrow> fs option" where
  "free_map_open mem allocated p s = do {
     (i, s) \<leftarrow> inode_open p FREE_MAP_SECTOR s;
     (f, s) \<leftarrow> file_open mem allocated i s;
     f \<leftarrow> f;
     let s = s\<lparr>free_map_file := Some f\<rparr>;
     (success, b, s) \<leftarrow> bitmap_read mem (free_map s) f s;
     ASSERT success;
     Some (s\<lparr>free_map := b\<rparr>)
   }"

definition free_map_close :: "bool \<Rightarrow> fs \<Rightarrow> fs option" where
  "free_map_close mem s = file_close mem (free_map_file s) s"

definition free_map_create :: "bool \<Rightarrow> bool \<Rightarrow> nat option \<Rightarrow> fs \<Rightarrow> fs option" where
  "free_map_create mem allocated p s = do {
     (created, s) \<leftarrow> inode_create mem allocated FREE_MAP_SECTOR (wrap_int (int (bitmap_file_size (free_map s)))) s;
     ASSERT created;
     (i, s) \<leftarrow> inode_open p FREE_MAP_SECTOR s;
     (f, s) \<leftarrow> file_open mem allocated i s;
     f \<leftarrow> f;
     let s = s\<lparr>free_map_file := Some f\<rparr>;
     (written, s) \<leftarrow> bitmap_write mem (free_map s) f s;
     ASSERT written;
     Some s
   }"

section \<open>Directories\<close>

record dir =
  dir_inode :: nat
  dir_pos :: int

definition dir_create :: "bool \<Rightarrow> bool \<Rightarrow> nat \<Rightarrow> nat \<Rightarrow> fs \<Rightarrow> (bool \<times> fs) option" where
  "dir_create mem allocated sec entry_cnt s = inode_create mem allocated sec (int (entry_cnt * 20)) s"

definition dir_open :: "bool \<Rightarrow> bool \<Rightarrow> nat option \<Rightarrow> fs \<Rightarrow> (dir option \<times> fs) option" where
  "dir_open mem allocated p s = (
     case p of
       Some i \<Rightarrow> if allocated then Some (Some \<lparr>dir_inode = i, dir_pos = 0\<rparr>, s)
                 else do { s \<leftarrow> inode_close mem p s; Some (None, s) }
     | None \<Rightarrow> do { s \<leftarrow> inode_close mem p s; Some (None, s) })"

definition dir_open_root :: "bool \<Rightarrow> bool \<Rightarrow> nat option \<Rightarrow> fs \<Rightarrow> (dir option \<times> fs) option" where
  "dir_open_root mem allocated p s = do {
     (i, s) \<leftarrow> inode_open p ROOT_DIR_SECTOR s;
     dir_open mem allocated i s
   }"

definition dir_reopen :: "bool \<Rightarrow> bool \<Rightarrow> dir \<Rightarrow> fs \<Rightarrow> (dir option \<times> fs) option" where
  "dir_reopen mem allocated d s = dir_open mem allocated (Some (dir_inode d)) (inode_reopen (dir_inode d) s)"

definition dir_close :: "bool \<Rightarrow> dir option \<Rightarrow> fs \<Rightarrow> fs option" where
  "dir_close mem p s = (case p of None \<Rightarrow> Some s | Some d \<Rightarrow> inode_close mem (Some (dir_inode d)) s)"

definition dir_lookup :: "bool \<Rightarrow> nat option \<Rightarrow> dir \<Rightarrow> u8 list \<Rightarrow> fs \<Rightarrow> (nat option \<times> fs) option" where
  "dir_lookup mem p d n s = do {
     (found, dev) \<leftarrow> lookup mem (inode_at s (dir_inode d)) (fs_device s) n;
     let s = s\<lparr>fs_device := dev\<rparr>;
     case found of
       None \<Rightarrow> Some (None, s)
     | Some (e, _) \<Rightarrow> inode_open p (entry_sector e) s
   }"

definition dir_remove :: "bool \<Rightarrow> nat option \<Rightarrow> dir \<Rightarrow> u8 list \<Rightarrow> fs \<Rightarrow> (bool \<times> fs) option" where
  "dir_remove mem p d n s = do {
     (found, dev) \<leftarrow> lookup mem (inode_at s (dir_inode d)) (fs_device s) n;
     let s = s\<lparr>fs_device := dev\<rparr>;
     case found of
       None \<Rightarrow> Some (False, s)
     | Some (e, ofs) \<Rightarrow> do {
         (i, s) \<leftarrow> inode_open p (entry_sector e) s;
         case i of
           None \<Rightarrow> Some (False, s)
         | Some i \<Rightarrow> do {
             (erased, dev) \<leftarrow> dir_erase mem (inode_at s (dir_inode d)) (fs_device s) e ofs;
             let s = s\<lparr>fs_device := dev\<rparr>;
             let s = (if erased then inode_remove i s else s);
             s \<leftarrow> inode_close mem (Some i) s;
             Some (erased, s)
           }
       }
   }"

section \<open>Files by name\<close>

text \<open>\<open>p\<close> is the address for the inode of the root directory, \<open>q\<close> that for the inode of the file; \<open>e\<close> is uninitialized memory.\<close>

definition filesys_create :: "bool \<Rightarrow> bool \<Rightarrow> nat option \<Rightarrow> u8 list \<Rightarrow> u8 list \<Rightarrow> int \<Rightarrow> fs \<Rightarrow> (bool \<times> fs) option" where
  "filesys_create mem allocated p e n initial_size s = do {
     (d, s) \<leftarrow> dir_open_root mem allocated p s;
     (inode_sector, success, s) \<leftarrow> (case d of
         None \<Rightarrow> Some (0, False, s)
       | Some d \<Rightarrow> do {
           (sec, s) \<leftarrow> free_map_allocate mem 1 s;
           case sec of
             None \<Rightarrow> Some (0, False, s)
           | Some sec \<Rightarrow> do {
               (created, s) \<leftarrow> inode_create mem allocated sec initial_size s;
               if \<not> created then Some (sec, False, s)
               else do {
                 (added, dev) \<leftarrow> dir_add mem (inode_at s (dir_inode d)) (fs_device s) e n sec;
                 Some (sec, added, s\<lparr>fs_device := dev\<rparr>)
               }
             }
         });
     s \<leftarrow> (if \<not> success \<and> inode_sector \<noteq> 0 then free_map_release mem inode_sector 1 s else Some s);
     s \<leftarrow> dir_close mem d s;
     Some (success, s)
   }"

definition filesys_open :: "bool \<Rightarrow> bool \<Rightarrow> nat option \<Rightarrow> nat option \<Rightarrow> u8 list \<Rightarrow> fs \<Rightarrow> (open_file option \<times> fs) option" where
  "filesys_open mem allocated p q n s = do {
     (d, s) \<leftarrow> dir_open_root mem allocated p s;
     (i, s) \<leftarrow> (case d of None \<Rightarrow> Some (None, s) | Some d \<Rightarrow> dir_lookup mem q d n s);
     s \<leftarrow> dir_close mem d s;
     file_open mem allocated i s
   }"

definition filesys_remove :: "bool \<Rightarrow> bool \<Rightarrow> nat option \<Rightarrow> nat option \<Rightarrow> u8 list \<Rightarrow> fs \<Rightarrow> (bool \<times> fs) option" where
  "filesys_remove mem allocated p q n s = do {
     (d, s) \<leftarrow> dir_open_root mem allocated p s;
     (success, s) \<leftarrow> (case d of None \<Rightarrow> Some (False, s) | Some d \<Rightarrow> dir_remove mem q d n s);
     s \<leftarrow> dir_close mem d s;
     Some (success, s)
   }"

definition do_format :: "bool \<Rightarrow> bool \<Rightarrow> nat option \<Rightarrow> fs \<Rightarrow> fs option" where
  "do_format mem allocated p s = do {
     s \<leftarrow> free_map_create mem allocated p s;
     (created, s) \<leftarrow> dir_create mem allocated ROOT_DIR_SECTOR 16 s;
     ASSERT created;
     free_map_close mem s
   }"

definition filesys_init :: "bool \<Rightarrow> bool \<Rightarrow> nat option \<Rightarrow> nat option \<Rightarrow> bitmap option option \<Rightarrow> bool \<Rightarrow> fs \<Rightarrow> fs option" where
  "filesys_init mem allocated p q created format s = do {
     s \<leftarrow> free_map_init created (inode_init s);
     s \<leftarrow> (if format then do_format mem allocated p s else Some s);
     free_map_open mem allocated q s
   }"

definition filesys_done :: "bool \<Rightarrow> fs \<Rightarrow> fs option" where
  "filesys_done mem s = free_map_close mem s"

section \<open>The table of open inodes\<close>

text \<open>What the free map functions leave alone.\<close>

definition same_table :: "fs \<Rightarrow> fs \<Rightarrow> bool" where
  "same_table s s' \<longleftrightarrow> inode_at s' = inode_at s \<and> open_inodes s' = open_inodes s \<and> free_map_file s' = free_map_file s"

lemma bitmap_write_table: "bitmap_write mem b f s = Some (ok, s') \<Longrightarrow> same_table s s'"
  by (auto simp: bitmap_write_def file_write_at_def same_table_def Let_def bind_eq_Some_conv)

lemma free_map_release_table:
  assumes "free_map_release mem sec cnt s = Some s'"
  shows "same_table s s'"
proof -
  obtain b f r where "bitmap_write mem b f (s\<lparr>free_map := b\<rparr>) = Some (r, s')"
    using assms by (auto simp: free_map_release_def Let_def bind_eq_Some_conv)
  from bitmap_write_table [OF this] show ?thesis by (simp add: same_table_def)
qed

text \<open>No inode is twice in the table, no two inodes of the table have the same sector, and each has an opener.\<close>

definition open_ok :: "fs \<Rightarrow> bool" where
  "open_ok s \<longleftrightarrow> distinct (open_inodes s) \<and> inj_on (\<lambda>i. sector (inode_at s i)) (set (open_inodes s)) \<and>
     (\<forall>i \<in> set (open_inodes s). 0 < open_cnt (inode_at s i))"

lemma modify_inode_simps [simp]:
  "open_inodes (modify_inode i f s) = open_inodes s" "fs_device (modify_inode i f s) = fs_device s"
  "inode_at (modify_inode i f s) k = (if k = i then f (inode_at s i) else inode_at s k)"
  by (simp_all add: modify_inode_def)

lemma open_ok_modify:
  assumes "open_ok s" "\<And>x. sector (f x) = sector x" "i \<in> set (open_inodes s) \<Longrightarrow> 0 < open_cnt (f (inode_at s i))"
  shows "open_ok (modify_inode i f s)"
proof -
  have "(\<lambda>k. sector (inode_at (modify_inode i f s) k)) = (\<lambda>k. sector (inode_at s k))" using assms(2) by (simp add: fun_eq_iff)
  moreover have "0 < open_cnt (inode_at (modify_inode i f s) k)" if "k \<in> set (open_inodes s)" for k
    using assms(1,3) that by (cases "k = i") (simp_all add: open_ok_def)
  ultimately show ?thesis using assms(1) unfolding open_ok_def modify_inode_simps(1) by simp
qed

lemma find_sector:
  assumes "open_ok s" "i \<in> set (open_inodes s)"
  shows "find (\<lambda>k. sector (inode_at s k) = sector (inode_at s i)) (open_inodes s) = Some i"
proof -
  obtain k where k: "find (\<lambda>k. sector (inode_at s k) = sector (inode_at s i)) (open_inodes s) = Some k"
    using assms(2) find_None_iff [of "\<lambda>k. sector (inode_at s k) = sector (inode_at s i)" "open_inodes s"] by fastforce
  then have "k \<in> set (open_inodes s)" "sector (inode_at s k) = sector (inode_at s i)"
    by (auto simp: find_Some_iff)
  then show ?thesis using k assms by (auto simp: open_ok_def inj_on_def)
qed

text \<open>How often a sector is open.\<close>

definition openers :: "fs \<Rightarrow> nat \<Rightarrow> int" where
  "openers s sec = (case find (\<lambda>i. sector (inode_at s i) = sec) (open_inodes s) of None \<Rightarrow> 0 | Some i \<Rightarrow> open_cnt (inode_at s i))"

text \<open>
  What the users of the table do: open a sector, with the address \<open>malloc\<close> returns if asked, open an inode again, mark it for removal, and close it.  The
  operations on an inode carry its sector, and are those of a user who has the inode open; \<open>malloc\<close> does not return memory in use.
\<close>

datatype inode_op = OpenInode "nat option" nat | ReopenInode nat nat | RemoveInode nat nat | CloseInode nat nat

fun inode_run :: "bool \<Rightarrow> inode_op list \<Rightarrow> fs \<Rightarrow> fs option" where
  "inode_run mem [] s = Some s"
| "inode_run mem (OpenInode p sec # ops) s = do {
     ASSERT (case p of None \<Rightarrow> True | Some i \<Rightarrow> i \<notin> set (open_inodes s));
     (r, s) \<leftarrow> inode_open p sec s;
     ASSERT (r \<noteq> None);
     inode_run mem ops s
   }"
| "inode_run mem (ReopenInode i sec # ops) s = do {
     ASSERT (i \<in> set (open_inodes s) \<and> sector (inode_at s i) = sec);
     inode_run mem ops (inode_reopen i s)
   }"
| "inode_run mem (RemoveInode i sec # ops) s = do {
     ASSERT (i \<in> set (open_inodes s) \<and> sector (inode_at s i) = sec);
     inode_run mem ops (inode_remove i s)
   }"
| "inode_run mem (CloseInode i sec # ops) s = do {
     ASSERT (i \<in> set (open_inodes s) \<and> sector (inode_at s i) = sec);
     s \<leftarrow> inode_close mem (Some i) s;
     inode_run mem ops s
   }"

fun opened_by :: "inode_op \<Rightarrow> nat \<Rightarrow> int" where
  "opened_by (OpenInode _ sec) k = (if k = sec then 1 else 0)"
| "opened_by (ReopenInode _ sec) k = (if k = sec then 1 else 0)"
| "opened_by (RemoveInode _ sec) k = 0"
| "opened_by (CloseInode _ sec) k = (if k = sec then - 1 else 0)"

lemma openers_member: "open_ok s \<Longrightarrow> i \<in> set (open_inodes s) \<Longrightarrow> openers s (sector (inode_at s i)) = open_cnt (inode_at s i)"
  by (simp add: openers_def find_sector)

lemma openers_absent: "\<forall>i \<in> set (open_inodes s). sector (inode_at s i) \<noteq> sec \<Longrightarrow> openers s sec = 0"
  using find_None_iff [of "\<lambda>i. sector (inode_at s i) = sec" "open_inodes s"] by (simp add: openers_def)

text \<open>The openers in two well-formed tables, where the second one differs in the inode \<open>p\<close> of the sector \<open>sec\<close> only.\<close>

lemma openers_change:
  assumes ok: "open_ok s" "open_ok s'" and sec: "p \<in> set (open_inodes s) \<Longrightarrow> sector (inode_at s p) = sec"
      "p \<in> set (open_inodes s') \<Longrightarrow> sector (inode_at s' p) = sec"
    and eq: "set (open_inodes s) - {p} = set (open_inodes s') - {p}" "\<And>i. i \<noteq> p \<Longrightarrow> inode_at s' i = inode_at s i"
    and new: "p \<in> set (open_inodes s) \<or> p \<in> set (open_inodes s')"
  shows "openers s' k = (if k = sec then (if p \<in> set (open_inodes s') then open_cnt (inode_at s' p) else 0) else openers s k)"
proof (cases "\<exists>i \<in> set (open_inodes s'). sector (inode_at s' i) = k")
  case True
  then obtain i where i: "i \<in> set (open_inodes s')" "sector (inode_at s' i) = k" by blast
  show ?thesis
  proof (cases "i = p")
    case True
    then show ?thesis using i openers_member [OF ok(2) i(1)] sec(2) by simp
  next
    case False
    then have j: "i \<in> set (open_inodes s)" "inode_at s' i = inode_at s i" using i(1) eq by auto
    have inj: "\<And>a b. a \<in> set (open_inodes s) \<Longrightarrow> b \<in> set (open_inodes s) \<Longrightarrow> sector (inode_at s a) = sector (inode_at s b) \<Longrightarrow> a = b"
      "\<And>a b. a \<in> set (open_inodes s') \<Longrightarrow> b \<in> set (open_inodes s') \<Longrightarrow> sector (inode_at s' a) = sector (inode_at s' b) \<Longrightarrow> a = b"
      using ok by (simp_all add: open_ok_def inj_on_def)
    have "k \<noteq> sec"
    proof
      assume k: "k = sec"
      from new show False
      proof
        assume p: "p \<in> set (open_inodes s)"
        then show False using inj(1) [OF j(1) p] sec(1) j(2) i(2) k False by simp
      next
        assume p: "p \<in> set (open_inodes s')"
        then show False using inj(2) [OF i(1) p] sec(2) i(2) k False by simp
      qed
    qed
    then show ?thesis using openers_member [OF ok(2) i(1)] openers_member [OF ok(1) j(1)] j(2) i(2) by simp
  qed
next
  case False
  then have z: "openers s' k = 0" using openers_absent by blast
  show ?thesis
  proof (cases "k = sec")
    case True
    then show ?thesis using z False sec(2) by auto
  next
    case nk: False
    have "sector (inode_at s i) \<noteq> k" if "i \<in> set (open_inodes s)" for i
    proof (cases "i = p")
      case True
      then show ?thesis using sec(1) that nk by simp
    next
      case ip: False
      then have "i \<in> set (open_inodes s')" using eq(1) that by auto
      then show ?thesis using False eq(2) [OF ip] by auto
    qed
    then show ?thesis using z nk openers_absent by simp
  qed
qed

lemma inode_open_known:
  assumes "open_ok s" "i \<in> set (open_inodes s)"
  shows "inode_open q (sector (inode_at s i)) s = Some (Some i, inode_reopen i s)"
  by (simp add: inode_open_def find_sector [OF assms])

lemma inode_reopen_ok:
  assumes "open_ok s" "i \<in> set (open_inodes s)"
  shows "open_ok (inode_reopen i s)" "openers (inode_reopen i s) k = openers s k + (if k = sector (inode_at s i) then 1 else 0)"
proof -
  show ok: "open_ok (inode_reopen i s)"
    unfolding inode_reopen_def by (rule open_ok_modify [OF assms(1)]) (use assms in \<open>auto simp: open_ok_def\<close>)
  show "openers (inode_reopen i s) k = openers s k + (if k = sector (inode_at s i) then 1 else 0)"
    using openers_change [OF assms(1) ok, of i "sector (inode_at s i)" k] openers_member [OF assms] assms(2)
    by (simp add: inode_reopen_def)
qed

lemma inode_open_new:
  assumes ok: "open_ok s" and p: "p \<notin> set (open_inodes s)" and new: "\<forall>i \<in> set (open_inodes s). sector (inode_at s i) \<noteq> sec"
  shows "sec < block_size (fs_device s) \<Longrightarrow> \<exists>s'. inode_open (Some p) sec s = Some (Some p, s')"
    "inode_open (Some p) sec s = Some (r, s') \<Longrightarrow> r = Some p \<and> open_ok s' \<and> openers s' k = openers s k + (if k = sec then 1 else 0)"
proof -
  have f: "find (\<lambda>i. sector (inode_at s i) = sec) (open_inodes s) = None" using new by (auto simp: find_None_iff)
  show "\<exists>s'. inode_open (Some p) sec s = Some (Some p, s')" if "sec < block_size (fs_device s)"
    using f block_read_eq [OF that] by (auto simp: inode_open_def Let_def)
  assume "inode_open (Some p) sec s = Some (r, s')"
  then obtain d dev where r: "r = Some p" and s': "s' = s\<lparr>open_inodes := p # open_inodes s, fs_device := dev,
      inode_at := (inode_at s)(p := \<lparr>sector = sec, open_cnt = 1, removed = False, deny_write_cnt = 0, data = d\<rparr>)\<rparr>"
    using f by (auto simp: inode_open_def Let_def bind_eq_Some_conv)
  have ok': "open_ok s'" using ok p new by (auto simp: s' open_ok_def inj_on_def)
  show "r = Some p \<and> open_ok s' \<and> openers s' k = openers s k + (if k = sec then 1 else 0)"
    using r ok' openers_change [OF ok ok', of p sec k] p openers_absent [OF new] by (auto simp: s')
qed

lemma inode_close_ok:
  assumes ok: "open_ok s" and i: "i \<in> set (open_inodes s)" and cl: "inode_close mem (Some i) s = Some s'"
  shows "open_ok s'" "openers s' k = openers s k - (if k = sector (inode_at s i) then 1 else 0)"
proof -
  let ?m = "modify_inode i (open_cnt_update (\<lambda>c. c - 1)) s"
  have c: "0 < open_cnt (inode_at s i)" using ok i by (simp add: open_ok_def)
  have t: "open_inodes s' = (if open_cnt (inode_at s i) = 1 then remove1 i (open_inodes s) else open_inodes s)" "inode_at s' = inode_at ?m"
    using cl by (auto simp: inode_close_def Let_def bind_eq_Some_conv same_table_def modify_inode_def split: if_splits
        dest!: free_map_release_table)
  have s': "set (open_inodes s') = (if open_cnt (inode_at s i) = 1 then set (open_inodes s) - {i} else set (open_inodes s))"
    "distinct (open_inodes s')" using t(1) ok by (auto simp: open_ok_def)
  have sec: "sector (inode_at s' j) = sector (inode_at s j)" for j using t(2) by simp
  have "0 < open_cnt (inode_at s' j)" if "j \<in> set (open_inodes s')" for j
    using that ok c s' t(2) by (cases "j = i") (auto simp: open_ok_def split: if_splits)
  moreover have "inj_on (\<lambda>j. sector (inode_at s' j)) (set (open_inodes s'))"
    using ok s'(1) unfolding sec by (auto simp: open_ok_def split: if_splits intro: inj_on_subset)
  ultimately show ok': "open_ok s'" using s'(2) by (simp add: open_ok_def)
  show "openers s' k = openers s k - (if k = sector (inode_at s i) then 1 else 0)"
    using openers_change [OF ok ok', of i "sector (inode_at s i)" k] sec i s' t(2) openers_member [OF ok i] by (auto split: if_splits)
qed

lemma inode_close_kept: "\<not> removed (inode_at s i) \<Longrightarrow> \<exists>s'. inode_close mem (Some i) s = Some s'"
  by (simp add: inode_close_def Let_def)

lemma inode_run_ok:
  "open_ok s \<Longrightarrow> inode_run mem ops s = Some s' \<Longrightarrow> open_ok s' \<and> openers s' k = openers s k + sum_list (map (\<lambda>c. opened_by c k) ops)"
proof (induction ops arbitrary: s)
  case (Cons c ops)
  have "\<exists>s1. open_ok s1 \<and> openers s1 k = openers s k + opened_by c k \<and> inode_run mem ops s1 = Some s'"
  proof (cases c)
    case (OpenInode p sec)
    obtain r s1 where r: "inode_open p sec s = Some (r, s1)" "r \<noteq> None" "inode_run mem ops s1 = Some s'"
      "case p of None \<Rightarrow> True | Some i \<Rightarrow> i \<notin> set (open_inodes s)"
      using Cons.prems(2) OpenInode by (auto simp: ASSERT_def bind_eq_Some_conv split: if_splits)
    show ?thesis
    proof (cases "\<exists>i \<in> set (open_inodes s). sector (inode_at s i) = sec")
      case True
      then obtain i where i: "i \<in> set (open_inodes s)" "sector (inode_at s i) = sec" by blast
      have "s1 = inode_reopen i s" using inode_open_known [OF Cons.prems(1) i(1), of p] r(1) i(2) by simp
      then show ?thesis using inode_reopen_ok [OF Cons.prems(1) i(1)] r(3) i(2) OpenInode by auto
    next
      case False
      then have n: "\<forall>i \<in> set (open_inodes s). sector (inode_at s i) \<noteq> sec" by blast
      then have "find (\<lambda>i. sector (inode_at s i) = sec) (open_inodes s) = None" by (auto simp: find_None_iff)
      then obtain i where p: "p = Some i" using r(1,2) by (cases p) (auto simp: inode_open_def)
      then have "i \<notin> set (open_inodes s)" "inode_open (Some i) sec s = Some (r, s1)" using r by auto
      from inode_open_new(2) [OF Cons.prems(1) this(1) n this(2), of k] show ?thesis using r(3) OpenInode by auto
    qed
  next
    case (ReopenInode i sec)
    then show ?thesis using Cons.prems inode_reopen_ok [OF Cons.prems(1), of i] by (auto simp: ASSERT_def split: if_splits)
  next
    case (RemoveInode i sec)
    then have i: "i \<in> set (open_inodes s)" and r: "inode_run mem ops (inode_remove i s) = Some s'"
      using Cons.prems(2) by (auto simp: ASSERT_def split: if_splits)
    have ok: "open_ok (inode_remove i s)"
      unfolding inode_remove_def by (rule open_ok_modify [OF Cons.prems(1)]) (use i Cons.prems(1) in \<open>auto simp: open_ok_def\<close>)
    have "openers (inode_remove i s) k = openers s k"
      using openers_change [OF Cons.prems(1) ok, of i "sector (inode_at s i)" k] openers_member [OF Cons.prems(1) i] i
      by (simp add: inode_remove_def)
    then show ?thesis using ok r RemoveInode by auto
  next
    case (CloseInode i sec)
    then obtain s1 where "i \<in> set (open_inodes s)" "sector (inode_at s i) = sec" "inode_close mem (Some i) s = Some s1" "inode_run mem ops s1 = Some s'"
      using Cons.prems(2) by (auto simp: ASSERT_def bind_eq_Some_conv split: if_splits)
    then show ?thesis using inode_close_ok [OF Cons.prems(1), of i mem s1] CloseInode by auto
  qed
  then show ?case using Cons.IH by force
qed simp

text \<open>
  (C32) The table of open inodes: after any sequence of opening, opening again, marking for removal and closing, no inode and no sector is twice in the table; a
  sector has the number of openers it had before, plus one for each time it was opened and minus one for each time it was closed, and is in the table exactly
  as long as that number is positive.  Opening a sector of the table returns the inode that is there, with one more opener and without a new object;
  opening another one of the device returns the new object, and fails without effect when there is no memory; closing an inode not marked for removal never panics.
\<close>

theorem inode_open_shared:
  assumes "open_ok s" "inode_run mem ops s = Some s'"
  shows "open_ok s' \<and>
    (\<forall>sec. openers s' sec = openers s sec + sum_list (map (\<lambda>c. opened_by c sec) ops) \<and>
       ((\<exists>i \<in> set (open_inodes s'). sector (inode_at s' i) = sec) \<longleftrightarrow> 0 < openers s' sec)) \<and>
    (\<forall>i \<in> set (open_inodes s'). \<forall>q. \<exists>s''. inode_open q (sector (inode_at s' i)) s' = Some (Some i, s'') \<and>
       open_cnt (inode_at s'' i) = open_cnt (inode_at s' i) + 1 \<and> open_inodes s'' = open_inodes s' \<and>
       (\<forall>k. k \<noteq> i \<longrightarrow> inode_at s'' k = inode_at s' k)) \<and>
    (\<forall>sec. (\<forall>i \<in> set (open_inodes s'). sector (inode_at s' i) \<noteq> sec) \<longrightarrow> inode_open None sec s' = Some (None, s') \<and>
       (\<forall>p. p \<notin> set (open_inodes s') \<and> sec < block_size (fs_device s') \<longrightarrow> (\<exists>s''. inode_open (Some p) sec s' = Some (Some p, s'')))) \<and>
    (\<forall>i. \<not> removed (inode_at s' i) \<longrightarrow> (\<exists>s''. inode_close mem (Some i) s' = Some s''))"
proof (intro conjI allI ballI impI)
  note r = inode_run_ok [OF assms]
  show ok: "open_ok s'" using r by blast
  show "openers s' sec = openers s sec + sum_list (map (\<lambda>c. opened_by c sec) ops)" for sec using r by blast
  show "(\<exists>i \<in> set (open_inodes s'). sector (inode_at s' i) = sec) \<longleftrightarrow> 0 < openers s' sec" for sec
  proof
    assume "\<exists>i \<in> set (open_inodes s'). sector (inode_at s' i) = sec"
    then show "0 < openers s' sec" using openers_member [OF ok] ok by (auto simp: open_ok_def)
  next
    assume "0 < openers s' sec"
    then show "\<exists>i \<in> set (open_inodes s'). sector (inode_at s' i) = sec" using openers_absent [of s' sec] by fastforce
  qed
  show "\<exists>s''. inode_open q (sector (inode_at s' i)) s' = Some (Some i, s'') \<and>
       open_cnt (inode_at s'' i) = open_cnt (inode_at s' i) + 1 \<and> open_inodes s'' = open_inodes s' \<and>
       (\<forall>k. k \<noteq> i \<longrightarrow> inode_at s'' k = inode_at s' k)" if "i \<in> set (open_inodes s')" for i q
    using inode_open_known [OF ok that, of q] by (simp add: inode_reopen_def)
  show "inode_open None sec s' = Some (None, s')" if "\<forall>i \<in> set (open_inodes s'). sector (inode_at s' i) \<noteq> sec" for sec
  proof -
    have "find (\<lambda>i. sector (inode_at s' i) = sec) (open_inodes s') = None" using that by (auto simp: find_None_iff)
    then show ?thesis by (simp add: inode_open_def)
  qed
  show "\<exists>s''. inode_open (Some p) sec s' = Some (Some p, s'')"
    if "\<forall>i \<in> set (open_inodes s'). sector (inode_at s' i) \<noteq> sec" "p \<notin> set (open_inodes s') \<and> sec < block_size (fs_device s')" for sec p
    using inode_open_new(1) [OF ok _ that(1)] that(2) by blast
  show "\<exists>s''. inode_close mem (Some i) s' = Some s''" if "\<not> removed (inode_at s' i)" for i using inode_close_kept [OF that] .
qed

text \<open>
  (C33) Write denial: while a file is denied writes, as the executable of a running process is, no write through any file on the same inode has an
  effect; \<open>file_allow_write\<close> gives back the state before.
\<close>

theorem file_deny_write_protects:
  assumes "\<not> deny_write f" "0 \<le> deny_write_cnt (inode_at s (file_inode f))"
    "deny_write_cnt (inode_at s (file_inode f)) < open_cnt (inode_at s (file_inode f))" "file_inode g = file_inode f"
  shows "\<exists>s1. file_deny_write f s = Some (f\<lparr>deny_write := True\<rparr>, s1) \<and>
    (\<forall>mem buffer sz ofs. file_write_at mem g buffer sz ofs s1 = Some (0, s1)) \<and>
    file_allow_write (f\<lparr>deny_write := True\<rparr>) s1 = Some (f, s)"
proof -
  let ?i = "file_inode f"
  let ?s1 = "modify_inode ?i (\<lambda>x. x\<lparr>deny_write_cnt := deny_write_cnt x + 1\<rparr>) s"
  have "file_deny_write f s = Some (f\<lparr>deny_write := True\<rparr>, ?s1)"
    using assms(1,3) by (simp add: file_deny_write_def inode_deny_write_def Let_def modify_inode_def)
  moreover have "file_write_at mem g buffer sz ofs ?s1 = Some (0, ?s1)" for mem buffer sz ofs
    using assms(2,4) by (simp add: file_write_at_def inode_write_at_def)
  moreover have "file_allow_write (f\<lparr>deny_write := True\<rparr>) ?s1 = Some (f, s)"
    using assms(1-3) by (simp add: file_allow_write_def inode_allow_write_def modify_inode_def)
  ultimately show ?thesis by blast
qed

definition small_fs :: fs where
  "small_fs = \<lparr>fs_device = small_disk, free_map = \<lparr>bit_cnt = 8, bits = [3]\<rparr>, free_map_file = None,
     inode_at = (\<lambda>_. small_inode), open_inodes = [9]\<rparr>"

theorem inode_open_shared_witness:
  "\<exists>s'. inode_run True [OpenInode (Some 4) 1, OpenInode None 1, CloseInode 4 1] small_fs = Some s' \<and> openers s' 1 = 1"
proof -
  obtain dev where r: "block_read small_disk 1 = Some (medium small_disk 1, dev)"
    using block_read_eq [of 1 small_disk] by (auto simp: small_disk_def)
  have ok: "open_ok small_fs" by (simp add: open_ok_def small_fs_def small_inode_def)
  have "\<exists>s'. inode_run True [OpenInode (Some 4) 1, OpenInode None 1, CloseInode 4 1] small_fs = Some s'"
    by (simp del: One_nat_def add: inode_open_def inode_close_def inode_reopen_def small_fs_def small_inode_def r Let_def)
  then obtain s' where s': "inode_run True [OpenInode (Some 4) 1, OpenInode None 1, CloseInode 4 1] small_fs = Some s'" by blast
  have "openers small_fs 1 = 0" by (simp add: openers_def small_fs_def small_inode_def)
  moreover have "openers s' 1 = openers small_fs 1 + sum_list (map (\<lambda>c. opened_by c 1) [OpenInode (Some 4) 1, OpenInode None 1, CloseInode 4 1])"
    using inode_open_shared [OF ok s'] by (elim conjE allE) assumption
  ultimately have "openers s' 1 = 1" by simp
  then show ?thesis using s' by blast
qed

theorem file_deny_write_protects_witness:
  "\<exists>s1. file_deny_write \<lparr>file_inode = 9, file_pos = 0, deny_write = False\<rparr> small_fs =
       Some (\<lparr>file_inode = 9, file_pos = 0, deny_write = True\<rparr>, s1) \<and>
     file_write_at True \<lparr>file_inode = 9, file_pos = 5, deny_write = False\<rparr> [1, 2] 2 0 s1 = Some (0, s1)"
proof -
  let ?f = "\<lparr>file_inode = 9, file_pos = 0, deny_write = False\<rparr>" and ?g = "\<lparr>file_inode = 9, file_pos = 5, deny_write = False\<rparr>"
  have "0 \<le> deny_write_cnt (inode_at small_fs (file_inode ?f))"
    "deny_write_cnt (inode_at small_fs (file_inode ?f)) < open_cnt (inode_at small_fs (file_inode ?f))"
    by (simp_all add: small_fs_def small_inode_def)
  from file_deny_write_protects [OF _ this, of ?g] show ?thesis by auto
qed

text \<open>
  (C17) A bitmap survives its storage in a file: \<open>bitmap_write\<close> into a file that is long enough succeeds, and \<open>bitmap_read\<close> of the same file into any
  bitmap of the same size succeeds and gives back every bit, whatever the unused bits of the last element are.  With a file that is too short
  \<open>bitmap_write\<close> reports failure.
\<close>

theorem bitmap_file_round_trip:
  assumes "wf_bitmap b" "wf_bitmap b0" "bit_cnt b0 = bit_cnt b"
    "wf_inode (inode_at s (file_inode f)) (fs_device s)" "deny_write_cnt (inode_at s (file_inode f)) = 0"
    "int (bitmap_file_size b) < 2 ^ 31"
  shows "\<exists>s1. bitmap_write True b f s = Some (int (bitmap_file_size b) \<le> file_length f s, s1) \<and>
    (int (bitmap_file_size b) \<le> file_length f s \<longrightarrow>
      (\<exists>b' s2. bitmap_read True b0 f s1 = Some (True, b', s2) \<and> wf_bitmap b' \<and> bitmap_bits b' = bitmap_bits b))"
proof -
  let ?i = "inode_at s (file_inode f)" and ?n = "byte_cnt (bit_cnt b)" and ?buf = "bytes_of_words (bits b)"
  have sz: "wrap_int (int ?n) = int ?n" using assms(6) by (simp add: bitmap_file_size_def)
  have nb: "?n \<le> length ?buf" using assms(1) by (simp add: wf_bitmap_def byte_cnt_def)
  obtain dev' where d: "inode_write_at True ?i (fs_device s) ?buf (int ?n) 0 = Some (int (reach ?i ?n 0), dev')" "wf_inode ?i dev'"
    "inode_bytes ?i dev' = (if 0 < nat (inode_length ?i) then blend (inode_bytes ?i (fs_device s)) 0 (take (reach ?i ?n 0) ?buf) else inode_bytes ?i (fs_device s))"
    using inode_write_at_bytes [OF assms(4,5) nb, of 0] by auto
  obtain l where l: "inode_length ?i = int l" using assms(4) by (metis wf_inode_def nonneg_int_cases)
  then have fl: "file_length f s = int l" by (simp add: file_length_def)
  let ?s1 = "s\<lparr>fs_device := dev'\<rparr>"
  have "bitmap_write True b f s = Some (int (bitmap_file_size b) \<le> file_length f s, ?s1)"
    using d(1) sz l fl by (auto simp: bitmap_write_def file_write_at_def reach_def bitmap_file_size_def)
  moreover have "\<exists>b' s2. bitmap_read True b0 f ?s1 = Some (True, b', s2) \<and> wf_bitmap b' \<and> bitmap_bits b' = bitmap_bits b"
    if le: "int (bitmap_file_size b) \<le> file_length f s"
  proof (cases "bit_cnt b = 0")
    case True
    then show ?thesis using assms(2,3) by (simp add: bitmap_read_def bitmap_bits_def)
  next
    case False
    have r: "reach ?i ?n 0 = ?n" "?n \<le> l" using le l fl by (simp_all add: reach_def bitmap_file_size_def)
    have "take ?n (inode_bytes ?i dev') = take ?n ?buf" using d(3) r l nb length_inode_bytes [of ?i "fs_device s"] by (auto simp: blend_def simp del: length_inode_bytes)
    then obtain dev'' where "inode_read_at True ?i dev' (int ?n) 0 = Some (take ?n ?buf, dev'')"
      using inode_read_at_bytes [OF d(2), of ?n 0] by auto
    then have rd: "file_read_at True f (int ?n) 0 ?s1 = Some (take ?n ?buf, ?s1\<lparr>fs_device := dev''\<rparr>)" by (simp add: file_read_at_def)
    obtain b' where "bitmap_load b0 (take ?n ?buf) = Some b'" "wf_bitmap b'" "bitmap_bits b' = bitmap_bits b"
      using bitmap_load_back [OF assms(1-3) False] by blast
    then show ?thesis using rd sz False assms(3) nb by (simp add: bitmap_read_def)
  qed
  ultimately show ?thesis by blast
qed

theorem bitmap_file_round_trip_witness:
  "\<exists>s1 b' s2. bitmap_write True \<lparr>bit_cnt = 3, bits = [0xFD]\<rparr> \<lparr>file_inode = 9, file_pos = 0, deny_write = False\<rparr> small_fs = Some (True, s1) \<and>
     bitmap_read True \<lparr>bit_cnt = 3, bits = [0]\<rparr> \<lparr>file_inode = 9, file_pos = 0, deny_write = False\<rparr> s1 = Some (True, b', s2) \<and>
     bitmap_bits b' = [True, False, True]"
proof -
  let ?f = "\<lparr>file_inode = 9, file_pos = 0, deny_write = False\<rparr>"
  have "wf_bitmap \<lparr>bit_cnt = 3, bits = [w]\<rparr>" for w by (simp add: wf_bitmap_def elem_cnt_def)
  moreover have "bitmap_bits \<lparr>bit_cnt = 3, bits = [0xFD]\<rparr> = [True, False, True]"
    by (simp add: bitmap_bits_def upt_rec)
  moreover have "wf_inode (inode_at small_fs (file_inode ?f)) (fs_device small_fs)" "deny_write_cnt (inode_at small_fs (file_inode ?f)) = 0"
    by (simp_all add: small_fs_def wf_inode_def small_inode_def small_disk_def inode_length_def bytes_to_sectors_small DIV_ROUND_UP_def wf_block_def)
  moreover have "int (bitmap_file_size \<lparr>bit_cnt = 3, bits = [0xFD]\<rparr>) \<le> file_length ?f small_fs"
    "int (bitmap_file_size \<lparr>bit_cnt = 3, bits = [0xFD]\<rparr>) < 2 ^ 31"
    by (simp_all add: bitmap_file_size_def byte_cnt_def elem_cnt_def file_length_def small_fs_def small_inode_def inode_length_def)
  ultimately show ?thesis
    using bitmap_file_round_trip [of "\<lparr>bit_cnt = 3, bits = [0xFD]\<rparr>" "\<lparr>bit_cnt = 3, bits = [0]\<rparr>" small_fs ?f] by (auto split: if_splits)
qed

end
