(* ===== verification/Spec2Isabelle.thy ===== *)
theory Spec2Isabelle
  imports Pintos_Prelude Kernel_List Bitmap C_String Hash_Table Arith64 C_Stdlib Fixed_Point Priority_Donation Intq File_System
begin

text \<open>
  \<^bold>\<open>Pintos.\<close>  A verification development for the Pintos operating system under \<open>src/pintos/src\<close>: the thread system with
  priority scheduling, priority donation and the feedback queue scheduler, its synchronization primitives, the timer, the
  library of the kernel, and the file system.

  \<^bold>\<open>The program and its parts.\<close>  \<open>threads/thread.c\<close> keeps the ready list and switches threads; \<open>threads/synch.c\<close> builds semaphores, locks
  and condition variables on \<open>thread_block\<close> and \<open>thread_unblock\<close>; \<open>devices/timer.c\<close> puts threads to sleep and, in the timer
  interrupt, wakes them and calls \<open>thread_tick\<close>; \<open>threads/interrupt.c\<close> delivers the interrupt.  They share the lists of
  \<open>lib/kernel/list.c\<close>.  \<open>lib/kernel/bitmap.c\<close> and \<open>lib/kernel/hash.c\<close> are the other data structures of the kernel, \<open>lib/string.c\<close>,
  \<open>lib/stdlib.c\<close>, \<open>lib/arithmetic.c\<close> and \<open>lib/random.c\<close> its C library.  \<open>devices/intq.c\<close> joins interrupt handlers and
  threads; \<open>filesys/inode.c\<close> stores files in the sectors of \<open>devices/block.c\<close>.

  \<^bold>\<open>Conventions.\<close>  A function that may panic is a function into \<open>option\<close>; a failed \<open>ASSERT\<close>, a \<open>PANIC\<close>, a trap of the processor and an access
  that is undefined in C are \<^term>\<open>None\<close> (theory \<open>Pintos_Prelude\<close>).  Loops that may run forever are partial functions, for which
  not returning is \<^term>\<open>None\<close> as well, so that a theorem with \<^term>\<open>Some\<close> on its right-hand side says that the code returns.
  Machine integers are words where the code works on bits, and integers or natural numbers with the wrap-around written out elsewhere.
  The answers of \<open>malloc\<close> and \<open>palloc_get_page\<close> are arguments.

  \<^bold>\<open>Theories.\<close>

  \<^item> \<open>Pintos_Prelude\<close>: panics, machine types, division of C, bytes of words, \<open>lib/round.h\<close>.

  \<^item> \<open>Kernel_List\<close>: \<open>lib/kernel/list.c\<close> on an explicit store of elements with their \<open>prev\<close> and \<open>next\<close> pointers.  Every
  operation is refined to an operation on sequences; \<open>list_sort\<close>, the in-place natural merge sort, is shown to terminate and to be
  the stable sort.  The other theories use the sequences.

  \<^item> \<open>Bitmap\<close>: \<open>lib/kernel/bitmap.c\<close> on an array of words, refined to lists of bits; a locale for allocators of slots, interpreted
  on the bitmap, gives that the groups it hands out are disjoint.

  \<^item> \<open>C_String\<close>, \<open>C_Stdlib\<close>, \<open>Arith64\<close>: the string functions on a byte-addressed memory, \<open>sort\<close>, \<open>bsearch\<close>, \<open>atoi\<close>, the random
  number generator, and 64-bit division by 32-bit instructions.

  \<^item> \<open>Hash_Table\<close>: \<open>lib/kernel/hash.c\<close>, with the hash function and the order as parameters whose laws are the assumptions of a locale; the table is
  refined to a finite map through every resizing.

  \<^item> \<open>Threads\<close>, \<open>Synch\<close>, \<open>Timer\<close>, \<open>Fixed_Point\<close>: the thread system.  The record \<open>kernel\<close> holds the threads, semaphores, locks and conditions by
  their addresses, the lists, the interrupt level, the tick counters and the globals of \<open>thread.c\<close>.  A thread switch changes the current thread; what a thread
  still has to do inside the kernel when it is switched out is its stack of frames, one constructor of \<open>frame\<close> for each call site
  after which a function goes on.  A function that blocks is cut there, and the rest of it has the suffix \<open>_tail\<close>.

  \<^item> \<open>Kernel_Steps\<close>: the transition system.  \<open>kstep\<close> is one step: the running thread calls a function of the thread system
  (\<open>perform\<close>), or goes on with the top frame of its stack (\<open>resume\<close>), or the timer interrupts.  \<open>reachable\<close> are the states after \<open>thread_init\<close>, \<open>thread_start\<close> and
  any sequence of steps, for each of the two schedulers.

  \<^item> \<open>Kernel_Invariant\<close>, \<open>Kernel_Functions\<close>, \<open>Kernel_Timer\<close>, \<open>Kernel_Safety\<close>: the invariant of all reachable states and the proofs, function by function, that
  it is kept: where every thread is, what every stack looks like, the order of the ready list, the sleepers, and the life of a lock (free, claimed by one
  thread, or held).  \<open>Kernel_Safety\<close> has the theorems on reachable states: the kernel never panics on its own, no thread is lost, locks
  exclude each other, the running thread has the highest priority, sleepers wake on time.

  \<^item> \<open>Priority_Donation\<close>: what \<open>lock_acquire\<close> donates along the chain of waiting threads, and which thread \<open>sema_up\<close> wakes.

  \<^item> \<open>Intq\<close>: the interrupt queue and the input buffer; a locale for bounded queues, interpreted on the circular buffer.

  \<^item> \<open>Block_Device\<close>, \<open>Inode\<close>: sectors, and files as contiguous groups of sectors; reading and writing through bounce buffers is
  shown to read and write the list of bytes of the file.

  \<^item> \<open>Directory\<close>: directories as arrays of entries in an inode; searching and adding are those of the finite map from names to sectors.

  \<^item> \<open>File_System\<close>: the free map, the creation, opening and closing of inodes, open files, and files by name; the table of open inodes holds no
  sector twice, and denied writes have no effect.

  \<^bold>\<open>Bounds.\<close>  Tick counts are below \<open>2 ^ 63\<close>, which 100 ticks in a second do not reach.  The donation loop has the bound
  \<open>MAX_DONATION_DEPTH\<close> of the code, 8, after the first donation.  The bound on the load average holds for at most 2000 runnable threads; beyond about that
  number the 32-bit fixed-point numbers overflow.  The other loops need no bound.

  \<^bold>\<open>Not modelled.\<close>  Drivers of hardware registers (\<open>devices/ide.c\<close>, \<open>serial.c\<close>, \<open>vga.c\<close>, \<open>kbd.c\<close>, \<open>rtc.c\<close>, \<open>pit.c\<close>, \<open>speaker.c\<close>, \<open>shutdown.c\<close>), the boot code and
  the descriptor tables (\<open>threads/init.c\<close>, \<open>start.S\<close>, \<open>loader.S\<close>, \<open>userprog/gdt.c\<close>, \<open>tss.c\<close>): their effect lies in the processor and in devices.  Formatted
  output (\<open>lib/stdio.c\<close>, the consoles).  The page and block allocators \<open>threads/palloc.c\<close> and \<open>malloc.c\<close>, whose answers are arguments here.
  The file utilities of the command line (\<open>fsutil.c\<close>).  User processes, system calls, page tables and virtual memory (\<open>userprog\<close>, \<open>vm\<close>), whose behaviour depends on the user's memory
  and on the processor's page tables.  The programs under \<open>examples\<close>, \<open>utils\<close> and \<open>tests\<close> are not part of the kernel.
\<close>

end
